(* ===== verification/Ws_Prelude.thy ===== *)
theory Ws_Prelude
  imports Main "HOL-Library.Word"
begin

unbundle bit_operations_syntax

text \<open>
  Shared vocabulary of the development: the result type of operations that can go wrong in C++,
  the view of a \<^verbatim>\<open>std::string\<close> as a list of bytes with the readable terminator behind its last
  byte, fixed-width byte order conversions, and the generic lemmas the components use.

  Platform: x86-64 Linux with GCC, as the sources (\<^verbatim>\<open>sys/epoll.h\<close>, \<^verbatim>\<open>endian.h\<close>) require:
  little endian, \<^verbatim>\<open>size_t\<close> and pointers of 64 bits, \<^verbatim>\<open>int\<close> of 32 bits, plain \<^verbatim>\<open>char\<close> signed.
\<close>

section \<open>Results of operations that can go wrong\<close>

text \<open>
  The ways in which running the code can leave the language's rules or never come back. A modelled
  operation returns \<open>Inl\<close> of one of them, or \<open>Inr\<close> of its value.
  \<^item> \<open>Out_of_bounds\<close>: an access outside the storage of a string or buffer;
  \<^item> \<open>Use_after_free\<close>: an access through a pointer to a deleted object;
  \<^item> \<open>Spin_forever\<close>: \<^verbatim>\<open>spin_lock::lock\<close> on a lock nobody will release;
  \<^item> \<open>Bad_iterator\<close>: \<^verbatim>\<open>std::list::erase\<close> with an iterator of another list;
  \<^item> \<open>Bad_function_call\<close>: a call of an empty \<^verbatim>\<open>std::function\<close>;
  \<^item> \<open>Int_overflow\<close>: a counter or offset of type \<^verbatim>\<open>int\<close> that cannot hold its value;
  \<^item> \<open>Length_error\<close>: \<^verbatim>\<open>std::string::append\<close> beyond \<^verbatim>\<open>max_size\<close>;
  \<^item> \<open>Dangling_reference\<close>: a read through a reference to a dead local;
  \<^item> \<open>Runtime_error\<close>: a \<^verbatim>\<open>std::runtime_error\<close> that nothing in the program catches;
  \<^item> \<open>Script_end\<close>: not a fault of the code: the environment's script of system call results
    ended while a loop of the code was still asking for more.
\<close>

datatype fault =
    Out_of_bounds
  | Use_after_free
  | Spin_forever
  | Bad_iterator
  | Bad_function_call
  | Int_overflow
  | Length_error
  | Dangling_reference
  | Runtime_error string
  | Script_end

type_synonym 'a res = "fault + 'a"

text \<open>Sequencing: the rest runs on the value, a fault ends the run.\<close>

definition bnd :: "'e + 'a \<Rightarrow> ('a \<Rightarrow> 'e + 'b) \<Rightarrow> 'e + 'b" where
  "bnd x f = (case x of Inl e \<Rightarrow> Inl e | Inr a \<Rightarrow> f a)"

lemma bnd_simps [simp]:
  "bnd (Inl e) f = Inl e"
  "bnd (Inr a) f = f a"
  by (simp_all add: bnd_def)

lemma bnd_eq_Inr_iff [simp]: "bnd x f = Inr b \<longleftrightarrow> (\<exists>a. x = Inr a \<and> f a = Inr b)"
  by (cases x) auto

lemma bnd_eq_Inl_iff:
  "bnd x f = Inl e \<longleftrightarrow> x = Inl e \<or> (\<exists>a. x = Inr a \<and> f a = Inl e)"
  by (cases x) auto

lemma bnd_return: "bnd x Inr = x"
  by (cases x) simp_all

lemma bnd_cong [fundef_cong]:
  "x = y \<Longrightarrow> (\<And>a. y = Inr a \<Longrightarrow> f a = g a) \<Longrightarrow> bnd x f = bnd y g"
  by (cases y) auto

lemma bnd_assoc: "bnd (bnd x f) g = bnd x (\<lambda>a. bnd (f a) g)"
  by (cases x) auto

lemma bnd_split:
  "P (bnd x f) \<longleftrightarrow> (\<forall>e. x = Inl e \<longrightarrow> P (Inl e)) \<and> (\<forall>a. x = Inr a \<longrightarrow> P (f a))"
  by (cases x) auto

text \<open>A partial-correctness triple over results, with its composition rule.\<close>

definition ok :: "'a res \<Rightarrow> ('a \<Rightarrow> bool) \<Rightarrow> bool" where
  "ok r Q \<longleftrightarrow> (\<forall>a. r = Inr a \<longrightarrow> Q a)"

lemma okI: "(\<And>a. r = Inr a \<Longrightarrow> Q a) \<Longrightarrow> ok r Q"
  by (simp add: ok_def)

lemma okD: "ok r Q \<Longrightarrow> r = Inr a \<Longrightarrow> Q a"
  by (simp add: ok_def)

lemma ok_simps [simp]:
  "ok (Inl e) Q"
  "ok (Inr a) Q \<longleftrightarrow> Q a"
  by (simp_all add: ok_def)

lemma ok_bnd: "ok x P \<Longrightarrow> (\<And>a. P a \<Longrightarrow> ok (f a) Q) \<Longrightarrow> ok (bnd x f) Q"
  by (cases x) auto

lemma ok_mono: "ok r P \<Longrightarrow> (\<And>a. P a \<Longrightarrow> Q a) \<Longrightarrow> ok r Q"
  by (auto simp: ok_def)

text \<open>The stronger triple that also excludes the use of a deleted object.\<close>

definition safe :: "'a res \<Rightarrow> ('a \<Rightarrow> bool) \<Rightarrow> bool" where
  "safe r Q \<longleftrightarrow> r \<noteq> Inl Use_after_free \<and> ok r Q"

lemma safe_simps [simp]:
  "safe (Inl e) Q \<longleftrightarrow> e \<noteq> Use_after_free"
  "safe (Inr a) Q \<longleftrightarrow> Q a"
  by (simp_all add: safe_def)

lemma safe_bnd: "safe x P \<Longrightarrow> (\<And>a. P a \<Longrightarrow> safe (f a) Q) \<Longrightarrow> safe (bnd x f) Q"
  by (cases x) auto

lemma safe_bndI: "x \<noteq> Inl Use_after_free \<Longrightarrow> (\<And>a. x = Inr a \<Longrightarrow> safe (f a) Q) \<Longrightarrow> safe (bnd x f) Q"
  by (cases x) auto

lemma safe_mono: "safe r P \<Longrightarrow> (\<And>a. P a \<Longrightarrow> Q a) \<Longrightarrow> safe r Q"
  by (cases r) auto

lemma safe_if: "(b \<Longrightarrow> safe x Q) \<Longrightarrow> (\<not> b \<Longrightarrow> safe y Q) \<Longrightarrow> safe (if b then x else y) Q"
  by simp

lemma safe_ok: "safe r Q \<Longrightarrow> ok r Q"
  by (simp add: safe_def)

lemma safeI: "r \<noteq> Inl Use_after_free \<Longrightarrow> (\<And>a. r = Inr a \<Longrightarrow> Q a) \<Longrightarrow> safe r Q"
  by (cases r) auto

section \<open>Bytes and strings\<close>

type_synonym byte = "8 word"
type_synonym bytes = "byte list"

text \<open>The bytes of a source literal.\<close>

definition bytes_of :: "string \<Rightarrow> bytes" where
  "bytes_of s = map of_char s"

lemma bytes_of_simps [simp]:
  "bytes_of [] = []"
  "bytes_of (c # s) = of_char c # bytes_of s"
  "bytes_of (s @ t) = bytes_of s @ bytes_of t"
  by (simp_all add: bytes_of_def)

lemma length_bytes_of [simp]: "length (bytes_of s) = length s"
  by (simp add: bytes_of_def)

text \<open>
  \<^verbatim>\<open>std::string::data()\<close> points to the string's bytes and a terminating zero: indices up to and
  including \<^verbatim>\<open>size()\<close> can be read, only those below it can be written.
\<close>

definition rd :: "bytes \<Rightarrow> nat \<Rightarrow> byte res" where
  "rd d i = (if i < length d then Inr (d ! i) else if i = length d then Inr 0 else Inl Out_of_bounds)"

definition rd_range :: "bytes \<Rightarrow> nat \<Rightarrow> nat \<Rightarrow> bytes res" where
  "rd_range d p n =
     (if n = 0 \<or> p + n \<le> length d + 1 then Inr (take n (drop p (d @ [0]))) else Inl Out_of_bounds)"

definition wr :: "bytes \<Rightarrow> nat \<Rightarrow> byte \<Rightarrow> bytes res" where
  "wr d i b = (if i < length d then Inr (d[i := b]) else Inl Out_of_bounds)"

lemma rd_in [simp]: "i < length d \<Longrightarrow> rd d i = Inr (d ! i)"
  by (simp add: rd_def)

lemma rd_end [simp]: "rd d (length d) = Inr 0"
  by (simp add: rd_def)

lemma rd_out: "length d < i \<Longrightarrow> rd d i = Inl Out_of_bounds"
  by (simp add: rd_def)

lemma rd_Inr_le: "rd d i = Inr b \<Longrightarrow> i \<le> length d"
  by (simp add: rd_def split: if_splits)

lemma rd_not_freed [simp]: "rd d i \<noteq> Inl Use_after_free"
  by (simp add: rd_def)

lemma rd_append [simp]: "rd (xs @ y # ys) (length xs) = Inr y"
  by (simp add: rd_def)

lemma rd_append_shift: "rd (xs @ ys) (length xs + i) = rd ys i"
  by (simp add: rd_def nth_append)

lemma wr_Inr_length: "wr d i b = Inr d' \<Longrightarrow> length d' = length d"
  by (auto simp: wr_def split: if_splits)

lemma rd_range_in: "p + n \<le> length d \<Longrightarrow> rd_range d p n = Inr (take n (drop p d))"
  by (simp add: rd_range_def)

lemma rd_range_mid: "rd_range (xs @ ys @ zs) (length xs) (length ys) = Inr ys"
  by (simp add: rd_range_def)

text \<open>A C string in memory: the bytes before the first zero; \<^verbatim>\<open>std::string(const char*)\<close> reads them.\<close>

fun c_str :: "bytes \<Rightarrow> bytes res" where
  "c_str [] = Inl Out_of_bounds"
| "c_str (b # bs) = (if b = 0 then Inr [] else bnd (c_str bs) (\<lambda>r. Inr (b # r)))"

lemma c_str_zero: "0 \<notin> set xs \<Longrightarrow> c_str (xs @ 0 # ys) = Inr xs"
  by (induction xs) auto

section \<open>Byte order\<close>

text \<open>\<^verbatim>\<open>htobe16\<close> and \<^verbatim>\<open>htobe64\<close> followed by a store: the bytes in memory order.\<close>

definition be16 :: "16 word \<Rightarrow> bytes" where
  "be16 w = [ucast (drop_bit 8 w), ucast w]"

definition be64 :: "64 word \<Rightarrow> bytes" where
  "be64 w = map (\<lambda>i. ucast (drop_bit (8 * i) w)) [7, 6, 5, 4, 3, 2, 1, 0]"

lemma length_be16 [simp]: "length (be16 w) = 2"
  by (simp add: be16_def)

lemma length_be64 [simp]: "length (be64 w) = 8"
  by (simp add: be64_def)

text \<open>A 32-bit load and store on a little endian machine.\<close>

definition load32 :: "byte \<Rightarrow> byte \<Rightarrow> byte \<Rightarrow> byte \<Rightarrow> 32 word" where
  "load32 b0 b1 b2 b3 =
     ucast b0 OR push_bit 8 (ucast b1) OR push_bit 16 (ucast b2) OR push_bit 24 (ucast b3)"

definition store32 :: "32 word \<Rightarrow> bytes" where
  "store32 w = [ucast w, ucast (drop_bit 8 w), ucast (drop_bit 16 w), ucast (drop_bit 24 w)]"

lemma length_store32 [simp]: "length (store32 w) = 4"
  by (simp add: store32_def)

lemma bit_byte_high: "8 \<le> n \<Longrightarrow> \<not> bit (b :: byte) n"
  by (auto dest: bit_imp_le_length)

text \<open>Combining two loaded words by exclusive or works byte by byte.\<close>

lemma store32_xor_load32:
  "store32 (load32 a0 a1 a2 a3 XOR load32 b0 b1 b2 b3)
   = [a0 XOR b0, a1 XOR b1, a2 XOR b2, a3 XOR b3]"
  unfolding store32_def load32_def
  by (auto intro!: bit_word_eqI simp: bit_simps bit_byte_high)

lemma drop_bit_of_nat_byte: "n < 256 \<Longrightarrow> drop_bit k (of_nat n :: byte) = of_nat (n div 2 ^ k)"
proof -
  assume n: "n < 256"
  then have "n div 2 ^ k < 256" by (rule le_less_trans [OF div_le_dividend])
  with n have "unat (of_nat (n div 2 ^ k) :: byte) = n div 2 ^ k"
    by (simp add: unat_of_nat)
  moreover have "unat (drop_bit k (of_nat n :: byte)) = drop_bit k n"
    using n by (simp only: unat_drop_bit_eq) (simp add: unat_of_nat)
  ultimately show ?thesis
    by (simp add: word_unat_eq_iff flip: drop_bit_eq_div)
qed

section \<open>Lists updated by position\<close>

lemma list_update_mid [simp]: "(xs @ y # ys)[length xs := z] = xs @ z # ys"
  by (induction xs) auto

lemma nth_mid [simp]: "(xs @ y # ys) ! length xs = y"
  by (induction xs) auto

end
