(* ===== verification/Spin_Lock.thy ===== *)
theory Spin_Lock
  imports Ws_Prelude
begin

text \<open>
  \<^verbatim>\<open>websocket_decoder/private/spin_lock.h\<close>: a lock over one atomic flag. The operations are
  functions of the flag; \<^verbatim>\<open>lock\<close> is a loop that may not end, so its value is an option. The
  threads that use it are a step relation in which one \<^verbatim>\<open>test_and_set\<close> or one \<^verbatim>\<open>clear\<close> is one
  atomic step.
\<close>

section \<open>The operations on the flag\<close>

text \<open>\<^verbatim>\<open>std::atomic_flag::test_and_set\<close>: the old value, and the flag set.\<close>

definition test_and_set :: "bool \<Rightarrow> bool \<times> bool" where
  "test_and_set flag = (flag, True)"

definition try_lock :: "bool \<Rightarrow> bool \<times> bool" where
  "try_lock flag = (let (old, flag') = test_and_set flag in (\<not> old, flag'))"

definition unlock :: "bool \<Rightarrow> bool" where
  "unlock flag = False"

partial_function (option) lock :: "bool \<Rightarrow> bool option" where
  "lock flag = (let (old, flag') = test_and_set flag in if old then lock flag' else Some flag')"

lemma lock_free [simp]: "lock False = Some True"
  by (simp add: lock.simps test_and_set_def)

text \<open>On a flag that stays set the loop never ends.\<close>

lemma lock_held_diverges: "lock flag = Some r \<Longrightarrow> \<not> flag"
proof -
  assume ret: "lock flag = Some r"
  show ?thesis
  proof (rule lock.raw_induct [where P = "\<lambda>flag r. \<not> flag", OF _ ret])
    fix f flag r
    assume IH: "\<And>flag r. f flag = Some r \<Longrightarrow> \<not> flag"
      and eq: "(let (old, flag') = test_and_set flag in if old then f flag' else Some flag') = Some r"
    show "\<not> flag"
    proof
      assume "flag"
      with eq have "f True = Some r" by (simp add: test_and_set_def)
      then show False using IH by blast
    qed
  qed
qed

lemma lock_held [simp]: "lock True = None"
  using lock_held_diverges by (cases "lock True") auto

lemma try_lock_free [simp]: "try_lock False = (True, True)" "try_lock True = (False, True)"
  by (simp_all add: try_lock_def test_and_set_def)

lemma unlock_simp [simp]: "unlock flag = False"
  by (simp add: unlock_def)

section \<open>Threads around one lock\<close>

datatype thread_pc = Outside | Spinning | Inside

record lock_system =
  lock_bit :: bool
  pcs :: "nat \<Rightarrow> thread_pc"

definition lock_init :: lock_system where
  "lock_init = \<lparr>lock_bit = False, pcs = (\<lambda>_. Outside)\<rparr>"

text \<open>
  A thread calls \<^verbatim>\<open>lock\<close>, spins over \<^verbatim>\<open>test_and_set\<close> until the old value is clear, or calls
  \<^verbatim>\<open>try_lock\<close>, which gives up at once; it leaves by \<^verbatim>\<open>unlock\<close>.
\<close>

inductive lock_step :: "lock_system \<Rightarrow> lock_system \<Rightarrow> bool" where
  call: "pcs s i = Outside \<Longrightarrow> lock_step s (s\<lparr>pcs := (pcs s)(i := Spinning)\<rparr>)"
| spin: "pcs s i = Spinning \<Longrightarrow> test_and_set (lock_bit s) = (old, f) \<Longrightarrow>
     lock_step s (s\<lparr>lock_bit := f, pcs := (pcs s)(i := if old then Spinning else Inside)\<rparr>)"
| attempt: "pcs s i = Outside \<Longrightarrow> try_lock (lock_bit s) = (got, f) \<Longrightarrow>
     lock_step s (s\<lparr>lock_bit := f, pcs := (pcs s)(i := if got then Inside else Outside)\<rparr>)"
| leave: "pcs s i = Inside \<Longrightarrow>
     lock_step s (s\<lparr>lock_bit := unlock (lock_bit s), pcs := (pcs s)(i := Outside)\<rparr>)"

inductive_cases lock_stepE: "lock_step s t"

inductive lock_reachable :: "lock_system \<Rightarrow> bool" where
  start: "lock_reachable lock_init"
| step: "lock_reachable s \<Longrightarrow> lock_step s t \<Longrightarrow> lock_reachable t"

text \<open>
  The flag and the threads agree: there is a thread, and it alone is inside, and only while the
  flag is set.
\<close>

definition lock_agrees :: "lock_system \<Rightarrow> bool" where
  "lock_agrees s \<longleftrightarrow> (\<exists>h. \<forall>i. pcs s i = Inside \<longleftrightarrow> lock_bit s \<and> i = h)"

lemma lock_step_agrees: "lock_step s t \<Longrightarrow> lock_agrees s \<Longrightarrow> lock_agrees t"
proof (induction rule: lock_step.induct)
  case (call s i)
  then obtain h where "\<forall>j. pcs s j = Inside \<longleftrightarrow> lock_bit s \<and> j = h" by (auto simp: lock_agrees_def)
  moreover from call.hyps have "pcs s i \<noteq> Inside" by simp
  ultimately show ?case unfolding lock_agrees_def by (intro exI [of _ h]) auto
next
  case (spin s i old f)
  then obtain h where "\<forall>j. pcs s j = Inside \<longleftrightarrow> lock_bit s \<and> j = h" by (auto simp: lock_agrees_def)
  moreover from spin.hyps have "pcs s i \<noteq> Inside" by simp
  ultimately show ?case
    using spin.hyps(2) unfolding lock_agrees_def by (intro exI [of _ "if lock_bit s then h else i"]) (auto simp: test_and_set_def)
next
  case (attempt s i got f)
  then obtain h where "\<forall>j. pcs s j = Inside \<longleftrightarrow> lock_bit s \<and> j = h" by (auto simp: lock_agrees_def)
  moreover from attempt.hyps have "pcs s i \<noteq> Inside" by simp
  ultimately show ?case
    using attempt.hyps(2) unfolding lock_agrees_def
    by (intro exI [of _ "if lock_bit s then h else i"]) (auto simp: try_lock_def test_and_set_def)
next
  case (leave s i)
  then obtain h where "\<forall>j. pcs s j = Inside \<longleftrightarrow> lock_bit s \<and> j = h" by (auto simp: lock_agrees_def)
  with leave.hyps show ?case unfolding lock_agrees_def by (intro exI [of _ h]) auto
qed

lemma lock_reachable_agrees: "lock_reachable s \<Longrightarrow> lock_agrees s"
proof (induction rule: lock_reachable.induct)
  case start
  show ?case by (simp add: lock_agrees_def lock_init_def)
next
  case (step s t)
  then show ?case by (blast intro: lock_step_agrees)
qed

text \<open>
  C24: Mutual exclusion: whatever the threads do, at most one is between a \<^verbatim>\<open>lock\<close> or a successful
  \<^verbatim>\<open>try_lock\<close> and its \<^verbatim>\<open>unlock\<close>.
\<close>

theorem spin_lock_mutual_exclusion:
  assumes "lock_reachable s" and "pcs s i = Inside" and "pcs s j = Inside"
  shows "i = j"
  using lock_reachable_agrees [OF assms(1)] assms(2,3) unfolding lock_agrees_def by auto

lemma lock_reachable_example: "lock_reachable \<lparr>lock_bit = True, pcs = (\<lambda>_. Outside)(3 := Inside)\<rparr>"
proof -
  have "lock_reachable (lock_init\<lparr>lock_bit := True, pcs := (pcs lock_init)(3 := if True then Inside else Outside)\<rparr>)"
    by (rule lock_reachable.step [OF lock_reachable.start]) (rule lock_step.attempt; simp add: lock_init_def)
  then show ?thesis by (simp add: lock_init_def)
qed

theorem spin_lock_mutual_exclusion_witness:
  "{j. pcs \<lparr>lock_bit = True, pcs = (\<lambda>_. Outside)(3 := Inside)\<rparr> j = Inside} \<subseteq> {3}"
proof
  fix j
  assume "j \<in> {j. pcs \<lparr>lock_bit = True, pcs = (\<lambda>_. Outside)(3 := Inside)\<rparr> j = Inside}"
  then have "j = 3" by (intro spin_lock_mutual_exclusion [OF lock_reachable_example]) simp_all
  then show "j \<in> {3}" by simp
qed

end
