(* ===== verification/Time_Wheel.thy ===== *)
theory Time_Wheel
  imports Spin_Lock
begin

text \<open>
  \<^verbatim>\<open>websocket_decoder/private/time_wheel.h\<close>: the hierarchical timer. Its static members are the
  record \<open>wheel\<close>; the server's state extends it, so that a task callback, a parameter \<open>run\<close>
  here, can work on the whole process. The clock is the argument \<open>now\<close>. Times are
  \<^verbatim>\<open>long long\<close> milliseconds, modelled as \<open>int\<close>; the conversion to \<^verbatim>\<open>size_t\<close> in \<^verbatim>\<open>add_node\<close> is
  written out. A \<^verbatim>\<open>Time_list::iterator\<close> kept in \<^verbatim>\<open>id_map_\<close> is the slot whose list holds the node,
  in which the node is found by its id.
\<close>

section \<open>State\<close>

text \<open>\<open>OFFSET\<close> and \<open>INDEX\<close> with their shifts.\<close>

definition FULL_CIRCLE :: "32 word" where "FULL_CIRCLE = 0xFFFFFFFF"

definition OFFSET :: "nat \<Rightarrow> nat" where "OFFSET n = 256 + n * 64"

definition INDEX :: "int \<Rightarrow> nat \<Rightarrow> nat" where
  "INDEX v n = nat (drop_bit (8 + n * 6) v AND 63)"

record 'f time_node =
  task_fn :: 'f
  expire :: int
  interval :: int
  circle_count :: "32 word"
  slot :: nat
  node_id :: "64 word"

record 'f wheel =
  tv :: "'f time_node list list"
  id_map :: "64 word \<rightharpoonup> nat"
  current :: int
  scale :: int
  init :: bool
  running :: bool
  locked :: bool
  next_id :: "64 word"

text \<open>The static initialisers.\<close>

definition wheel_init :: "'f wheel" where
  "wheel_init = \<lparr>tv = replicate 512 [], id_map = Map.empty, current = 0, scale = 0,
     init = False, running = False, locked = False, next_id = 1\<rparr>"

definition acquire :: "('f, 'z) wheel_scheme \<Rightarrow> ('f, 'z) wheel_scheme res" where
  "acquire s = (case lock (locked s) of None \<Rightarrow> Inl Spin_forever | Some b \<Rightarrow> Inr (s\<lparr>locked := b\<rparr>))"

definition release :: "('f, 'z) wheel_scheme \<Rightarrow> ('f, 'z) wheel_scheme" where
  "release s = s\<lparr>locked := unlock (locked s)\<rparr>"

text \<open>The constructor's \<^verbatim>\<open>get_id\<close>: a running number that skips 0 when it wraps.\<close>

definition get_id :: "('f, 'z) wheel_scheme \<Rightarrow> 64 word \<times> ('f, 'z) wheel_scheme" where
  "get_id s = (let i = (if next_id s = 0 then 1 else next_id s) in (i, s\<lparr>next_id := i + 1\<rparr>))"

section \<open>Adding and erasing tasks\<close>

text \<open>The slot a node goes to, and its expiry, which the last branch caps.\<close>

definition slot_of :: "int \<Rightarrow> int \<Rightarrow> nat \<times> int" where
  "slot_of cur e =
     (let idx = (e - cur) mod 2 ^ 64 in
      if idx < 256 then (nat (e AND 255), e)
      else if idx < 2 ^ (8 + 6) then (OFFSET 0 + INDEX e 0, e)
      else if idx < 2 ^ (8 + 2 * 6) then (OFFSET 1 + INDEX e 1, e)
      else if idx < 2 ^ (8 + 3 * 6) then (OFFSET 2 + INDEX e 2, e)
      else if 2 ^ 63 \<le> idx then (nat (cur AND 255), e)
      else let e' = (if 2 ^ 32 - 1 < idx then 2 ^ 32 - 1 + cur else e)
           in (OFFSET 3 + INDEX e' 3, e'))"

definition add_node :: "'f time_node \<Rightarrow> ('f, 'z) wheel_scheme \<Rightarrow> ('f, 'z) wheel_scheme res" where
  "add_node node s =
     (let (idx, e) = slot_of (current s) (expire node);
          node' = node\<lparr>expire := e, slot := idx\<rparr>
      in bnd (acquire s) (\<lambda>s1. Inr (release
           (s1\<lparr>tv := (tv s1)[idx := tv s1 ! idx @ [node']],
               id_map := (id_map s1)(node_id node' \<mapsto> idx)\<rparr>))))"

definition add_task ::
    "int \<Rightarrow> 'f \<Rightarrow> int \<Rightarrow> 32 word \<Rightarrow> bool \<Rightarrow> int \<Rightarrow> ('f, 'z) wheel_scheme
     \<Rightarrow> (64 word \<times> ('f, 'z) wheel_scheme) res" where
  "add_task now f expiry count immediate delay s =
     (let (i, s1) = get_id s;
          node = \<lparr>task_fn = f, expire = now + (if immediate then delay else expiry + delay),
                  interval = expiry, circle_count = count, slot = 0, node_id = i\<rparr>
      in bnd (add_node node s1) (\<lambda>s2. Inr (i, s2)))"

fun remove_node :: "64 word \<Rightarrow> 'f time_node list \<Rightarrow> 'f time_node list" where
  "remove_node i [] = []"
| "remove_node i (v # vs) = (if node_id v = i then vs else v # remove_node i vs)"

text \<open>
  \<^verbatim>\<open>erase_task\<close> takes a \<^verbatim>\<open>uint32_t\<close> and looks it up in a map over \<^verbatim>\<open>size_t\<close>. The branch for an
  unknown id returns before \<^verbatim>\<open>unlock\<close>.
\<close>

definition erase_task :: "32 word \<Rightarrow> ('f, 'z) wheel_scheme \<Rightarrow> (bool \<times> ('f, 'z) wheel_scheme) res" where
  "erase_task i s =
     bnd (acquire s) (\<lambda>s1. case id_map s1 (ucast i) of
         None \<Rightarrow> Inr (False, s1)
       | Some ix \<Rightarrow>
           if ucast i \<in> node_id ` set (tv s1 ! ix) then
             Inr (True, release
               (s1\<lparr>tv := (tv s1)[ix := remove_node (ucast i) (tv s1 ! ix)],
                   id_map := (id_map s1)(ucast i := None)\<rparr>))
           else Inl Bad_iterator)"

section \<open>Advancing the wheel\<close>

fun add_nodes :: "'f time_node list \<Rightarrow> ('f, 'z) wheel_scheme \<Rightarrow> ('f, 'z) wheel_scheme res" where
  "add_nodes [] s = Inr s"
| "add_nodes (v # vs) s = bnd (add_node v s) (add_nodes vs)"

text \<open>\<^verbatim>\<open>cascade(OFFSET(n), INDEX(current_.count(), n))\<close>; the returned \<^verbatim>\<open>int\<close> is only tested.\<close>

definition cascade :: "nat \<Rightarrow> ('f, 'z) wheel_scheme \<Rightarrow> (bool \<times> ('f, 'z) wheel_scheme) res" where
  "cascade n s =
     (let idx = INDEX (current s) n;
          temp = tv s ! (OFFSET n + idx)
      in bnd (add_nodes temp (s\<lparr>tv := (tv s)[OFFSET n + idx := []]\<rparr>)) (\<lambda>s1. Inr (idx \<noteq> 0, s1)))"

text \<open>The condition of the \<^verbatim>\<open>if\<close> in \<^verbatim>\<open>check\<close>, evaluated from left to right, and its body.\<close>

definition cascades :: "('f, 'z) wheel_scheme \<Rightarrow> ('f, 'z) wheel_scheme res" where
  "cascades s =
     (if current s AND 255 \<noteq> 0 then Inr s
      else bnd (cascade 0 s) (\<lambda>(stop0, s0). if stop0 then Inr s0
      else bnd (cascade 1 s0) (\<lambda>(stop1, s1). if stop1 then Inr s1
      else bnd (cascade 2 s1) (\<lambda>(stop2, s2). if stop2 then Inr s2
      else bnd (cascade 3 s2) (\<lambda>(stop3, s3). Inr s3)))))"

text \<open>One turn of the \<^verbatim>\<open>for\<close> over the due tasks: rearm or forget, then call the task.\<close>

definition run_node ::
    "('f \<Rightarrow> bool \<Rightarrow> 64 word \<Rightarrow> ('f, 'z) wheel_scheme \<Rightarrow> ('f, 'z) wheel_scheme res) \<Rightarrow> int
     \<Rightarrow> 'f time_node \<Rightarrow> ('f, 'z) wheel_scheme \<Rightarrow> ('f, 'z) wheel_scheme res" where
  "run_node run now v s =
     (let v1 = (if circle_count v = FULL_CIRCLE then v else v\<lparr>circle_count := circle_count v - 1\<rparr>) in
      if circle_count v = FULL_CIRCLE \<or> circle_count v1 \<noteq> 0
      then bnd (add_node (v1\<lparr>expire := now + interval v1\<rparr>) s) (run (task_fn v1) False (node_id v1))
      else run (task_fn v1) True (node_id v1) (s\<lparr>id_map := (id_map s)(node_id v1 := None)\<rparr>))"

fun run_nodes ::
    "('f \<Rightarrow> bool \<Rightarrow> 64 word \<Rightarrow> ('f, 'z) wheel_scheme \<Rightarrow> ('f, 'z) wheel_scheme res) \<Rightarrow> int
     \<Rightarrow> 'f time_node list \<Rightarrow> ('f, 'z) wheel_scheme \<Rightarrow> ('f, 'z) wheel_scheme res" where
  "run_nodes run now [] s = Inr s"
| "run_nodes run now (v # vs) s = bnd (run_node run now v s) (run_nodes run now vs)"

text \<open>The first half of a turn of \<^verbatim>\<open>check\<close>: cascade, count up, and move the due list out.\<close>

definition take_due :: "('f, 'z) wheel_scheme \<Rightarrow> ('f time_node list \<times> ('f, 'z) wheel_scheme) res" where
  "take_due s =
     (let idx = nat (current s AND 255) in
      bnd (cascades s) (\<lambda>s1.
      bnd (acquire (s1\<lparr>current := current s1 + 1\<rparr>)) (\<lambda>s2.
      Inr (tv s2 ! idx, release (s2\<lparr>tv := (tv s2)[idx := []]\<rparr>)))))"

definition tick ::
    "('f \<Rightarrow> bool \<Rightarrow> 64 word \<Rightarrow> ('f, 'z) wheel_scheme \<Rightarrow> ('f, 'z) wheel_scheme res) \<Rightarrow> int
     \<Rightarrow> ('f, 'z) wheel_scheme \<Rightarrow> ('f, 'z) wheel_scheme res" where
  "tick run now s = bnd (take_due s) (\<lambda>(temp, s1). run_nodes run now temp s1)"

text \<open>
  The \<^verbatim>\<open>while\<close> of \<^verbatim>\<open>check\<close>. The bound on its turns is \<open>now + 1 - current\<close>, which is what it takes
  when the tasks leave \<^verbatim>\<open>current_\<close> alone; with less the value is \<open>Script_end\<close>.
\<close>

fun check_loop ::
    "nat \<Rightarrow> ('f \<Rightarrow> bool \<Rightarrow> 64 word \<Rightarrow> ('f, 'z) wheel_scheme \<Rightarrow> ('f, 'z) wheel_scheme res) \<Rightarrow> int
     \<Rightarrow> ('f, 'z) wheel_scheme \<Rightarrow> ('f, 'z) wheel_scheme res" where
  "check_loop 0 run now s = (if current s \<le> now then Inl Script_end else Inr s)"
| "check_loop (Suc k) run now s =
     (if current s \<le> now then bnd (tick run now s) (check_loop k run now) else Inr s)"

definition check ::
    "('f \<Rightarrow> bool \<Rightarrow> 64 word \<Rightarrow> ('f, 'z) wheel_scheme \<Rightarrow> ('f, 'z) wheel_scheme res) \<Rightarrow> int
     \<Rightarrow> ('f, 'z) wheel_scheme \<Rightarrow> ('f, 'z) wheel_scheme res" where
  "check run now s = check_loop (nat (now + 1 - current s)) run now s"

section \<open>Starting and stopping\<close>

text \<open>\<^verbatim>\<open>init_time_wheel\<close> with its double check; the thread it starts runs \<^verbatim>\<open>run_time_wheel\<close>.\<close>

definition init_time_wheel :: "int \<Rightarrow> int \<Rightarrow> ('f, 'z) wheel_scheme \<Rightarrow> ('f, 'z) wheel_scheme res" where
  "init_time_wheel now tick_len s =
     (if init s then Inr s
      else bnd (acquire s) (\<lambda>s1. Inr (release
        (if init s1 then s1
         else s1\<lparr>init := True, scale := tick_len, running := True, current := now\<rparr>))))"

definition stop_time_wheel :: "('f, 'z) wheel_scheme \<Rightarrow> ('f, 'z) wheel_scheme" where
  "stop_time_wheel s =
     (let (got, b) = try_lock (locked s); s1 = s\<lparr>locked := b\<rparr> in
      if got then release (s1\<lparr>running := False, init := False, id_map := Map.empty,
                              tv := map (\<lambda>_. []) (tv s1)\<rparr>)
      else s1)"

text \<open>The thread: \<^verbatim>\<open>current_\<close> is set once, then one \<^verbatim>\<open>check\<close> for every wake-up, at the clock's times.\<close>

fun run_checks ::
    "('f \<Rightarrow> bool \<Rightarrow> 64 word \<Rightarrow> ('f, 'z) wheel_scheme \<Rightarrow> ('f, 'z) wheel_scheme res) \<Rightarrow> int list
     \<Rightarrow> ('f, 'z) wheel_scheme \<Rightarrow> ('f, 'z) wheel_scheme res" where
  "run_checks run [] s = Inr s"
| "run_checks run (t # ts) s = bnd (check run t s) (run_checks run ts)"

definition run_time_wheel ::
    "('f \<Rightarrow> bool \<Rightarrow> 64 word \<Rightarrow> ('f, 'z) wheel_scheme \<Rightarrow> ('f, 'z) wheel_scheme res) \<Rightarrow> int \<Rightarrow> int list
     \<Rightarrow> ('f, 'z) wheel_scheme \<Rightarrow> ('f, 'z) wheel_scheme res" where
  "run_time_wheel run now ts s = run_checks run ts (s\<lparr>current := now\<rparr>)"

end
