(* ===== verification/Tcp_Server.thy ===== *)
theory Tcp_Server
  imports Time_Wheel
begin

text \<open>
  \<^verbatim>\<open>websocket_decoder/tcp_client.{h,cpp}\<close> and \<^verbatim>\<open>tcp_server.{h,cpp}\<close>: the client objects, the server
  around one epoll instance, and its event loop. Client objects live on a heap, a map from addresses
  to records; \<^verbatim>\<open>clients_\<close> maps descriptors to addresses. A read through a pointer whose object is
  gone, or through an iterator whose map entry is gone, is \<open>Use_after_free\<close>. The kernel is the set
  of open descriptors, the interest list of the epoll instance and the bytes accepted for sending;
  what its calls return is an argument (\<open>event\<close>, \<open>recv_result\<close>, \<open>send_result\<close>).
\<close>

section \<open>The client object\<close>

type_synonym addr = nat

record tcp_client =
  send_buffer_queue :: "bytes list"
  recv_buffer :: bytes
  ip :: bytes
  port :: int
  sockfd :: int
  client_id :: bytes

text \<open>\<^verbatim>\<open>fmt::format("{:02x}", b)\<close> and the layout of the id.\<close>

definition hex_digit :: "nat \<Rightarrow> byte" where
  "hex_digit n = (if n < 10 then of_nat (n + 48) else of_nat (n + 87))"

definition hex2 :: "byte \<Rightarrow> bytes" where
  "hex2 b = [hex_digit (unat b div 16), hex_digit (unat b mod 16)]"

definition uuid :: "bytes \<Rightarrow> bytes" where
  "uuid buf =
     concat (map hex2 (take 4 buf)) @ bytes_of ''-''
     @ concat (map hex2 (take 2 (drop 4 buf))) @ bytes_of ''-''
     @ concat (map hex2 (take 2 (drop 6 buf))) @ bytes_of ''-''
     @ concat (map hex2 (take 2 (drop 8 buf))) @ bytes_of ''-''
     @ concat (map hex2 (take 6 (drop 10 buf)))"

text \<open>The constructor, on the 16 bytes that \<^verbatim>\<open>RAND_bytes\<close> has left in \<^verbatim>\<open>buf\<close>.\<close>

definition new_tcp_client :: "bytes \<Rightarrow> tcp_client" where
  "new_tcp_client buf = \<lparr>send_buffer_queue = [], recv_buffer = [], ip = [], port = 0, sockfd = 0,
     client_id = uuid buf\<rparr>"

definition get_ip :: "'x tcp_client_scheme \<Rightarrow> bytes" where "get_ip c = ip c"
definition get_port :: "'x tcp_client_scheme \<Rightarrow> int" where "get_port c = port c"
definition get_id_str :: "'x tcp_client_scheme \<Rightarrow> bytes" where "get_id_str c = client_id c"
definition tcp_get_message :: "'x tcp_client_scheme \<Rightarrow> bytes" where "tcp_get_message c = recv_buffer c"

section \<open>The process\<close>

text \<open>
  The timer is a set of static members, so its record is the base of the process. \<open>'c\<close> is the type
  of client objects, \<open>'k\<close> that of the closures stored as callbacks.
\<close>

record ('f, 'c, 'k) process = "'f wheel" +
  heap :: "addr \<rightharpoonup> 'c"
  next_addr :: addr
  open_fds :: "int set"
  interest :: "int \<rightharpoonup> 32 word"
  wire :: "int \<Rightarrow> bytes"
  listen_fd :: int
  server_port :: int
  server_addr :: bytes
  epoll_fd :: int
  stop :: bool
  connected_f :: "'k option"
  recv_f :: "'k option"
  disconnect_f :: "'k option"
  sent_f :: "'k option"
  clients :: "int \<rightharpoonup> addr"

text \<open>
  What the class leaves to others: how a stored closure runs and the virtual destructor of the
  client class (\<open>objects\<close>), and the virtual \<^verbatim>\<open>decode_proto_data\<close> and \<^verbatim>\<open>allocate_client\<close>.
\<close>

record ('k, 's) objects =
  call :: "'k \<Rightarrow> addr \<Rightarrow> 's \<Rightarrow> 's res"
  destructor :: "addr \<Rightarrow> 's \<Rightarrow> 's res"

record ('c, 'k, 's) hooks = "('k, 's) objects" +
  decode_proto_data :: "addr \<Rightarrow> bytes \<Rightarrow> 's \<Rightarrow> (bool \<times> 's) res"
  allocate_client :: "bytes \<Rightarrow> 'c"

definition deref :: "addr \<Rightarrow> ('f, 'c, 'k, 'z) process_scheme \<Rightarrow> 'c res" where
  "deref a s = (case heap s a of None \<Rightarrow> Inl Use_after_free | Some c \<Rightarrow> Inr c)"

definition modify :: "addr \<Rightarrow> ('c \<Rightarrow> 'c) \<Rightarrow> ('f, 'c, 'k, 'z) process_scheme \<Rightarrow> ('f, 'c, 'k, 'z) process_scheme res" where
  "modify a g s = bnd (deref a s) (\<lambda>c. Inr (s\<lparr>heap := (heap s)(a \<mapsto> g c)\<rparr>))"

text \<open>\<^verbatim>\<open>it->second\<close> for an iterator obtained from \<^verbatim>\<open>clients_.find(fd)\<close>, which an erase invalidates.\<close>

definition it_second :: "int \<Rightarrow> ('f, 'c, 'k, 'z) process_scheme \<Rightarrow> addr res" where
  "it_second fd s = (case clients s fd of None \<Rightarrow> Inl Use_after_free | Some a \<Rightarrow> Inr a)"

text \<open>\<^verbatim>\<open>if (f) f(client);\<close>\<close>

definition call_opt ::
    "('k, ('f, 'c, 'k, 'z) process_scheme, 'e) objects_scheme \<Rightarrow> 'k option \<Rightarrow> addr
     \<Rightarrow> ('f, 'c, 'k, 'z) process_scheme \<Rightarrow> ('f, 'c, 'k, 'z) process_scheme res" where
  "call_opt h f a s = (case f of None \<Rightarrow> Inr s | Some k \<Rightarrow> call h k a s)"

section \<open>The kernel's side\<close>

definition EPOLLIN :: "32 word" where "EPOLLIN = 0x001"
definition EPOLLOUT :: "32 word" where "EPOLLOUT = 0x004"
definition EPOLLERR :: "32 word" where "EPOLLERR = 0x008"
definition EPOLLHUP :: "32 word" where "EPOLLHUP = 0x010"
definition EPOLLRDHUP :: "32 word" where "EPOLLRDHUP = 0x2000"
definition EPOLLET :: "32 word" where "EPOLLET = 0x80000000"

lemmas epoll_defs = EPOLLIN_def EPOLLOUT_def EPOLLERR_def EPOLLHUP_def EPOLLRDHUP_def EPOLLET_def

text \<open>\<^verbatim>\<open>epoll_ctl\<close>, whose errors (\<^verbatim>\<open>EBADF\<close>, \<^verbatim>\<open>EEXIST\<close>, \<^verbatim>\<open>ENOENT\<close>) the code ignores; \<^verbatim>\<open>close\<close> drops the interest.\<close>

definition ctl_add :: "int \<Rightarrow> 32 word \<Rightarrow> ('f, 'c, 'k, 'z) process_scheme \<Rightarrow> ('f, 'c, 'k, 'z) process_scheme" where
  "ctl_add fd ev s =
     (if fd \<in> open_fds s \<and> interest s fd = None then s\<lparr>interest := (interest s)(fd \<mapsto> ev)\<rparr> else s)"

definition ctl_mod :: "int \<Rightarrow> 32 word \<Rightarrow> ('f, 'c, 'k, 'z) process_scheme \<Rightarrow> ('f, 'c, 'k, 'z) process_scheme" where
  "ctl_mod fd ev s =
     (if fd \<in> open_fds s \<and> interest s fd \<noteq> None then s\<lparr>interest := (interest s)(fd \<mapsto> ev)\<rparr> else s)"

definition ctl_del :: "int \<Rightarrow> ('f, 'c, 'k, 'z) process_scheme \<Rightarrow> ('f, 'c, 'k, 'z) process_scheme" where
  "ctl_del fd s = (if fd \<in> open_fds s then s\<lparr>interest := (interest s)(fd := None)\<rparr> else s)"

definition sys_close :: "int \<Rightarrow> ('f, 'c, 'k, 'z) process_scheme \<Rightarrow> ('f, 'c, 'k, 'z) process_scheme" where
  "sys_close fd s = s\<lparr>open_fds := open_fds s - {fd}, interest := (interest s)(fd := None)\<rparr>"

text \<open>Bytes the kernel accepts for sending on a descriptor.\<close>

definition take_bytes :: "int \<Rightarrow> bytes \<Rightarrow> ('f, 'c, 'k, 'z) process_scheme \<Rightarrow> ('f, 'c, 'k, 'z) process_scheme" where
  "take_bytes fd d s = s\<lparr>wire := (wire s)(fd := wire s fd @ d)\<rparr>"

text \<open>What \<^verbatim>\<open>recv\<close> and \<^verbatim>\<open>send\<close> return: \<open>Again\<close> is \<^verbatim>\<open>EAGAIN\<close> or \<^verbatim>\<open>EWOULDBLOCK\<close>, \<open>Failed\<close> any other error.\<close>

datatype recv_result = Received bytes | End_of_stream | Recv_again | Recv_failed
datatype send_result = Sent nat | Send_again | Send_failed

record sockaddr_in =
  sin_port :: "byte \<times> byte"
  sin_addr :: "byte \<times> byte \<times> byte \<times> byte"

text \<open>
  An event with what the calls made while it is handled will return: the descriptor, the peer's
  address and the random bytes of an accepted connection, and the results of \<^verbatim>\<open>recv\<close> and \<^verbatim>\<open>send\<close>.
\<close>

record event =
  ev_fd :: int
  ev_events :: "32 word"
  accepts :: "(int \<times> sockaddr_in \<times> bytes) option"
  recvs :: "recv_result list"
  sends :: "send_result list"

text \<open>\<^verbatim>\<open>inet_ntop(AF_INET, ...)\<close> and \<^verbatim>\<open>ntohs\<close>.\<close>

definition dec_byte :: "byte \<Rightarrow> bytes" where
  "dec_byte b =
     (let n = unat b in
      (if 100 \<le> n then [of_nat (n div 100 + 48)] else [])
      @ (if 10 \<le> n then [of_nat (n div 10 mod 10 + 48)] else [])
      @ [of_nat (n mod 10 + 48)])"

definition inet_ntop :: "byte \<times> byte \<times> byte \<times> byte \<Rightarrow> bytes" where
  "inet_ntop a = (case a of (b0, b1, b2, b3) \<Rightarrow>
     dec_byte b0 @ bytes_of ''.'' @ dec_byte b1 @ bytes_of ''.'' @ dec_byte b2 @ bytes_of ''.'' @ dec_byte b3)"

definition ntohs :: "byte \<times> byte \<Rightarrow> nat" where
  "ntohs p = unat (fst p) * 256 + unat (snd p)"

section \<open>Operations\<close>

definition server_send_buffer ::
    "addr \<Rightarrow> bytes \<Rightarrow> ('f, 'x tcp_client_scheme, 'k, 'z) process_scheme
     \<Rightarrow> ('f, 'x tcp_client_scheme, 'k, 'z) process_scheme res" where
  "server_send_buffer a data s =
     bnd (modify a (\<lambda>c. c\<lparr>send_buffer_queue := send_buffer_queue c @ [data]\<rparr>) s) (\<lambda>s1.
     bnd (deref a s1) (\<lambda>c.
     Inr (ctl_mod (sockfd c) (EPOLLIN OR EPOLLOUT OR EPOLLRDHUP OR EPOLLET) s1)))"

definition tcp_send ::
    "addr \<Rightarrow> bytes \<Rightarrow> ('f, 'x tcp_client_scheme, 'k, 'z) process_scheme
     \<Rightarrow> ('f, 'x tcp_client_scheme, 'k, 'z) process_scheme res" where
  "tcp_send a data s = server_send_buffer a data s"

text \<open>\<^verbatim>\<open>delete client\<close>: the destructor, then the storage is gone.\<close>

definition delete_client ::
    "('k, ('f, 'c, 'k, 'z) process_scheme, 'e) objects_scheme \<Rightarrow> addr
     \<Rightarrow> ('f, 'c, 'k, 'z) process_scheme \<Rightarrow> ('f, 'c, 'k, 'z) process_scheme res" where
  "delete_client h a s =
     bnd (deref a s) (\<lambda>_. bnd (destructor h a s) (\<lambda>s1. Inr (s1\<lparr>heap := (heap s1)(a := None)\<rparr>)))"

definition close_client ::
    "('k, ('f, 'x tcp_client_scheme, 'k, 'z) process_scheme, 'e) objects_scheme \<Rightarrow> addr
     \<Rightarrow> ('f, 'x tcp_client_scheme, 'k, 'z) process_scheme
     \<Rightarrow> ('f, 'x tcp_client_scheme, 'k, 'z) process_scheme res" where
  "close_client h a s =
     bnd (deref a s) (\<lambda>c.
     let s1 = ctl_del (sockfd c) (sys_close (sockfd c) s);
         s2 = s1\<lparr>clients := (clients s1)(sockfd c := None)\<rparr> in
     bnd (call_opt h (disconnect_f s2) a s2) (\<lambda>s3.
     delete_client h a s3))"

definition tcp_close ::
    "('k, ('f, 'x tcp_client_scheme, 'k, 'z) process_scheme, 'e) objects_scheme \<Rightarrow> addr
     \<Rightarrow> ('f, 'x tcp_client_scheme, 'k, 'z) process_scheme
     \<Rightarrow> ('f, 'x tcp_client_scheme, 'k, 'z) process_scheme res" where
  "tcp_close h a s = close_client h a s"

text \<open>\<^verbatim>\<open>decode_remote_client\<close>: a new object at a new address.\<close>

definition decode_remote_client ::
    "('x tcp_client_scheme, 'k, ('f, 'x tcp_client_scheme, 'k, 'z) process_scheme) hooks
     \<Rightarrow> sockaddr_in \<Rightarrow> bytes \<Rightarrow> int \<Rightarrow> ('f, 'x tcp_client_scheme, 'k, 'z) process_scheme
     \<Rightarrow> addr \<times> ('f, 'x tcp_client_scheme, 'k, 'z) process_scheme" where
  "decode_remote_client h peer rand fd s =
     (let a = next_addr s;
          c = (allocate_client h rand)
                \<lparr>sockfd := fd, ip := inet_ntop (sin_addr peer), port := int (ntohs (sin_port peer))\<rparr>
      in (a, s\<lparr>heap := (heap s)(a \<mapsto> c), next_addr := a + 1\<rparr>))"

text \<open>The base class's own virtual functions.\<close>

definition tcp_decode_proto_data ::
    "addr \<Rightarrow> bytes \<Rightarrow> ('f, 'x tcp_client_scheme, 'k, 'z) process_scheme
     \<Rightarrow> (bool \<times> ('f, 'x tcp_client_scheme, 'k, 'z) process_scheme) res" where
  "tcp_decode_proto_data a data s =
     bnd (modify a (\<lambda>c. c\<lparr>recv_buffer := data\<rparr>) s) (\<lambda>s1. Inr (True, s1))"

definition encode_proto_data :: "addr \<Rightarrow> bytes \<Rightarrow> bool" where
  "encode_proto_data a data = True"

definition event_loop_once :: "('f, 'c, 'k, 'z) process_scheme \<Rightarrow> ('f, 'c, 'k, 'z) process_scheme" where
  "event_loop_once s = s"

definition stop_server :: "('f, 'c, 'k, 'z) process_scheme \<Rightarrow> ('f, 'c, 'k, 'z) process_scheme" where
  "stop_server s = s\<lparr>stop := True\<rparr>"

definition register_recv_callback :: "'k option \<Rightarrow> ('f, 'c, 'k, 'z) process_scheme \<Rightarrow> ('f, 'c, 'k, 'z) process_scheme" where
  "register_recv_callback fn s = s\<lparr>recv_f := fn\<rparr>"

definition register_connected_callback :: "'k option \<Rightarrow> ('f, 'c, 'k, 'z) process_scheme \<Rightarrow> ('f, 'c, 'k, 'z) process_scheme" where
  "register_connected_callback fn s = s\<lparr>connected_f := fn\<rparr>"

definition register_disconnect_callback :: "'k option \<Rightarrow> ('f, 'c, 'k, 'z) process_scheme \<Rightarrow> ('f, 'c, 'k, 'z) process_scheme" where
  "register_disconnect_callback fn s = s\<lparr>disconnect_f := fn\<rparr>"

definition register_sent_callback :: "'k option \<Rightarrow> ('f, 'c, 'k, 'z) process_scheme \<Rightarrow> ('f, 'c, 'k, 'z) process_scheme" where
  "register_sent_callback fn s = s\<lparr>sent_f := fn\<rparr>"

section \<open>The event loop\<close>

text \<open>
  The \<^verbatim>\<open>while (true)\<close> around \<^verbatim>\<open>recv\<close>, with the message so far. A failure other than \<^verbatim>\<open>EAGAIN\<close> is
  printed and the call repeated.
\<close>

fun recv_loop ::
    "('x tcp_client_scheme, 'k, ('f, 'x tcp_client_scheme, 'k, 'z) process_scheme) hooks \<Rightarrow> int
     \<Rightarrow> recv_result list \<Rightarrow> bytes \<Rightarrow> ('f, 'x tcp_client_scheme, 'k, 'z) process_scheme
     \<Rightarrow> (bytes \<times> ('f, 'x tcp_client_scheme, 'k, 'z) process_scheme) res" where
  "recv_loop h fd [] m s = Inl Script_end"
| "recv_loop h fd (Recv_again # rs) m s = Inr (m, s)"
| "recv_loop h fd (Recv_failed # rs) m s = recv_loop h fd rs m s"
| "recv_loop h fd (End_of_stream # rs) m s =
     bnd (it_second fd s) (\<lambda>a. bnd (close_client h a s) (\<lambda>s1. Inr (m, s1)))"
| "recv_loop h fd (Received d # rs) m s = recv_loop h fd rs (m @ d) s"

text \<open>The branch for a readable client socket; what follows the loop is \<open>deliver\<close>.\<close>

definition deliver ::
    "('x tcp_client_scheme, 'k, ('f, 'x tcp_client_scheme, 'k, 'z) process_scheme) hooks \<Rightarrow> int \<Rightarrow> bytes
     \<Rightarrow> ('f, 'x tcp_client_scheme, 'k, 'z) process_scheme
     \<Rightarrow> ('f, 'x tcp_client_scheme, 'k, 'z) process_scheme res" where
  "deliver h fd m s =
     (if m = [] then Inr s
      else bnd (it_second fd s) (\<lambda>a.
           bnd (decode_proto_data h a m s) (\<lambda>(ready, s1).
           if \<not> ready then Inr s1
           else bnd (it_second fd s1) (\<lambda>a1.
             case recv_f s1 of None \<Rightarrow> Inl Bad_function_call | Some k \<Rightarrow> call h k a1 s1))))"

definition on_readable ::
    "('x tcp_client_scheme, 'k, ('f, 'x tcp_client_scheme, 'k, 'z) process_scheme) hooks \<Rightarrow> event
     \<Rightarrow> ('f, 'x tcp_client_scheme, 'k, 'z) process_scheme
     \<Rightarrow> ('f, 'x tcp_client_scheme, 'k, 'z) process_scheme res" where
  "on_readable h e s =
     (if clients s (ev_fd e) = None then Inr s
      else bnd (recv_loop h (ev_fd e) (recvs e) [] s) (\<lambda>(m, s1). deliver h (ev_fd e) m s1))"

text \<open>The branch for a readable listening socket.\<close>

definition on_accept ::
    "('x tcp_client_scheme, 'k, ('f, 'x tcp_client_scheme, 'k, 'z) process_scheme) hooks \<Rightarrow> event
     \<Rightarrow> ('f, 'x tcp_client_scheme, 'k, 'z) process_scheme
     \<Rightarrow> ('f, 'x tcp_client_scheme, 'k, 'z) process_scheme res" where
  "on_accept h e s =
     (case accepts e of
        None \<Rightarrow> Inr s
      | Some (remote_fd, peer, rand) \<Rightarrow>
          let s0 = s\<lparr>open_fds := insert remote_fd (open_fds s)\<rparr>;
              (a, s1) = decode_remote_client h peer rand remote_fd s0;
              s2 = (if clients s1 remote_fd = None
                    then s1\<lparr>clients := (clients s1)(remote_fd \<mapsto> a)\<rparr> else s1)
          in bnd (call_opt h (connected_f s2) a s2) (\<lambda>s3.
             Inr (ctl_add remote_fd (EPOLLIN OR EPOLLET) s3)))"

text \<open>
  The inner \<^verbatim>\<open>while (true)\<close> around \<^verbatim>\<open>send\<close> for one buffer; it hands on the unused results.
  \<^verbatim>\<open>ret >= size\<close> compares as unsigned, both being non-negative here.
\<close>

fun send_loop ::
    "('x tcp_client_scheme, 'k, ('f, 'x tcp_client_scheme, 'k, 'z) process_scheme) hooks \<Rightarrow> int \<Rightarrow> addr
     \<Rightarrow> send_result list \<Rightarrow> bytes \<Rightarrow> ('f, 'x tcp_client_scheme, 'k, 'z) process_scheme
     \<Rightarrow> (send_result list \<times> ('f, 'x tcp_client_scheme, 'k, 'z) process_scheme) res" where
  "send_loop h fd a [] buf s = Inl Script_end"
| "send_loop h fd a (Send_again # rs) buf s = Inr (rs, s)"
| "send_loop h fd a (Send_failed # rs) buf s = bnd (close_client h a s) (\<lambda>s1. Inr (rs, s1))"
| "send_loop h fd a (Sent n # rs) buf s =
     (let s1 = take_bytes fd (take n buf) s in
      if n = 0 then bnd (close_client h a s1) (\<lambda>s2. Inr (rs, s2))
      else if length buf \<le> n then Inr (rs, s1)
      else send_loop h fd a rs (drop n buf) s1)"

lemma send_loop_uses: "send_loop h fd a rs buf s = Inr (rs', s') \<Longrightarrow> length rs' < length rs"
proof (induction h fd a rs buf s arbitrary: s' rule: send_loop.induct)
  case (4 h fd a n rs buf s)
  then show ?case by (fastforce simp: Let_def split: if_splits)
qed auto

text \<open>The \<^verbatim>\<open>while\<close> over the queue: every turn pops one buffer and makes at least one call.\<close>

function send_queue ::
    "('x tcp_client_scheme, 'k, ('f, 'x tcp_client_scheme, 'k, 'z) process_scheme) hooks \<Rightarrow> int \<Rightarrow> addr
     \<Rightarrow> send_result list \<Rightarrow> ('f, 'x tcp_client_scheme, 'k, 'z) process_scheme
     \<Rightarrow> ('f, 'x tcp_client_scheme, 'k, 'z) process_scheme res" where
  "send_queue h fd a rs s =
     bnd (deref a s) (\<lambda>c.
     case send_buffer_queue c of
       [] \<Rightarrow> Inr s
     | buf # q \<Rightarrow>
         bnd (modify a (\<lambda>c. c\<lparr>send_buffer_queue := q\<rparr>) s) (\<lambda>s1.
         bnd (send_loop h fd a rs buf s1) (\<lambda>(rs', s2). send_queue h fd a rs' s2)))"
  by pat_completeness auto

termination
  by (relation "measure (\<lambda>(h, fd, a, rs, s). length rs)") (auto dest: send_loop_uses)

declare send_queue.simps [simp del]

text \<open>The branch for a writable client socket.\<close>

definition on_writable ::
    "('x tcp_client_scheme, 'k, ('f, 'x tcp_client_scheme, 'k, 'z) process_scheme) hooks \<Rightarrow> event
     \<Rightarrow> ('f, 'x tcp_client_scheme, 'k, 'z) process_scheme
     \<Rightarrow> ('f, 'x tcp_client_scheme, 'k, 'z) process_scheme res" where
  "on_writable h e s =
     (case clients s (ev_fd e) of
        None \<Rightarrow> Inr s
      | Some a \<Rightarrow>
          bnd (send_queue h (ev_fd e) a (sends e) s) (\<lambda>s1.
          bnd (deref a s1) (\<lambda>c.
          let s2 = ctl_mod (sockfd c) (EPOLLIN OR EPOLLRDHUP OR EPOLLET) s1 in
          case sent_f s2 of
            None \<Rightarrow> Inr s2
          | Some k \<Rightarrow> bnd (it_second (ev_fd e) s2) (\<lambda>a2. call h k a2 s2))))"

definition handle_event ::
    "('x tcp_client_scheme, 'k, ('f, 'x tcp_client_scheme, 'k, 'z) process_scheme) hooks \<Rightarrow> event
     \<Rightarrow> ('f, 'x tcp_client_scheme, 'k, 'z) process_scheme
     \<Rightarrow> ('f, 'x tcp_client_scheme, 'k, 'z) process_scheme res" where
  "handle_event h e s =
     (if ev_events e AND (EPOLLHUP OR EPOLLRDHUP OR EPOLLERR) \<noteq> 0 then
        (case clients s (ev_fd e) of None \<Rightarrow> Inr s | Some a \<Rightarrow> close_client h a s)
      else if ev_events e AND EPOLLIN \<noteq> 0 then
        (if ev_fd e = listen_fd s then on_accept h e s else on_readable h e s)
      else if ev_events e AND EPOLLOUT \<noteq> 0 then on_writable h e s
      else Inr s)"

fun handle_events ::
    "('x tcp_client_scheme, 'k, ('f, 'x tcp_client_scheme, 'k, 'z) process_scheme) hooks \<Rightarrow> event list
     \<Rightarrow> ('f, 'x tcp_client_scheme, 'k, 'z) process_scheme
     \<Rightarrow> ('f, 'x tcp_client_scheme, 'k, 'z) process_scheme res" where
  "handle_events h [] s = Inr s"
| "handle_events h (e # es) s = bnd (handle_event h e s) (handle_events h es)"

text \<open>
  \<^verbatim>\<open>while (!stop_)\<close>. A turn is what \<^verbatim>\<open>epoll_wait\<close> returns: \<open>None\<close> for an error, \<open>Some\<close> the events, of
  which it delivers at most \<^verbatim>\<open>BATCH_SIZE\<close>. The run ends with the script, or when \<^verbatim>\<open>stop\<close> was called.
\<close>

fun event_loop ::
    "('x tcp_client_scheme, 'k, ('f, 'x tcp_client_scheme, 'k, 'z) process_scheme) hooks \<Rightarrow> event list option list
     \<Rightarrow> ('f, 'x tcp_client_scheme, 'k, 'z) process_scheme
     \<Rightarrow> ('f, 'x tcp_client_scheme, 'k, 'z) process_scheme res" where
  "event_loop h [] s = Inr s"
| "event_loop h (w # ws) s =
     (if stop s then Inr s
      else case w of
        None \<Rightarrow> event_loop h ws s
      | Some es \<Rightarrow> bnd (handle_events h es s) (\<lambda>s1. event_loop h ws (event_loop_once s1)))"

definition start ::
    "('x tcp_client_scheme, 'k, ('f, 'x tcp_client_scheme, 'k, 'z) process_scheme) hooks \<Rightarrow> int
     \<Rightarrow> event list option list \<Rightarrow> ('f, 'x tcp_client_scheme, 'k, 'z) process_scheme
     \<Rightarrow> ('f, 'x tcp_client_scheme, 'k, 'z) process_scheme res" where
  "start h listen_ret ws s =
     (if listen_ret \<noteq> 0 then Inl (Runtime_error ''listen failed'') else event_loop h ws s)"

section \<open>Construction and destruction\<close>

text \<open>
  The results of \<^verbatim>\<open>socket\<close>, \<^verbatim>\<open>bind\<close> and \<^verbatim>\<open>epoll_create\<close> are arguments. A new server has no callbacks and
  no clients.
\<close>

definition init_tcp_server :: "int \<Rightarrow> int \<Rightarrow> ('f, 'c, 'k, 'z) process_scheme \<Rightarrow> ('f, 'c, 'k, 'z) process_scheme res" where
  "init_tcp_server fd bind_ret s =
     (let s1 = s\<lparr>listen_fd := fd\<rparr> in
      if fd = - 1 then Inl (Runtime_error ''socket create failed'')
      else let s2 = s1\<lparr>open_fds := insert fd (open_fds s1)\<rparr> in
        if bind_ret \<noteq> 0 then Inl (Runtime_error ''bind failed'') else Inr s2)"

definition init_epoll :: "int \<Rightarrow> ('f, 'c, 'k, 'z) process_scheme \<Rightarrow> ('f, 'c, 'k, 'z) process_scheme res" where
  "init_epoll efd s =
     (let s1 = s\<lparr>epoll_fd := efd\<rparr> in
      if efd < 3 then Inl (Runtime_error ''epoll create failed'')
      else Inr (ctl_add (listen_fd s1) (EPOLLIN OR EPOLLRDHUP OR EPOLLET)
                  (s1\<lparr>open_fds := insert efd (open_fds s1)\<rparr>)))"

definition tcp_server_init ::
    "bytes \<Rightarrow> int \<Rightarrow> int \<Rightarrow> int \<Rightarrow> int \<Rightarrow> ('f, 'c, 'k, 'z) process_scheme \<Rightarrow> ('f, 'c, 'k, 'z) process_scheme res" where
  "tcp_server_init address p fd bind_ret efd s =
     (let s0 = s\<lparr>server_port := p, server_addr := address, listen_fd := 0, epoll_fd := 0, stop := False,
                 connected_f := None, recv_f := None, disconnect_f := None, sent_f := None,
                 clients := Map.empty\<rparr>
      in bnd (init_tcp_server fd bind_ret s0) (init_epoll efd))"

text \<open>
  The loop of the destructor over \<^verbatim>\<open>clients_\<close>, in the order \<open>fds\<close> of the hash table. \<^verbatim>\<open>close_client\<close>
  erases the entry the loop stands on, and the loop then advances from it.
\<close>

fun close_all ::
    "('x tcp_client_scheme, 'k, ('f, 'x tcp_client_scheme, 'k, 'z) process_scheme) hooks \<Rightarrow> int list
     \<Rightarrow> ('f, 'x tcp_client_scheme, 'k, 'z) process_scheme
     \<Rightarrow> ('f, 'x tcp_client_scheme, 'k, 'z) process_scheme res" where
  "close_all h [] s = Inr s"
| "close_all h (fd # fds) s =
     bnd (it_second fd s) (\<lambda>a. bnd (close_client h a s) (\<lambda>s1.
     bnd (it_second fd s1) (\<lambda>_. close_all h fds s1)))"

definition tcp_server_destroy ::
    "('x tcp_client_scheme, 'k, ('f, 'x tcp_client_scheme, 'k, 'z) process_scheme) hooks \<Rightarrow> int list
     \<Rightarrow> ('f, 'x tcp_client_scheme, 'k, 'z) process_scheme
     \<Rightarrow> ('f, 'x tcp_client_scheme, 'k, 'z) process_scheme res" where
  "tcp_server_destroy h fds s =
     bnd (close_all h fds (sys_close (listen_fd s) s)) (\<lambda>s1. Inr (sys_close (epoll_fd s1) s1))"

section \<open>The class on its own\<close>

text \<open>The hooks of the base class: its own decoder and clients, with the user's callbacks \<open>user\<close>.\<close>

definition base_hooks :: "('k \<Rightarrow> addr \<Rightarrow> ('f, tcp_client, 'k) process \<Rightarrow> ('f, tcp_client, 'k) process res)
    \<Rightarrow> (tcp_client, 'k, ('f, tcp_client, 'k) process) hooks" where
  "base_hooks user = \<lparr>call = user, destructor = (\<lambda>a s. Inr s),
     decode_proto_data = tcp_decode_proto_data, allocate_client = new_tcp_client\<rparr>"

text \<open>The process before anything has run: three open standard descriptors.\<close>

definition process_init :: "('f, 'c, 'k) process" where
  "process_init = wheel.extend wheel_init
     (process.fields Map.empty 0 {0, 1, 2} Map.empty (\<lambda>_. []) 0 0 [] 0 False None None None None Map.empty)"

end
