(* ===== verification/Http_Server.thy ===== *)
theory Http_Server
  imports Tcp_Server
begin

text \<open>
  \<^verbatim>\<open>websocket_decoder/http_server.{h,cpp}\<close>: the parser for the request that opens a connection. It walks
  over the received string with two pointers, \<open>m\<close> and \<open>n\<close>, here offsets into the string; a read
  behind the terminating zero is \<open>Out_of_bounds\<close>. \<^verbatim>\<open>http_header_\<close> is a map into which \<^verbatim>\<open>emplace\<close> does
  not overwrite.
\<close>

record http_client = tcp_client +
  http_header :: "bytes \<rightharpoonup> bytes"

definition emplace :: "bytes \<Rightarrow> bytes \<Rightarrow> (bytes \<rightharpoonup> bytes) \<Rightarrow> (bytes \<rightharpoonup> bytes)" where
  "emplace k v hdr = (case hdr k of None \<Rightarrow> hdr(k \<mapsto> v) | Some _ \<Rightarrow> hdr)"

text \<open>The bytes from \<open>n\<close> up to \<open>m\<close>, which the loops have read already.\<close>

definition substring :: "bytes \<Rightarrow> nat \<Rightarrow> nat \<Rightarrow> bytes" where
  "substring d n m = take (m - n) (drop n d)"

text \<open>The condition \<^verbatim>\<open>*m != '\r' && *(m + 1) != '\n'\<close>, evaluated from left to right.\<close>

definition in_line :: "bytes \<Rightarrow> nat \<Rightarrow> bool res" where
  "in_line d m = bnd (rd d m) (\<lambda>b. if b = 13 then Inr False else bnd (rd d (m + 1)) (\<lambda>b'. Inr (b' \<noteq> 10)))"

lemma in_line_le: "in_line d m = Inr b \<Longrightarrow> m \<le> length d"
  by (auto simp: in_line_def dest: rd_Inr_le)

text \<open>The loop over the request line; \<open>i\<close> counts the blanks.\<close>

function request_line :: "bytes \<Rightarrow> nat \<Rightarrow> nat \<Rightarrow> nat \<Rightarrow> (bytes \<rightharpoonup> bytes) \<Rightarrow> (nat \<times> (bytes \<rightharpoonup> bytes)) res" where
  "request_line d m n i hdr =
     bnd (in_line d m) (\<lambda>go.
     if \<not> go then Inr (m, hdr)
     else bnd (rd d m) (\<lambda>b.
       if b = 32 then
         request_line d (m + 1) (m + 1) (i + 1)
           (if i = 0 then emplace (bytes_of ''method'') (substring d n m) hdr
            else if i = 1 then emplace (bytes_of ''path'') (substring d n m) hdr
            else hdr)
       else request_line d (m + 1) n i hdr))"
  by pat_completeness auto

termination
  by (relation "measure (\<lambda>(d, m, n, i, hdr). Suc (length d) - m)") (auto dest!: in_line_le)

text \<open>\<^verbatim>\<open>while (*m != ':') ++m;\<close> and the scan for the end of a line.\<close>

function find_colon :: "bytes \<Rightarrow> nat \<Rightarrow> nat res" where
  "find_colon d m = bnd (rd d m) (\<lambda>b. if b = 58 then Inr m else find_colon d (m + 1))"
  by pat_completeness auto

termination
  by (relation "measure (\<lambda>(d, m). Suc (length d) - m)") (auto dest!: rd_Inr_le)

function find_eol :: "bytes \<Rightarrow> nat \<Rightarrow> nat res" where
  "find_eol d m = bnd (in_line d m) (\<lambda>go. if go then find_eol d (m + 1) else Inr m)"
  by pat_completeness auto

termination
  by (relation "measure (\<lambda>(d, m). Suc (length d) - m)") (auto dest!: in_line_le)

declare request_line.simps [simp del] find_colon.simps [simp del] find_eol.simps [simp del]

lemma find_colon_ge: "find_colon d m = Inr k \<Longrightarrow> m \<le> k \<and> k \<le> length d"
proof (induction d m rule: find_colon.induct)
  case (1 d m)
  from 1(2) obtain b where b: "rd d m = Inr b" and "b = 58 \<and> k = m \<or> b \<noteq> 58 \<and> find_colon d (m + 1) = Inr k"
    by (auto simp: find_colon.simps [of d m] split: if_splits)
  with 1(1) [OF b] rd_Inr_le [OF b] show ?case by auto
qed

lemma find_eol_ge: "find_eol d m = Inr k \<Longrightarrow> m \<le> k \<and> k \<le> length d"
proof (induction d m rule: find_eol.induct)
  case (1 d m)
  from 1(2) obtain go where go: "in_line d m = Inr go" and "\<not> go \<and> k = m \<or> go \<and> find_eol d (m + 1) = Inr k"
    by (auto simp: find_eol.simps [of d m] split: if_splits)
  with 1(1) [OF go] in_line_le [OF go] show ?case by auto
qed

text \<open>The loop over the header lines; the value is what \<^verbatim>\<open>decode_http_header\<close> returns.\<close>

function header_lines :: "bytes \<Rightarrow> nat \<Rightarrow> (bytes \<rightharpoonup> bytes) \<Rightarrow> (bool \<times> (bytes \<rightharpoonup> bytes)) res" where
  "header_lines d n hdr =
     bnd (find_colon d n) (\<lambda>m.
     let key = substring d n m in
     if key = [] then Inr (False, hdr)
     else bnd (find_eol d (m + 2)) (\<lambda>m'.
       let val = substring d (m + 2) m' in
       if val = [] then Inr (False, hdr)
       else let hdr' = emplace key val hdr in
         bnd (rd d (m' + 2)) (\<lambda>b.
         if b \<noteq> 13 then header_lines d (m' + 2) hdr'
         else bnd (rd d (m' + 3)) (\<lambda>b'.
           if b' \<noteq> 10 then header_lines d (m' + 2) hdr' else Inr (True, hdr')))))"
  by pat_completeness auto

termination
  by (relation "measure (\<lambda>(d, n, hdr). Suc (length d) - n)") (auto dest!: find_colon_ge find_eol_ge)

declare header_lines.simps [simp del]

definition decode_http_header :: "bytes \<Rightarrow> (bytes \<rightharpoonup> bytes) \<Rightarrow> (bool \<times> (bytes \<rightharpoonup> bytes)) res" where
  "decode_http_header d hdr = bnd (request_line d 0 0 0 hdr) (\<lambda>(m, hdr'). header_lines d (m + 2) hdr')"

text \<open>\<^verbatim>\<open>Http_server::decode_proto_data\<close>, which goes on with the base class's.\<close>

definition http_decode_proto_data ::
    "addr \<Rightarrow> bytes \<Rightarrow> ('f, 'x http_client_scheme, 'k, 'z) process_scheme
     \<Rightarrow> (bool \<times> ('f, 'x http_client_scheme, 'k, 'z) process_scheme) res" where
  "http_decode_proto_data a data s =
     bnd (deref a s) (\<lambda>c.
     bnd (decode_http_header data (http_header c)) (\<lambda>(good, hdr).
     bnd (modify a (\<lambda>c. c\<lparr>http_header := hdr\<rparr>) s) (\<lambda>s1.
     if good then tcp_decode_proto_data a data s1 else Inr (False, s1))))"

end
