(* ===== verification/Utf8.thy ===== *)
theory Utf8
  imports Ws_Prelude
begin

text \<open>
  \<^verbatim>\<open>Websocket_server::validate_utf8\<close> (\<^verbatim>\<open>websocket_decoder/websocket_server.cpp\<close>): the check a text
  message passes before it reaches the application. The loop with its counter of outstanding
  continuation bytes is \<open>validate_loop\<close>; the grammar it is meant to recognise is \<open>utf8_seq\<close>, and
  the encoder of code points \<open>encode_cp\<close> gives the strings it must accept.
\<close>

section \<open>The validator\<close>

text \<open>One turn of the loop: \<open>None\<close> is the early \<^verbatim>\<open>return false\<close>, \<open>Some\<close> the new counter.\<close>

definition validate_step :: "nat \<Rightarrow> byte \<Rightarrow> nat option" where
  "validate_step remaining c =
     (if remaining = 0 then
        if drop_bit 7 c = 0 then Some remaining
        else if drop_bit 5 c = 6 then Some 1
        else if drop_bit 4 c = 14 then Some 2
        else if drop_bit 3 c = 30 then Some 3
        else None
      else if drop_bit 6 c \<noteq> 2 then None
      else Some (remaining - 1))"

fun validate_loop :: "nat \<Rightarrow> bytes \<Rightarrow> bool" where
  "validate_loop remaining [] \<longleftrightarrow> remaining = 0"
| "validate_loop remaining (c # s) \<longleftrightarrow>
     (case validate_step remaining c of None \<Rightarrow> False | Some r \<Rightarrow> validate_loop r s)"

definition validate_utf8 :: "bytes \<Rightarrow> bool" where
  "validate_utf8 s = validate_loop 0 s"

section \<open>The grammar it recognises\<close>

definition is_cont :: "byte \<Rightarrow> bool" where
  "is_cont c \<longleftrightarrow> drop_bit 6 c = 2"

text \<open>The number of continuation bytes a lead byte announces.\<close>

definition lead_len :: "byte \<Rightarrow> nat option" where
  "lead_len c =
     (if drop_bit 7 c = 0 then Some 0
      else if drop_bit 5 c = 6 then Some 1
      else if drop_bit 4 c = 14 then Some 2
      else if drop_bit 3 c = 30 then Some 3
      else None)"

inductive utf8_seq :: "bytes \<Rightarrow> bool" where
  empty_seq: "utf8_seq []"
| char_seq: "lead_len c = Some n \<Longrightarrow> length cs = n \<Longrightarrow> list_all is_cont cs \<Longrightarrow> utf8_seq s
     \<Longrightarrow> utf8_seq (c # cs @ s)"

inductive_cases utf8_seq_ConsE: "utf8_seq (c # s)"

lemma validate_step_0: "validate_step 0 c = lead_len c"
  by (simp add: validate_step_def lead_len_def)

lemma validate_step_Suc: "validate_step (Suc n) c = (if is_cont c then Some n else None)"
  by (simp add: validate_step_def is_cont_def)

lemmas validate_steps = validate_step_0 validate_step_Suc

text \<open>The loop with a positive counter consumes exactly that many continuation bytes.\<close>

lemma validate_loop_split:
  "validate_loop n s \<longleftrightarrow>
     n \<le> length s \<and> list_all is_cont (take n s) \<and> validate_loop 0 (drop n s)"
proof (induction n arbitrary: s)
  case 0
  then show ?case by simp
next
  case (Suc n)
  show ?case
  proof (cases s)
    case Nil
    then show ?thesis by simp
  next
    case (Cons c t)
    then show ?thesis using Suc.IH [of t] by (auto simp: validate_steps)
  qed
qed

lemma utf8_seq_validate: "utf8_seq s \<Longrightarrow> validate_loop 0 s"
proof (induction rule: utf8_seq.induct)
  case empty_seq
  show ?case by simp
next
  case (char_seq c n cs s)
  then show ?case
    by (simp add: validate_steps validate_loop_split [of n "cs @ s"])
qed

lemma validate_utf8_seq: "validate_loop 0 s \<Longrightarrow> utf8_seq s"
proof (induction s rule: length_induct)
  case (1 s)
  show ?case
  proof (cases s)
    case Nil
    then show ?thesis by (simp add: empty_seq)
  next
    case (Cons c t)
    with "1.prems" obtain n where n: "lead_len c = Some n" and v: "validate_loop n t"
      by (auto simp: validate_steps split: option.splits)
    then have len: "n \<le> length t" and cont: "list_all is_cont (take n t)"
      and rest: "validate_loop 0 (drop n t)"
      using validate_loop_split [of n t] by auto
    have "utf8_seq (drop n t)"
      using "1.IH" rest Cons by simp
    from utf8_seq.char_seq [OF n _ cont this] len show ?thesis
      by (simp add: Cons)
  qed
qed

text \<open>
  C23: The validator refines its grammar: it accepts a string exactly when the string is a
  sequence of lead bytes, each followed by the number of continuation bytes it announces.
\<close>

theorem validate_utf8_iff_seq: "validate_utf8 s = utf8_seq s"
  unfolding validate_utf8_def using utf8_seq_validate validate_utf8_seq by blast

section \<open>Every encoded text is accepted\<close>

text \<open>The UTF-8 encoding of a code point, for the widths that RFC 3629 allows.\<close>

definition cont_byte :: "nat \<Rightarrow> byte" where
  "cont_byte n = of_nat (128 + n mod 64)"

definition encode_cp :: "nat \<Rightarrow> bytes" where
  "encode_cp n =
     (if n < 128 then [of_nat n]
      else if n < 2048 then [of_nat (192 + n div 64), cont_byte n]
      else if n < 65536 then [of_nat (224 + n div 4096), cont_byte (n div 64), cont_byte n]
      else [of_nat (240 + n div 262144), cont_byte (n div 4096), cont_byte (n div 64), cont_byte n])"

lemma lead_len_ascii: "n < 128 \<Longrightarrow> lead_len (of_nat n) = Some 0"
  by (simp add: lead_len_def drop_bit_of_nat_byte)

lemma lead_len_two: "192 \<le> v \<Longrightarrow> v < 224 \<Longrightarrow> lead_len (of_nat v) = Some 1"
proof -
  assume v: "192 \<le> v" "v < 224"
  then have "v div 128 = 1" "v div 32 = 6" by arith+
  with v show ?thesis by (simp add: lead_len_def drop_bit_of_nat_byte)
qed

lemma lead_len_three: "224 \<le> v \<Longrightarrow> v < 240 \<Longrightarrow> lead_len (of_nat v) = Some 2"
proof -
  assume v: "224 \<le> v" "v < 240"
  then have "v div 128 = 1" "v div 32 = 7" "v div 16 = 14" by arith+
  with v show ?thesis by (simp add: lead_len_def drop_bit_of_nat_byte)
qed

lemma lead_len_four: "240 \<le> v \<Longrightarrow> v < 248 \<Longrightarrow> lead_len (of_nat v) = Some 3"
proof -
  assume v: "240 \<le> v" "v < 248"
  then have "v div 128 = 1" "v div 32 = 7" "v div 16 = 15" "v div 8 = 30" by arith+
  with v show ?thesis by (simp add: lead_len_def drop_bit_of_nat_byte)
qed

lemma is_cont_cont_byte [simp]: "is_cont (cont_byte n)"
proof -
  have "128 + n mod 64 < 256" "(128 + n mod 64) div 64 = 2" by arith+
  then show ?thesis
    by (simp add: is_cont_def cont_byte_def drop_bit_of_nat_byte del: of_nat_add)
qed

lemma utf8_seq_encode_cp: "n < 1114112 \<Longrightarrow> utf8_seq s \<Longrightarrow> utf8_seq (encode_cp n @ s)"
proof -
  assume n: "n < 1114112" and s: "utf8_seq s"
  consider "n < 128" | "128 \<le> n" "n < 2048" | "2048 \<le> n" "n < 65536" | "65536 \<le> n" by linarith
  then show ?thesis
  proof cases
    case 1
    with char_seq [OF lead_len_ascii _ _ s, of n "[]"] show ?thesis by (simp add: encode_cp_def)
  next
    case 2
    then have "192 + n div 64 < 224" by arith
    with char_seq [OF lead_len_two _ _ s, of "192 + n div 64" "[cont_byte n]"] 2
    show ?thesis by (simp add: encode_cp_def)
  next
    case 3
    then have "224 + n div 4096 < 240" by arith
    with char_seq [OF lead_len_three _ _ s, of "224 + n div 4096" "[cont_byte (n div 64), cont_byte n]"] 3
    show ?thesis by (simp add: encode_cp_def)
  next
    case 4
    with n have "240 + n div 262144 < 248" by arith
    with char_seq [OF lead_len_four _ _ s, of "240 + n div 262144"
        "[cont_byte (n div 4096), cont_byte (n div 64), cont_byte n]"] 4
    show ?thesis by (simp add: encode_cp_def)
  qed
qed

text \<open>
  C27: No valid text is refused: the validator accepts the UTF-8 encoding of every sequence of
  code points.
\<close>

theorem validate_utf8_encode:
  "(\<forall>n \<in> set cps. n < 1114112) \<Longrightarrow> validate_utf8 (concat (map encode_cp cps))"
proof -
  assume "\<forall>n \<in> set cps. n < 1114112"
  then have "utf8_seq (concat (map encode_cp cps))"
    by (induction cps) (auto intro: utf8_seq_encode_cp empty_seq)
  then show ?thesis by (simp add: validate_utf8_def utf8_seq_validate)
qed

theorem validate_utf8_encode_witness:
  "validate_utf8 (concat (map encode_cp [65, 233, 8364, 128512]))"
  by (rule validate_utf8_encode) simp

text \<open>
  The validator checks the shape only. The overlong two-byte form of NUL, which RFC 3629 forbids,
  passes, and so does an encoded surrogate.
\<close>

lemma validate_utf8_overlong: "validate_utf8 [0xC0, 0x80]"
  by (simp add: validate_utf8_def validate_step_def)

lemma validate_utf8_surrogate: "validate_utf8 [0xED, 0xA0, 0x80]"
  by (simp add: validate_utf8_def validate_step_def)

end
