(* ===== verification/Ws_Frame.thy ===== *)
theory Ws_Frame
  imports Ws_Prelude
begin

text \<open>
  The wire format: the header structs of \<^verbatim>\<open>websocket_decoder/websocket_server.h\<close>, the framing done
  by \<^verbatim>\<open>websocket_client::send\<close>, and the frame loop of \<^verbatim>\<open>decode_websocket_data_frame\<close>
  (\<^verbatim>\<open>websocket_server.cpp\<close>) as a function of the receive buffer, the decode buffer, the read
  position and the current header. Pointers into \<^verbatim>\<open>recv_buffer_\<close> are offsets from its start.
  The RFC 6455 layout that both directions are measured against is \<open>rfc_frame\<close>.
\<close>

section \<open>Header structs\<close>

text \<open>\<^verbatim>\<open>enum class opcode_flag\<close>: a bit field of four bits, so every four-bit value can be read.\<close>

definition CONTINUATION_FRAME :: "4 word" where "CONTINUATION_FRAME = 0"
definition TEXT_FRAME :: "4 word" where "TEXT_FRAME = 1"
definition BINARY_FRAME :: "4 word" where "BINARY_FRAME = 2"
definition CLOSE :: "4 word" where "CLOSE = 8"
definition PING :: "4 word" where "PING = 9"
definition PONG :: "4 word" where "PONG = 10"

lemmas opcode_defs = CONTINUATION_FRAME_def TEXT_FRAME_def BINARY_FRAME_def CLOSE_def PING_def PONG_def

datatype close_flag =
    SUCCESS
  | NORMAL_CLOSE
  | GOING_AWAY
  | PROTOCOL_ERROR
  | UNSUPPORTED_DATA
  | INTERNAL_UTF8
  | SERVER_ERROR

primrec close_code :: "close_flag \<Rightarrow> 16 word" where
  "close_code SUCCESS = 0"
| "close_code NORMAL_CLOSE = 1000"
| "close_code GOING_AWAY = 1001"
| "close_code PROTOCOL_ERROR = 1002"
| "close_code UNSUPPORTED_DATA = 1003"
| "close_code INTERNAL_UTF8 = 1007"
| "close_code SERVER_ERROR = 1011"

lemma close_code_inject: "close_code f = close_code g \<longleftrightarrow> f = g"
  by (cases f; cases g) simp_all

record opcode_bit =
  opcode :: "4 word"
  rsv3 :: bool
  rsv2 :: bool
  rsv1 :: bool
  fin :: bool

record payload_mask =
  payload_len :: "7 word"
  mask_flag :: bool

record websocket_header =
  op_bits :: opcode_bit
  payload :: payload_mask

text \<open>\<^verbatim>\<open>websocket_header header {}\<close>.\<close>

definition zero_header :: websocket_header where
  "zero_header =
     \<lparr>op_bits = \<lparr>opcode = 0, rsv3 = False, rsv2 = False, rsv1 = False, fin = False\<rparr>,
      payload = \<lparr>payload_len = 0, mask_flag = False\<rparr>\<rparr>"

text \<open>The packed, little endian layout of the two bytes, written and read.\<close>

definition header_bytes :: "websocket_header \<Rightarrow> bytes" where
  "header_bytes h =
     [ucast (opcode (op_bits h)) OR push_bit 4 (of_bool (rsv3 (op_bits h)))
        OR push_bit 5 (of_bool (rsv2 (op_bits h))) OR push_bit 6 (of_bool (rsv1 (op_bits h)))
        OR push_bit 7 (of_bool (fin (op_bits h))),
      ucast (payload_len (payload h)) OR push_bit 7 (of_bool (mask_flag (payload h)))]"

definition header_of :: "byte \<Rightarrow> byte \<Rightarrow> websocket_header" where
  "header_of b0 b1 =
     \<lparr>op_bits = \<lparr>opcode = ucast b0, rsv3 = bit b0 4, rsv2 = bit b0 5, rsv1 = bit b0 6, fin = bit b0 7\<rparr>,
      payload = \<lparr>payload_len = ucast b1, mask_flag = bit b1 7\<rparr>\<rparr>"

lemma length_header_bytes [simp]: "length (header_bytes h) = 2"
  by (simp add: header_bytes_def)

lemma bit4_high: "4 \<le> n \<Longrightarrow> \<not> bit (w :: 4 word) n"
  by (auto dest: bit_imp_le_length)

lemma bit7_high: "7 \<le> n \<Longrightarrow> \<not> bit (w :: 7 word) n"
  by (auto dest: bit_imp_le_length)

lemma less4: "n < 4 \<Longrightarrow> n = 0 \<or> n = 1 \<or> n = 2 \<or> n = 3" for n :: nat
  by linarith

lemma less7: "n < 7 \<Longrightarrow> n = 0 \<or> n = 1 \<or> n = 2 \<or> n = 3 \<or> n = 4 \<or> n = 5 \<or> n = 6" for n :: nat
  by linarith

lemma less8: "n < 8 \<Longrightarrow> n = 0 \<or> n = 1 \<or> n = 2 \<or> n = 3 \<or> n = 4 \<or> n = 5 \<or> n = 6 \<or> n = 7" for n :: nat
  by linarith

lemma header_of_bytes: "header_of (header_bytes h ! 0) (header_bytes h ! 1) = h"
proof -
  have "ucast (header_bytes h ! 0) = opcode (op_bits h)"
    by (rule bit_word_eqI) (auto simp: header_bytes_def bit_simps dest!: less4)
  moreover have "bit (header_bytes h ! 0) 4 = rsv3 (op_bits h)"
    and "bit (header_bytes h ! 0) 5 = rsv2 (op_bits h)"
    and "bit (header_bytes h ! 0) 6 = rsv1 (op_bits h)"
    and "bit (header_bytes h ! 0) 7 = fin (op_bits h)"
    and "bit (header_bytes h ! 1) 7 = mask_flag (payload h)"
    by (simp_all add: header_bytes_def bit_simps bit4_high bit7_high)
  moreover have "ucast (header_bytes h ! 1) = payload_len (payload h)"
    by (rule bit_word_eqI) (auto simp: header_bytes_def bit_simps dest!: less7)
  ultimately show ?thesis
    by (simp add: header_of_def)
qed

lemma header_bytes_of: "header_bytes (header_of b0 b1) = [b0, b1]"
proof -
  have "header_bytes (header_of b0 b1) ! 0 = b0"
    by (rule bit_word_eqI) (auto simp: header_bytes_def header_of_def bit_simps dest!: less8)
  moreover have "header_bytes (header_of b0 b1) ! 1 = b1"
    by (rule bit_word_eqI) (auto simp: header_bytes_def header_of_def bit_simps dest!: less8)
  ultimately show ?thesis by (simp add: header_bytes_def)
qed

section \<open>Sending: \<open>websocket_client::send\<close>\<close>

definition PAYLOAD_2_FLAG :: nat where "PAYLOAD_2_FLAG = 0x7e"
definition PAYLOAD_8_FLAG :: nat where "PAYLOAD_8_FLAG = 0x7f"

lemmas payload_flag_defs = PAYLOAD_2_FLAG_def PAYLOAD_8_FLAG_def

definition send_frame :: "bytes \<Rightarrow> bytes" where
  "send_frame send_buffer =
     (let header = zero_header
            \<lparr>op_bits := (op_bits zero_header)\<lparr>fin := True, opcode := TEXT_FRAME\<rparr>,
             payload := (payload zero_header)\<lparr>mask_flag := False\<rparr>\<rparr>;
          size = length send_buffer;
          (len7, ext) =
            (if size < PAYLOAD_2_FLAG then (of_nat size, [])
             else if size \<le> 65535 then (of_nat PAYLOAD_2_FLAG, be16 (of_nat size))
             else (of_nat PAYLOAD_8_FLAG, be64 (of_nat size)))
      in header_bytes (header\<lparr>payload := (payload header)\<lparr>payload_len := len7\<rparr>\<rparr>) @ ext @ send_buffer)"

section \<open>Receiving: one frame\<close>

text \<open>\<^verbatim>\<open>*p << 8 | *(p + 1)\<close>: both bytes are promoted from signed \<^verbatim>\<open>char\<close> to \<^verbatim>\<open>int\<close>, and the
  \<^verbatim>\<open>int\<close> is converted to \<^verbatim>\<open>uint64_t\<close>.\<close>

definition len2 :: "byte \<Rightarrow> byte \<Rightarrow> 64 word" where
  "len2 b0 b1 = scast (push_bit 8 (scast b0 :: 32 word) OR (scast b1 :: 32 word))"

text \<open>The eight turns of \<^verbatim>\<open>payload_len = (payload_len << 8) | *(p + i)\<close>.\<close>

fun len8 :: "bytes \<Rightarrow> nat \<Rightarrow> nat \<Rightarrow> 64 word \<Rightarrow> 64 word res" where
  "len8 d p 0 acc = Inr acc"
| "len8 d p (Suc k) acc = bnd (rd d p) (\<lambda>b. len8 d (Suc p) k (push_bit 8 acc OR scast b))"

text \<open>
  The length part of a turn: \<open>None\<close> is \<^verbatim>\<open>return close_flag::PROTOCOL_ERROR\<close>, \<open>Some\<close> the payload
  length and the position behind the extended length. The size checks are those of the code: they
  look at the whole buffer, and the second asks for 6 bytes where 8 are read.
\<close>

definition read_len :: "bytes \<Rightarrow> nat \<Rightarrow> websocket_header \<Rightarrow> (64 word \<times> nat) option res" where
  "read_len d p header =
     (let l = unat (payload_len (payload header)) in
      if l < PAYLOAD_2_FLAG then Inr (Some (of_nat l, p))
      else if l = PAYLOAD_2_FLAG then
        if length d < 2 + 2 then Inr None
        else bnd (rd d p) (\<lambda>b0. bnd (rd d (p + 1)) (\<lambda>b1. Inr (Some (len2 b0 b1, p + 2))))
      else if l = PAYLOAD_8_FLAG then
        if length d < 2 + 6 then Inr None
        else bnd (len8 d p 8 0) (\<lambda>n. Inr (Some (n, p + 8)))
      else Inr None)"

text \<open>The unmasking loops: whole 32-bit words first, then the bytes that are left.\<close>

fun xor_word :: "bytes \<Rightarrow> nat \<Rightarrow> 32 word \<Rightarrow> bytes res" where
  "xor_word d p m =
     (if p + 4 \<le> length d
      then Inr (take p d
             @ store32 (load32 (d ! p) (d ! (p + 1)) (d ! (p + 2)) (d ! (p + 3)) XOR m)
             @ drop (p + 4) d)
      else Inl Out_of_bounds)"

fun unmask_words :: "bytes \<Rightarrow> nat \<Rightarrow> 32 word \<Rightarrow> nat \<Rightarrow> bytes res" where
  "unmask_words d p m 0 = Inr d"
| "unmask_words d p m (Suc k) = bnd (xor_word d p m) (\<lambda>d'. unmask_words d' (p + 4) m k)"

fun unmask_tail :: "bytes \<Rightarrow> nat \<Rightarrow> bytes \<Rightarrow> nat \<Rightarrow> nat \<Rightarrow> bytes res" where
  "unmask_tail d p mk i 0 = Inr d"
| "unmask_tail d p mk i (Suc k) =
     bnd (rd d (p + i)) (\<lambda>b. bnd (wr d (p + i) (b XOR mk ! (i mod 4))) (\<lambda>d'. unmask_tail d' p mk (Suc i) k))"

text \<open>
  Both loops count in an \<^verbatim>\<open>int\<close>: the first makes at most \<open>2 ^ 31\<close> turns before \<^verbatim>\<open>++i\<close> overflows, and
  \<^verbatim>\<open>offset\<close>, which only matters when bytes are left, cannot hold \<open>2 ^ 31\<close>.
\<close>

definition unmask :: "bytes \<Rightarrow> nat \<Rightarrow> bytes \<Rightarrow> nat \<Rightarrow> bytes res" where
  "unmask d p mk n =
     bnd (unmask_words d p (load32 (mk ! 0) (mk ! 1) (mk ! 2) (mk ! 3)) (min (n div 4) (2 ^ 31)))
       (\<lambda>d'. if 2 ^ 31 \<le> n div 4 \<or> (2 ^ 31 \<le> n div 4 * 4 \<and> n mod 4 \<noteq> 0) then Inl Int_overflow
             else unmask_tail d' p mk (n div 4 * 4) (n mod 4))"

text \<open>
  A turn of the loop up to the append: \<open>None\<close> is the return of \<^verbatim>\<open>PROTOCOL_ERROR\<close>, \<open>Some\<close> the
  buffer after unmasking in place, the start of the payload and its length. The sum in the size
  check is the code's 64-bit sum.
\<close>

definition frame_body :: "bytes \<Rightarrow> nat \<Rightarrow> websocket_header \<Rightarrow> (bytes \<times> nat \<times> nat) option res" where
  "frame_body d p header =
     bnd (read_len d p header) (\<lambda>r. case r of
         None \<Rightarrow> Inr None
       | Some (n, p1) \<Rightarrow>
           if of_nat (length d) < n + 2 then Inr None
           else if mask_flag (payload header) then
             bnd (rd_range d p1 4) (\<lambda>mk.
             bnd (unmask d (p1 + 4) mk (unat n)) (\<lambda>d'. Inr (Some (d', p1 + 4, unat n))))
           else Inr (Some (d, p1, unat n)))"

text \<open>\<^verbatim>\<open>decode_buffer_.append(p, payload_len)\<close>; libstdc++'s \<^verbatim>\<open>max_size\<close> is \<open>2 ^ 63 - 1\<close>.\<close>

definition append_range :: "bytes \<Rightarrow> bytes \<Rightarrow> nat \<Rightarrow> nat \<Rightarrow> bytes res" where
  "append_range buf d p n =
     (if 2 ^ 63 - 1 < length buf + n then Inl Length_error
      else bnd (rd_range d p n) (\<lambda>xs. Inr (buf @ xs)))"

definition read_header :: "bytes \<Rightarrow> nat \<Rightarrow> websocket_header res" where
  "read_header d p = bnd (rd d p) (\<lambda>b0. bnd (rd d (p + 1)) (\<lambda>b1. Inr (header_of b0 b1)))"

lemma xor_word_length: "xor_word d p m = Inr d' \<Longrightarrow> length d' = length d"
  by (auto split: if_splits)

lemma unmask_words_length: "unmask_words d p m k = Inr d' \<Longrightarrow> length d' = length d"
  by (induction d p m k rule: unmask_words.induct) (auto dest: xor_word_length simp del: xor_word.simps)

lemma unmask_tail_length: "unmask_tail d p mk i k = Inr d' \<Longrightarrow> length d' = length d"
  by (induction d p mk i k rule: unmask_tail.induct) (auto dest: wr_Inr_length)

lemma unmask_length: "unmask d p mk n = Inr d' \<Longrightarrow> length d' = length d"
  by (auto simp: unmask_def dest!: unmask_words_length unmask_tail_length split: if_splits)

lemma read_len_pos: "read_len d p h = Inr (Some (n, p1)) \<Longrightarrow> p \<le> p1"
  by (auto simp: read_len_def Let_def split: if_splits)

lemma frame_body_SomeE:
  assumes "frame_body d p h = Inr (Some (d', p', n))"
  obtains w p1 where "read_len d p h = Inr (Some (w, p1))" and "\<not> of_nat (length d) < w + 2"
    and "n = unat w" and "\<not> mask_flag (payload h)" and "d' = d" and "p' = p1"
  | w p1 mk where "read_len d p h = Inr (Some (w, p1))" and "\<not> of_nat (length d) < w + 2"
    and "n = unat w" and "mask_flag (payload h)" and "rd_range d p1 4 = Inr mk"
    and "unmask d (p1 + 4) mk (unat w) = Inr d'" and "p' = p1 + 4"
proof -
  from assms obtain w p1 where rl: "read_len d p h = Inr (Some (w, p1))"
    by (auto simp: frame_body_def split: option.splits)
  with assms that show thesis
    by (auto simp: frame_body_def split: if_splits)
qed

lemma frame_body_bounds:
  "frame_body d p h = Inr (Some (d', p', n)) \<Longrightarrow> length d' = length d \<and> p \<le> p'"
  by (erule frame_body_SomeE) (auto dest!: read_len_pos unmask_length)

lemma read_header_bound: "read_header d p = Inr h \<Longrightarrow> p < length d"
  by (auto simp: read_header_def dest!: rd_Inr_le)

section \<open>Receiving: the loop over the frames of a buffer\<close>

text \<open>
  The result carries the returned flag (\<open>SUCCESS\<close> where the loop is left by \<^verbatim>\<open>break\<close>), the receive
  buffer, the decode buffer and the last header. A turn that goes on has read a header further
  on, so the distance to the end of the buffer shrinks.
\<close>

function decode_loop ::
    "bytes \<Rightarrow> bytes \<Rightarrow> nat \<Rightarrow> websocket_header \<Rightarrow> (close_flag \<times> bytes \<times> bytes \<times> websocket_header) res" where
  "decode_loop d buf p header =
     bnd (frame_body d p header) (\<lambda>r. case r of
         None \<Rightarrow> Inr (PROTOCOL_ERROR, d, buf, header)
       | Some (d', p', n) \<Rightarrow>
           bnd (append_range buf d' p' n) (\<lambda>buf'.
             if fin (op_bits header) \<or> length d' \<le> p' then Inr (SUCCESS, d', buf', header)
             else bnd (read_header d' (p' + n)) (\<lambda>header'. decode_loop d' buf' (p' + n + 2) header')))"
  by pat_completeness auto
termination
  by (relation "measure (\<lambda>(d, buf, p, header). length d + 3 - p)")
    (auto dest!: frame_body_bounds read_header_bound)

declare decode_loop.simps [simp del]

end
