(* ===== verification/Websocket_Server.thy ===== *)
theory Websocket_Server
  imports Http_Server Utf8 Ws_Frame
begin

text \<open>
  \<^verbatim>\<open>websocket_decoder/websocket_server.{h,cpp}\<close>: the WebSocket protocol on top of the HTTP server. The
  client class gets the connection state, the buffers of the decoder and the ids of its timer tasks;
  the server gets the handshake, the dispatch on the opcode, the closing frames, the timer tasks and
  the lambdas that wrap the application's callbacks. SHA-1 and base64, from OpenSSL, are the
  parameters of \<open>crypto\<close>; the clock and the bytes behind a local on the stack are part of the state.
\<close>

section \<open>Clients and server\<close>

datatype connection_state = NONE | WAIT_SHAKE | CONNECTED

text \<open>The enumerators are ordered by their \<^verbatim>\<open>uint8_t\<close> values.\<close>

primrec state_code :: "connection_state \<Rightarrow> nat" where
  "state_code NONE = 0"
| "state_code WAIT_SHAKE = 1"
| "state_code CONNECTED = 2"

instantiation connection_state :: linorder
begin

definition less_eq_connection_state :: "connection_state \<Rightarrow> connection_state \<Rightarrow> bool" where
  "less_eq_connection_state a b \<longleftrightarrow> state_code a \<le> state_code b"

definition less_connection_state :: "connection_state \<Rightarrow> connection_state \<Rightarrow> bool" where
  "less_connection_state a b \<longleftrightarrow> state_code a < state_code b"

instance
proof
  fix a b :: connection_state
  show "a \<le> b \<Longrightarrow> b \<le> a \<Longrightarrow> a = b"
    by (cases a; cases b) (simp_all add: less_eq_connection_state_def)
qed (auto simp: less_eq_connection_state_def less_connection_state_def)

end

record websocket_client = http_client +
  is_streaming :: bool
  is_connected :: connection_state
  wait_close :: bool
  time_wheel_id :: "64 word"
  time_wheel_heartbeat_id :: "64 word"
  decode_buffer :: bytes
  wb_header :: websocket_header

text \<open>\<^verbatim>\<open>new websocket_client\<close>; \<^verbatim>\<open>wb_header_\<close> has no initialiser and is written before it is read.\<close>

definition new_websocket_client :: "bytes \<Rightarrow> websocket_client" where
  "new_websocket_client rand =
     (let base = new_tcp_client rand in
      \<lparr>send_buffer_queue = send_buffer_queue base, recv_buffer = recv_buffer base, ip = ip base,
       port = port base, sockfd = sockfd base, client_id = client_id base, http_header = Map.empty,
       is_streaming = False, is_connected = NONE, wait_close = False,
       time_wheel_id = 0, time_wheel_heartbeat_id = 0, decode_buffer = [], wb_header = zero_header\<rparr>)"

definition get_message :: "websocket_client \<Rightarrow> bytes" where
  "get_message c = decode_buffer c"

definition get_path :: "websocket_client \<Rightarrow> bytes" where
  "get_path c = (case http_header c (bytes_of ''path'') of Some v \<Rightarrow> v | None \<Rightarrow> [])"

text \<open>
  The closures the server stores: one of the application's, or a lambda of
  \<^verbatim>\<open>register_recv_callback\<close> or \<^verbatim>\<open>register_sent_callback\<close> around one, which may be empty. The timer's
  tasks are the two lambdas of \<^verbatim>\<open>add_to_time_wheel_expire\<close> and \<^verbatim>\<open>add_to_time_wheel_heartbeat\<close>.
\<close>

datatype 'u closure = User 'u | Recv_wrapper "'u option" | Sent_wrapper "'u option"
datatype task = Expire_task addr | Heartbeat_task addr

record 'u websocket_process = "(task, websocket_client, 'u closure) process" +
  heartbeat :: bool
  wb_connected_f :: "'u option"
  clock :: int
  stack_rest :: bytes

record crypto =
  sha1 :: "bytes \<Rightarrow> bytes"
  encode_block :: "bytes \<Rightarrow> bytes"

section \<open>Sending\<close>

definition ws_send :: "addr \<Rightarrow> bytes \<Rightarrow> ('u, 'z) websocket_process_scheme \<Rightarrow> ('u, 'z) websocket_process_scheme res" where
  "ws_send a msg s = server_send_buffer a (send_frame msg) s"

definition send_without_frame :: "addr \<Rightarrow> bytes \<Rightarrow> ('u, 'z) websocket_process_scheme \<Rightarrow> ('u, 'z) websocket_process_scheme res" where
  "send_without_frame a d s = tcp_send a d s"

definition control_header :: "4 word \<Rightarrow> 7 word \<Rightarrow> websocket_header" where
  "control_header op n = zero_header
     \<lparr>op_bits := (op_bits zero_header)\<lparr>fin := True, opcode := op\<rparr>,
      payload := (payload zero_header)\<lparr>mask_flag := False, payload_len := n\<rparr>\<rparr>"

definition generate_websocket_pong_res :: bytes where
  "generate_websocket_pong_res = header_bytes (control_header PONG 0)"

definition generate_websocket_ping_res :: bytes where
  "generate_websocket_ping_res = header_bytes (control_header PING 0)"

text \<open>
  The closing frame: \<^verbatim>\<open>send_buffer += reinterpret_cast<char *>(&header)\<close> appends the bytes from the
  header on up to the next zero byte, on the stack behind it; \<^verbatim>\<open>send_buffer += htobe16(...)\<close> appends one
  \<^verbatim>\<open>char\<close>, the low byte of the swapped code.
\<close>

definition close_frame :: "bytes \<Rightarrow> close_flag \<Rightarrow> bytes res" where
  "close_frame stack flag =
     bnd (c_str (header_bytes (control_header CLOSE 2) @ stack)) (\<lambda>h.
     Inr (h @ [be16 (close_code flag) ! 0]))"

definition close_websocket_client ::
    "addr \<Rightarrow> close_flag \<Rightarrow> ('u, 'z) websocket_process_scheme \<Rightarrow> ('u, 'z) websocket_process_scheme res" where
  "close_websocket_client a flag s =
     bnd (close_frame (stack_rest s) flag) (\<lambda>send_buffer.
     bnd (send_without_frame a send_buffer s) (\<lambda>s1.
     bnd (deref a s1) (\<lambda>c.
     if heartbeat s1 \<and> time_wheel_heartbeat_id c \<noteq> 0 then
       bnd (erase_task (ucast (time_wheel_heartbeat_id c)) s1) (\<lambda>(found, s2).
       modify a (\<lambda>c. c\<lparr>time_wheel_heartbeat_id := 0\<rparr>) s2)
     else Inr s1)))"

definition ws_close :: "addr \<Rightarrow> ('u, 'z) websocket_process_scheme \<Rightarrow> ('u, 'z) websocket_process_scheme res" where
  "ws_close a s = close_websocket_client a SERVER_ERROR s"

section \<open>The timer's tasks\<close>

definition ws_destructor :: "addr \<Rightarrow> ('u, 'z) websocket_process_scheme \<Rightarrow> ('u, 'z) websocket_process_scheme res" where
  "ws_destructor a s =
     bnd (deref a s) (\<lambda>c.
     bnd (if time_wheel_id c \<noteq> 0 then bnd (erase_task (ucast (time_wheel_id c)) s) (\<lambda>(_, s1). Inr s1) else Inr s) (\<lambda>s1.
     if time_wheel_heartbeat_id c \<noteq> 0
     then bnd (erase_task (ucast (time_wheel_heartbeat_id c)) s1) (\<lambda>(_, s2). Inr s2) else Inr s1))"

definition add_to_time_wheel_expire :: "addr \<Rightarrow> close_flag \<Rightarrow> ('u, 'z) websocket_process_scheme \<Rightarrow> ('u, 'z) websocket_process_scheme res" where
  "add_to_time_wheel_expire a flag s =
     bnd (add_task (clock s) (Expire_task a) 10000 1 False 0 s) (\<lambda>(i, s1).
     modify a (\<lambda>c. c\<lparr>time_wheel_id := i\<rparr>) s1)"

definition add_to_time_wheel_heartbeat :: "addr \<Rightarrow> ('u, 'z) websocket_process_scheme \<Rightarrow> ('u, 'z) websocket_process_scheme res" where
  "add_to_time_wheel_heartbeat a s =
     bnd (add_task (clock s) (Heartbeat_task a) 3000 FULL_CIRCLE False 0 s) (\<lambda>(i, s1).
     modify a (\<lambda>c. c\<lparr>time_wheel_heartbeat_id := i\<rparr>) s1)"

definition remove_from_time_wheel :: "addr \<Rightarrow> ('u, 'z) websocket_process_scheme \<Rightarrow> ('u, 'z) websocket_process_scheme res" where
  "remove_from_time_wheel a s =
     bnd (deref a s) (\<lambda>c.
     bnd (erase_task (ucast (time_wheel_id c)) s) (\<lambda>(_, s1).
     modify a (\<lambda>c. c\<lparr>time_wheel_id := 0\<rparr>) s1))"

text \<open>
  Running a task. The lambda of \<^verbatim>\<open>add_to_time_wheel_expire\<close> has captured its parameter \<^verbatim>\<open>flag\<close> by
  reference; when the timer calls it, the parameter is gone, and the first thing it does is to read it.
\<close>

fun ws_run_task ::
    "task \<Rightarrow> bool \<Rightarrow> 64 word \<Rightarrow> ('u, 'z) websocket_process_scheme \<Rightarrow> ('u, 'z) websocket_process_scheme res" where
  "ws_run_task (Expire_task a) is_done i s = Inl Dangling_reference"
| "ws_run_task (Heartbeat_task a) is_done i s = send_without_frame a generate_websocket_ping_res s"

section \<open>Callbacks\<close>

text \<open>\<open>user\<close> runs the application's closures. Calling an empty \<^verbatim>\<open>std::function\<close> throws.\<close>

definition ws_call ::
    "('u \<Rightarrow> addr \<Rightarrow> ('u, 'z) websocket_process_scheme \<Rightarrow> ('u, 'z) websocket_process_scheme res)
     \<Rightarrow> 'u closure \<Rightarrow> addr \<Rightarrow> ('u, 'z) websocket_process_scheme \<Rightarrow> ('u, 'z) websocket_process_scheme res" where
  "ws_call user k a s = (case k of
       User u \<Rightarrow> user u a s
     | Recv_wrapper fn \<Rightarrow>
         bnd (deref a s) (\<lambda>c.
         if is_connected c = CONNECTED then
           (case fn of
              None \<Rightarrow> Inl Bad_function_call
            | Some u \<Rightarrow> bnd (user u a s) (\<lambda>s1. modify a (\<lambda>c. c\<lparr>decode_buffer := []\<rparr>) s1))
         else Inr s)
     | Sent_wrapper fn \<Rightarrow>
         bnd (deref a s) (\<lambda>c.
         bnd (if is_connected c = WAIT_SHAKE then
                bnd (modify a (\<lambda>c. c\<lparr>is_connected := CONNECTED\<rparr>) s) (\<lambda>s1.
                case wb_connected_f s1 of None \<Rightarrow> Inr s1 | Some u \<Rightarrow> user u a s1)
              else Inr s) (\<lambda>s2.
         case fn of None \<Rightarrow> Inr s2 | Some u \<Rightarrow> user u a s2)))"

definition ws_register_recv_callback :: "'u option \<Rightarrow> ('u, 'z) websocket_process_scheme \<Rightarrow> ('u, 'z) websocket_process_scheme" where
  "ws_register_recv_callback fn s = register_recv_callback (Some (Recv_wrapper fn)) s"

definition ws_register_connected_callback :: "'u option \<Rightarrow> ('u, 'z) websocket_process_scheme \<Rightarrow> ('u, 'z) websocket_process_scheme" where
  "ws_register_connected_callback fn s = s\<lparr>wb_connected_f := fn\<rparr>"

definition ws_register_sent_callback :: "'u option \<Rightarrow> ('u, 'z) websocket_process_scheme \<Rightarrow> ('u, 'z) websocket_process_scheme" where
  "ws_register_sent_callback fn s = register_sent_callback (Some (Sent_wrapper fn)) s"

definition ws_objects ::
    "('u \<Rightarrow> addr \<Rightarrow> ('u, 'z) websocket_process_scheme \<Rightarrow> ('u, 'z) websocket_process_scheme res)
     \<Rightarrow> ('u closure, ('u, 'z) websocket_process_scheme) objects" where
  "ws_objects user = \<lparr>call = ws_call user, destructor = ws_destructor\<rparr>"

section \<open>The handshake\<close>

text \<open>The 32 bytes of \<^verbatim>\<open>base64\<close> have to take the text and its terminator.\<close>

definition websocket_accept_key :: "crypto \<Rightarrow> bytes \<Rightarrow> bytes res" where
  "websocket_accept_key cr wb_key =
     (let data = wb_key @ bytes_of ''258EAFA5-E914-47DA-95CA-C5AB0DC85B11'';
          base64 = encode_block cr (sha1 cr data) @ [0]
      in if 32 < length base64 then Inl Out_of_bounds else c_str base64)"

definition CR_LF :: bytes where "CR_LF = [13, 10]"

definition generate_websocket_shake_hands_res :: "bytes \<Rightarrow> bytes" where
  "generate_websocket_shake_hands_res accept_key =
     bytes_of ''HTTP/1.1 101 Switching Protocols'' @ CR_LF
     @ bytes_of ''Upgrade: websocket'' @ CR_LF
     @ bytes_of ''Connection: Upgrade'' @ CR_LF
     @ bytes_of ''Sec-WebSocket-Accept: '' @ accept_key @ CR_LF
     @ CR_LF"

definition websocket_shake_hands ::
    "crypto \<Rightarrow> addr \<Rightarrow> ('u, 'z) websocket_process_scheme \<Rightarrow> (bool \<times> ('u, 'z) websocket_process_scheme) res" where
  "websocket_shake_hands cr a s =
     bnd (deref a s) (\<lambda>c.
     let refuse = bnd (close_websocket_client a PROTOCOL_ERROR s) (\<lambda>s1. Inr (False, s1)) in
     if http_header c (bytes_of ''Upgrade'') = Some (bytes_of ''websocket'')
        \<and> http_header c (bytes_of ''Connection'') = Some (bytes_of ''Upgrade'') then
       (case http_header c (bytes_of ''Sec-WebSocket-Key'') of
          None \<Rightarrow> refuse
        | Some key \<Rightarrow>
            bnd (websocket_accept_key cr key) (\<lambda>accept_key.
            bnd (send_without_frame a (generate_websocket_shake_hands_res accept_key) s) (\<lambda>s1.
            bnd (modify a (\<lambda>c. c\<lparr>is_connected := WAIT_SHAKE\<rparr>) s1) (\<lambda>s2. Inr (True, s2)))))
     else refuse)"

section \<open>Receiving\<close>

text \<open>
  \<^verbatim>\<open>decode_websocket_data_frame\<close> around the loop \<open>decode_loop\<close>: the check of the text uses the header the
  call started with.
\<close>

definition decode_websocket_data_frame ::
    "addr \<Rightarrow> ('u, 'z) websocket_process_scheme \<Rightarrow> (close_flag \<times> ('u, 'z) websocket_process_scheme) res" where
  "decode_websocket_data_frame a s =
     bnd (deref a s) (\<lambda>c.
     let header = wb_header c;
         streaming = is_streaming c \<or> \<not> fin (op_bits header) in
     bnd (decode_loop (recv_buffer c) (decode_buffer c) 2 header) (\<lambda>(flag, d, buf, header').
     let c1 = c\<lparr>is_streaming := streaming, recv_buffer := d, decode_buffer := buf\<rparr> in
     if flag \<noteq> SUCCESS then bnd (modify a (\<lambda>_. c1) s) (\<lambda>s1. Inr (flag, s1))
     else if opcode (op_bits header) = TEXT_FRAME \<and> fin (op_bits header) \<and> \<not> validate_utf8 buf
     then bnd (modify a (\<lambda>_. c1) s) (\<lambda>s1. Inr (INTERNAL_UTF8, s1))
     else bnd (modify a (\<lambda>_. c1\<lparr>wb_header := header'\<rparr>) s) (\<lambda>s1. Inr (SUCCESS, s1))))"

text \<open>\<^verbatim>\<open>PROTO_ERR(flag)\<close>.\<close>

definition proto_err :: "addr \<Rightarrow> close_flag \<Rightarrow> ('u, 'z) websocket_process_scheme \<Rightarrow> (bool \<times> ('u, 'z) websocket_process_scheme) res" where
  "proto_err a flag s = bnd (close_websocket_client a flag s) (\<lambda>s1. Inr (False, s1))"

text \<open>The first message of a connection, the request.\<close>

definition decode_handshake ::
    "crypto \<Rightarrow> addr \<Rightarrow> bytes \<Rightarrow> ('u, 'z) websocket_process_scheme \<Rightarrow> (bool \<times> ('u, 'z) websocket_process_scheme) res" where
  "decode_handshake cr a data s =
     bnd (http_decode_proto_data a data s) (\<lambda>(good, s1).
     if \<not> good then Inr (False, s1)
     else bnd (websocket_shake_hands cr a s1) (\<lambda>(shaken, s2).
       if shaken \<and> heartbeat s2
       then bnd (add_to_time_wheel_heartbeat a s2) (\<lambda>s3. Inr (False, s3))
       else Inr (False, s2)))"

text \<open>A closing frame of the peer.\<close>

definition on_close_frame ::
    "('u \<Rightarrow> addr \<Rightarrow> ('u, 'z) websocket_process_scheme \<Rightarrow> ('u, 'z) websocket_process_scheme res)
     \<Rightarrow> addr \<Rightarrow> ('u, 'z) websocket_process_scheme \<Rightarrow> ('u, 'z) websocket_process_scheme res" where
  "on_close_frame user a s =
     bnd (deref a s) (\<lambda>c.
     if \<not> wait_close c then
       bnd (if time_wheel_id c \<noteq> 0 then remove_from_time_wheel a s else Inr s) (\<lambda>s1.
       bnd (close_websocket_client a NORMAL_CLOSE s1) (\<lambda>s2.
       close_client (ws_objects user) a s2))
     else add_to_time_wheel_expire a NORMAL_CLOSE s)"

text \<open>The dispatch on the opcode, with \<^verbatim>\<open>wb_header_\<close> set.\<close>

definition dispatch_frame ::
    "('u \<Rightarrow> addr \<Rightarrow> ('u, 'z) websocket_process_scheme \<Rightarrow> ('u, 'z) websocket_process_scheme res)
     \<Rightarrow> addr \<Rightarrow> 4 word \<Rightarrow> ('u, 'z) websocket_process_scheme \<Rightarrow> (bool \<times> ('u, 'z) websocket_process_scheme) res" where
  "dispatch_frame user a op s =
     bnd (deref a s) (\<lambda>c.
     if op = CLOSE then bnd (on_close_frame user a s) (\<lambda>s1. Inr (False, s1))
     else if op = PONG then
       bnd (if time_wheel_id c \<noteq> 0 then remove_from_time_wheel a s else Inr s) (\<lambda>s1. Inr (False, s1))
     else if op = PING then
       bnd (send_without_frame a generate_websocket_pong_res s) (\<lambda>s1. Inr (False, s1))
     else
     bnd (if op = TEXT_FRAME \<or> op = BINARY_FRAME \<or> op = CONTINUATION_FRAME
          then decode_websocket_data_frame a s else Inr (SUCCESS, s)) (\<lambda>(ret, s1).
     if ret \<noteq> SUCCESS then proto_err a ret s1
     else bnd (deref a s1) (\<lambda>c1. Inr (fin (op_bits (wb_header c1)), s1))))"

text \<open>A message on an upgraded connection, with \<^verbatim>\<open>recv_buffer_\<close> set.\<close>

definition decode_frames ::
    "('u \<Rightarrow> addr \<Rightarrow> ('u, 'z) websocket_process_scheme \<Rightarrow> ('u, 'z) websocket_process_scheme res)
     \<Rightarrow> addr \<Rightarrow> ('u, 'z) websocket_process_scheme \<Rightarrow> (bool \<times> ('u, 'z) websocket_process_scheme) res" where
  "decode_frames user a s =
     bnd (deref a s) (\<lambda>c.
     if length (recv_buffer c) < 2 then
       bnd (modify a (\<lambda>c. c\<lparr>wait_close := True\<rparr>) s) (\<lambda>s1. proto_err a PROTOCOL_ERROR s1)
     else
     bnd (read_header (recv_buffer c) 0) (\<lambda>header.
     bnd (modify a (\<lambda>c. c\<lparr>wb_header := header\<rparr>) s) (\<lambda>s1.
     dispatch_frame user a (opcode (op_bits header)) s1)))"

definition ws_decode_proto_data ::
    "crypto \<Rightarrow> ('u \<Rightarrow> addr \<Rightarrow> ('u, 'z) websocket_process_scheme \<Rightarrow> ('u, 'z) websocket_process_scheme res)
     \<Rightarrow> addr \<Rightarrow> bytes \<Rightarrow> ('u, 'z) websocket_process_scheme \<Rightarrow> (bool \<times> ('u, 'z) websocket_process_scheme) res" where
  "ws_decode_proto_data cr user a data s =
     bnd (modify a (\<lambda>c. c\<lparr>recv_buffer := data\<rparr>) s) (\<lambda>s1.
     bnd (deref a s1) (\<lambda>c.
     if is_connected c = NONE then decode_handshake cr a data s1 else decode_frames user a s1))"

definition ws_hooks ::
    "crypto \<Rightarrow> ('u \<Rightarrow> addr \<Rightarrow> ('u, 'z) websocket_process_scheme \<Rightarrow> ('u, 'z) websocket_process_scheme res)
     \<Rightarrow> (websocket_client, 'u closure, ('u, 'z) websocket_process_scheme) hooks" where
  "ws_hooks cr user = objects.extend (ws_objects user)
     (hooks.fields (ws_decode_proto_data cr user) new_websocket_client)"

section \<open>Construction and destruction\<close>

definition websocket_server_init ::
    "bytes \<Rightarrow> int \<Rightarrow> bool \<Rightarrow> int \<Rightarrow> int \<Rightarrow> int \<Rightarrow> ('u, 'z) websocket_process_scheme \<Rightarrow> ('u, 'z) websocket_process_scheme res" where
  "websocket_server_init address p start_heartbeat fd bind_ret efd s =
     bnd (tcp_server_init address p fd bind_ret efd s) (\<lambda>s1.
     let s2 = s1\<lparr>heartbeat := start_heartbeat, wb_connected_f := None\<rparr> in
     bnd (if start_heartbeat then init_time_wheel (clock s2) 100 s2 else Inr s2) (\<lambda>s3.
     Inr (ws_register_sent_callback None s3)))"

fun say_goodbye :: "int list \<Rightarrow> ('u, 'z) websocket_process_scheme \<Rightarrow> ('u, 'z) websocket_process_scheme res" where
  "say_goodbye [] s = Inr s"
| "say_goodbye (fd # fds) s =
     bnd (it_second fd s) (\<lambda>a. bnd (close_websocket_client a GOING_AWAY s) (say_goodbye fds))"

definition websocket_server_destroy ::
    "crypto \<Rightarrow> ('u \<Rightarrow> addr \<Rightarrow> ('u, 'z) websocket_process_scheme \<Rightarrow> ('u, 'z) websocket_process_scheme res)
     \<Rightarrow> int list \<Rightarrow> ('u, 'z) websocket_process_scheme \<Rightarrow> ('u, 'z) websocket_process_scheme res" where
  "websocket_server_destroy cr user fds s =
     bnd (say_goodbye fds s) (tcp_server_destroy (ws_hooks cr user) fds)"

end
