(* ===== verification/Tcp_Correct.thy ===== *)
theory Tcp_Correct
  imports Tcp_Server
begin

text \<open>
  Correctness of the server's core: the table of clients and the heap describe each other
  (\<open>server_inv\<close>), every event keeps that, a write event sends the queue in order, and the
  interleavings of system call results under which the loop touches a deleted client.
\<close>

section \<open>The invariant\<close>

text \<open>
  Every entry of \<^verbatim>\<open>clients_\<close> is a live object that carries the entry's descriptor, an open one, and every
  live object has its entry, but for the objects \<open>D\<close> that \<^verbatim>\<open>close_client\<close> has taken out already.
\<close>

definition server_inv :: "addr set \<Rightarrow> ('f, 'x tcp_client_scheme, 'k, 'z) process_scheme \<Rightarrow> bool" where
  "server_inv D s \<longleftrightarrow>
     (\<forall>fd a. clients s fd = Some a \<longrightarrow> a \<notin> D \<and> fd \<in> open_fds s \<and> (\<exists>c. heap s a = Some c \<and> sockfd c = fd))
     \<and> (\<forall>a c. heap s a = Some c \<longrightarrow> a < next_addr s \<and> (a \<in> D \<or> clients s (sockfd c) = Some a))
     \<and> (\<forall>a \<in> D. heap s a \<noteq> None)"

abbreviation "server_ok s \<equiv> server_inv {} s"

lemma server_inv_client:
  "server_inv D s \<Longrightarrow> clients s fd = Some a \<Longrightarrow> \<exists>c. heap s a = Some c \<and> sockfd c = fd \<and> a \<notin> D \<and> fd \<in> open_fds s"
  by (auto simp: server_inv_def)

lemma server_inv_cong:
  "server_inv D s \<Longrightarrow> heap s' = heap s \<Longrightarrow> clients s' = clients s \<Longrightarrow> open_fds s' = open_fds s
   \<Longrightarrow> next_addr s' = next_addr s \<Longrightarrow> server_inv D s'"
  by (simp add: server_inv_def)

lemma deref_Inr [simp]: "deref a s = Inr c \<longleftrightarrow> heap s a = Some c"
  by (simp add: deref_def split: option.splits)

lemma deref_Inl [simp]: "deref a s = Inl e \<longleftrightarrow> heap s a = None \<and> e = Use_after_free"
  by (auto simp: deref_def split: option.splits)

lemma deref_live [simp]: "heap s a = Some c \<Longrightarrow> deref a s = Inr c"
  by simp

lemma deref_dead [simp]: "heap s a = None \<Longrightarrow> deref a s = Inl Use_after_free"
  by simp

lemma it_second_live [simp]: "clients s fd = Some a \<Longrightarrow> it_second fd s = Inr a"
  by (simp add: it_second_def)

lemma it_second_dead [simp]: "clients s fd = None \<Longrightarrow> it_second fd s = Inl Use_after_free"
  by (simp add: it_second_def)

lemma it_second_Inr [simp]: "it_second fd s = Inr a \<longleftrightarrow> clients s fd = Some a"
  by (simp add: it_second_def split: option.splits)

lemma modify_live [simp]: "heap s a = Some c \<Longrightarrow> modify a g s = Inr (s\<lparr>heap := (heap s)(a \<mapsto> g c)\<rparr>)"
  by (simp add: modify_def)

lemma modify_InrD: "modify a g s = Inr s' \<Longrightarrow> \<exists>c. heap s a = Some c \<and> s' = s\<lparr>heap := (heap s)(a \<mapsto> g c)\<rparr>"
  by (auto simp: modify_def)

text \<open>Changing a client object, but for its descriptor, keeps the invariant.\<close>

lemma server_inv_upd:
  "server_inv D s \<Longrightarrow> heap s a = Some c \<Longrightarrow> sockfd c' = sockfd c \<Longrightarrow> server_inv D (s\<lparr>heap := (heap s)(a \<mapsto> c')\<rparr>)"
  by (auto simp: server_inv_def) fastforce

lemma modify_inv:
  "modify a g s = Inr s' \<Longrightarrow> server_inv D s \<Longrightarrow> (\<And>c. sockfd (g c) = sockfd c) \<Longrightarrow> server_inv D s'"
  by (auto dest!: modify_InrD intro: server_inv_upd)

lemma ctl_simps [simp]:
  "heap (ctl_add fd ev s) = heap s" "clients (ctl_add fd ev s) = clients s"
  "open_fds (ctl_add fd ev s) = open_fds s" "next_addr (ctl_add fd ev s) = next_addr s"
  "heap (ctl_mod fd ev s) = heap s" "clients (ctl_mod fd ev s) = clients s"
  "open_fds (ctl_mod fd ev s) = open_fds s" "next_addr (ctl_mod fd ev s) = next_addr s"
  "heap (ctl_del fd s) = heap s" "clients (ctl_del fd s) = clients s"
  "open_fds (ctl_del fd s) = open_fds s" "next_addr (ctl_del fd s) = next_addr s"
  "wire (ctl_add fd ev s) = wire s" "wire (ctl_mod fd ev s) = wire s" "wire (ctl_del fd s) = wire s"
  by (simp_all add: ctl_add_def ctl_mod_def ctl_del_def)

lemma ctl_inv [simp]:
  "server_inv D (ctl_add fd ev s) = server_inv D s"
  "server_inv D (ctl_mod fd ev s) = server_inv D s"
  by (simp_all add: server_inv_def)

lemma take_bytes_simps [simp]:
  "heap (take_bytes fd d s) = heap s" "clients (take_bytes fd d s) = clients s"
  "open_fds (take_bytes fd d s) = open_fds s" "next_addr (take_bytes fd d s) = next_addr s"
  "wire (take_bytes fd d s) = (wire s)(fd := wire s fd @ d)"
  "take_bytes fd e (take_bytes fd d s) = take_bytes fd (d @ e) s" "take_bytes fd [] s = s"
  by (simp_all add: take_bytes_def)

lemma take_bytes_inv [simp]: "server_inv D (take_bytes fd d s) = server_inv D s"
  by (simp add: server_inv_def)

lemma server_send_buffer_inv: "server_send_buffer a d s = Inr s' \<Longrightarrow> server_inv D s \<Longrightarrow> server_inv D s'"
  by (auto simp: server_send_buffer_def elim!: modify_inv)

lemma sys_close_simps [simp]:
  "heap (sys_close fd s) = heap s" "clients (sys_close fd s) = clients s" "wire (sys_close fd s) = wire s"
  "next_addr (sys_close fd s) = next_addr s" "open_fds (sys_close fd s) = open_fds s - {fd}"
  "disconnect_f (sys_close fd s) = disconnect_f s" "disconnect_f (ctl_del fd s) = disconnect_f s"
  by (simp_all add: sys_close_def ctl_del_def)

text \<open>Taking a client out of the table and off the kernel: the first half of \<^verbatim>\<open>close_client\<close>.\<close>

definition detach :: "int \<Rightarrow> ('f, 'c, 'k, 'z) process_scheme \<Rightarrow> ('f, 'c, 'k, 'z) process_scheme" where
  "detach fd s = ctl_del fd (sys_close fd s)\<lparr>clients := (clients s)(fd := None)\<rparr>"

lemma detach_simps [simp]:
  "heap (detach fd s) = heap s" "clients (detach fd s) = (clients s)(fd := None)"
  "wire (detach fd s) = wire s" "disconnect_f (detach fd s) = disconnect_f s"
  "next_addr (detach fd s) = next_addr s" "open_fds (detach fd s) = open_fds s - {fd}"
  by (simp_all add: detach_def)

lemma detach_inv:
  assumes inv: "server_inv D s" and cl: "clients s fd = Some a"
  shows "server_inv (insert a D) (detach fd s)"
proof -
  have "a \<noteq> b" if "clients s fd' = Some b" "fd' \<noteq> fd" for fd' b
    using server_inv_client [OF inv cl] server_inv_client [OF inv that(1)] that(2) by auto
  then show ?thesis
    using assms unfolding server_inv_def by (auto split: if_splits) (metis option.inject, blast)
qed

lemma close_client_live:
  "heap s a = Some c \<Longrightarrow>
   close_client h a s = bnd (call_opt h (disconnect_f s) a (detach (sockfd c) s)) (delete_client h a)"
  by (simp add: close_client_def Let_def detach_def)

text \<open>The kernel hands out a descriptor that is not open.\<close>

definition fresh_fd :: "event \<Rightarrow> ('f, 'c, 'k, 'z) process_scheme \<Rightarrow> bool" where
  "fresh_fd e s \<longleftrightarrow> (case accepts e of None \<Rightarrow> True | Some (fd, peer, rand) \<Rightarrow> fd \<notin> open_fds s)"

text \<open>The process after \<^verbatim>\<open>accept\<close> returned \<open>fd\<close> and the client was entered.\<close>

definition accepted ::
    "('x tcp_client_scheme, 'k, ('f, 'x tcp_client_scheme, 'k, 'z) process_scheme) hooks \<Rightarrow> int \<Rightarrow> sockaddr_in \<Rightarrow> bytes
     \<Rightarrow> ('f, 'x tcp_client_scheme, 'k, 'z) process_scheme \<Rightarrow> ('f, 'x tcp_client_scheme, 'k, 'z) process_scheme" where
  "accepted h fd peer rand s =
     s\<lparr>open_fds := insert fd (open_fds s),
       heap := (heap s)(next_addr s \<mapsto> allocate_client h rand
         \<lparr>sockfd := fd, ip := inet_ntop (sin_addr peer), port := int (ntohs (sin_port peer))\<rparr>),
       next_addr := next_addr s + 1,
       clients := (clients s)(fd \<mapsto> next_addr s)\<rparr>"

lemma on_accept_accepted:
  assumes "accepts e = Some (fd, peer, rand)" and "clients s fd = None"
  shows "on_accept h e s = bnd (call_opt h (connected_f s) (next_addr s) (accepted h fd peer rand s))
           (\<lambda>s3. Inr (ctl_add fd (EPOLLIN OR EPOLLET) s3))"
  using assms by (simp add: on_accept_def decode_remote_client_def accepted_def Let_def)

lemma server_inv_new_fd: "server_inv D s \<Longrightarrow> fd \<notin> open_fds s \<Longrightarrow> clients s fd = None"
  by (cases "clients s fd") (auto simp: server_inv_def)

lemma accept_ok:
  assumes inv: "server_ok s" and new: "fd \<notin> open_fds s"
  shows "clients s fd = None" and "server_ok (accepted h fd peer rand s)"
    and "heap (accepted h fd peer rand s) (next_addr s) \<noteq> None"
proof -
  show none: "clients s fd = None" by (rule server_inv_new_fd [OF inv new])
  have "heap s (next_addr s) = None" using inv by (cases "heap s (next_addr s)") (auto simp: server_inv_def)
  then show "server_ok (accepted h fd peer rand s)"
    using inv none unfolding server_inv_def accepted_def by (auto simp: less_Suc_eq)
  show "heap (accepted h fd peer rand s) (next_addr s) \<noteq> None" by (simp add: accepted_def)
qed

text \<open>After \<^verbatim>\<open>close_client\<close> the object is gone; a buffer that does not end in it leaves the table alone.\<close>

lemma close_client_gone: "close_client h a s = Inr s' \<Longrightarrow> heap s' a = None"
  by (auto simp: close_client_def Let_def delete_client_def)

lemma send_loop_table:
  "send_loop h fd a rs buf s = Inr (rs', s') \<Longrightarrow> heap s' a = None \<or> clients s' = clients s \<and> heap s' = heap s"
proof (induction rs arbitrary: buf s)
  case Nil
  then show ?case by simp
next
  case (Cons r rs)
  show ?case
  proof (cases r)
    case (Sent n)
    let ?s1 = "take_bytes fd (take n buf) s"
    consider "n = 0" | "n \<noteq> 0" "length buf \<le> n" | "n \<noteq> 0" "n < length buf" by linarith
    then show ?thesis
    proof cases
      case 3
      with Cons.prems Sent have "send_loop h fd a rs (drop n buf) ?s1 = Inr (rs', s')" by (simp add: Let_def)
      from Cons.IH [OF this] show ?thesis by simp
    qed (use Cons.prems Sent in \<open>auto simp: Let_def dest: close_client_gone\<close>)
  qed (use Cons.prems in \<open>auto dest: close_client_gone\<close>)
qed

section \<open>Sending the queue\<close>

text \<open>A kernel that takes at least one byte per call needs no more calls than there are bytes.\<close>

definition accepting :: "send_result list \<Rightarrow> bool" where
  "accepting rs \<longleftrightarrow> (\<forall>r \<in> set rs. \<exists>n > 0. r = Sent n)"

lemma accepting_simps [simp]:
  "accepting []" "accepting (r # rs) \<longleftrightarrow> (\<exists>n > 0. r = Sent n) \<and> accepting rs"
  by (auto simp: accepting_def)

lemma accepting_drop: "accepting rs \<Longrightarrow> accepting (drop k rs)"
  by (auto simp: accepting_def dest: in_set_dropD)

lemma send_loop_accepting:
  "accepting rs \<Longrightarrow> buf \<noteq> [] \<Longrightarrow> length buf \<le> length rs
   \<Longrightarrow> \<exists>k \<le> length buf. send_loop h fd a rs buf s = Inr (drop k rs, take_bytes fd buf s)"
proof (induction rs arbitrary: buf s)
  case Nil
  then show ?case by simp
next
  case (Cons r rs)
  then obtain n where n: "r = Sent n" "0 < n" by auto
  show ?case
  proof (cases "length buf \<le> n")
    case True
    with n have "send_loop h fd a (r # rs) buf s = Inr (drop 1 (r # rs), take_bytes fd buf s)"
      by (simp add: Let_def)
    moreover have "1 \<le> length buf" using Cons.prems(2) by (simp add: Suc_le_eq)
    ultimately show ?thesis by blast
  next
    case False
    then have "drop n buf \<noteq> []" "length (drop n buf) \<le> length rs" using Cons.prems n by auto
    from Cons.IH [OF _ this, of "take_bytes fd (take n buf) s"] Cons.prems(1)
    obtain k where k: "k \<le> length (drop n buf)"
      and sl: "send_loop h fd a rs (drop n buf) (take_bytes fd (take n buf) s) = Inr (drop k rs, take_bytes fd buf s)"
      by auto
    have "send_loop h fd a (r # rs) buf s = Inr (drop (Suc k) (r # rs), take_bytes fd buf s)"
      using sl False n by (simp add: Let_def)
    moreover have "Suc k \<le> length buf" using k n False by simp
    ultimately show ?thesis by blast
  qed
qed

text \<open>The client with its queue replaced.\<close>

definition with_queue :: "addr \<Rightarrow> bytes list \<Rightarrow> ('f, 'x tcp_client_scheme, 'k, 'z) process_scheme \<Rightarrow> ('f, 'x tcp_client_scheme, 'k, 'z) process_scheme" where
  "with_queue a q s = s\<lparr>heap := (heap s)(a := map_option (\<lambda>c. c\<lparr>send_buffer_queue := q\<rparr>) (heap s a))\<rparr>"

lemma with_queue_simps [simp]:
  "with_queue a q (with_queue a q' s) = with_queue a q s"
  "with_queue a q (take_bytes fd d s) = take_bytes fd d (with_queue a q s)"
  "heap s a = Some c \<Longrightarrow> heap (with_queue a q s) a = Some (c\<lparr>send_buffer_queue := q\<rparr>)"
  "clients (with_queue a q s) = clients s" "wire (with_queue a q s) = wire s"
  by (auto simp: with_queue_def take_bytes_def option.map_comp comp_def)

lemma with_queue_same:
  "heap s a = Some c \<Longrightarrow> send_buffer_queue c = q \<Longrightarrow> with_queue a q s = s"
  by (cases s; cases c) (auto simp: with_queue_def)

lemma send_queue_step:
  "heap s a = Some c \<Longrightarrow> send_queue h fd a rs s =
     (case send_buffer_queue c of [] \<Rightarrow> Inr s
      | buf # q \<Rightarrow> bnd (send_loop h fd a rs buf (with_queue a q s)) (\<lambda>(rs', s2). send_queue h fd a rs' s2))"
  by (simp add: send_queue.simps [of h fd a rs s] with_queue_def split: list.splits)

lemma send_queue_accepting:
  "accepting rs \<Longrightarrow> heap s a = Some c \<Longrightarrow> send_buffer_queue c = q \<Longrightarrow> [] \<notin> set q \<Longrightarrow> length (concat q) \<le> length rs
   \<Longrightarrow> send_queue h fd a rs s = Inr (take_bytes fd (concat q) (with_queue a [] s))"
proof (induction q arbitrary: rs s c)
  case Nil
  then show ?case by (simp add: send_queue_step with_queue_same)
next
  case (Cons buf q)
  let ?s1 = "with_queue a q s" and ?c1 = "c\<lparr>send_buffer_queue := q\<rparr>"
  have buf: "buf \<noteq> []" "length buf \<le> length rs" "[] \<notin> set q" using Cons.prems by auto
  from send_loop_accepting [OF Cons.prems(1) buf(1,2)] obtain k where k: "k \<le> length buf"
    and sl: "send_loop h fd a rs buf ?s1 = Inr (drop k rs, take_bytes fd buf ?s1)" by blast
  have "send_queue h fd a (drop k rs) (take_bytes fd buf ?s1)
      = Inr (take_bytes fd (concat q) (with_queue a [] (take_bytes fd buf ?s1)))"
    using Cons.prems k buf(3) by (intro Cons.IH [of _ _ ?c1] accepting_drop) auto
  with sl Cons.prems(2,3) show ?case by (simp add: send_queue_step)
qed

section \<open>Which runs never touch a deleted client\<close>

text \<open>
  The results of system calls under which the loop stays with live objects: the peer's end of stream
  does not come in the same event as data, and no \<^verbatim>\<open>send\<close> fails or sends nothing.
\<close>

fun polite_recvs :: "bool \<Rightarrow> recv_result list \<Rightarrow> bool" where
  "polite_recvs data [] = True"
| "polite_recvs data (Received d # rs) = polite_recvs (data \<or> d \<noteq> []) rs"
| "polite_recvs data (End_of_stream # rs) = (\<not> data)"
| "polite_recvs data (Recv_again # rs) = True"
| "polite_recvs data (Recv_failed # rs) = polite_recvs data rs"

definition polite :: "event \<Rightarrow> bool" where
  "polite e \<longleftrightarrow> polite_recvs False (recvs e) \<and> Send_failed \<notin> set (sends e) \<and> Sent 0 \<notin> set (sends e)"

section \<open>The contract of the parts left open\<close>

text \<open>
  What an application may know about the process between its callbacks, \<open>good\<close>, is left alone by
  steps that keep its own part of the state, the callbacks, the listening socket and the objects it may hold.
\<close>

definition same_app :: "('f, 'c, 'k, 'z) process_scheme \<Rightarrow> ('f, 'c, 'k, 'z) process_scheme \<Rightarrow> bool" where
  "same_app s s' \<longleftrightarrow> process.more s' = process.more s \<and> disconnect_f s' = disconnect_f s
     \<and> connected_f s' = connected_f s \<and> recv_f s' = recv_f s \<and> sent_f s' = sent_f s \<and> listen_fd s' = listen_fd s
     \<and> (\<forall>a. heap s a \<noteq> None \<longrightarrow> heap s' a \<noteq> None)"

lemma same_app_simps [simp]:
  "same_app s s" "same_app s (ctl_add fd ev s)" "same_app s (ctl_mod fd ev s)"
  "same_app s (detach fd s)" "same_app s (take_bytes fd d s)" "same_app s (with_queue a q s)"
  "same_app s (s\<lparr>heap := (heap s)(a \<mapsto> c)\<rparr>)" "same_app s (accepted h fd peer rand s)"
  by (simp_all add: same_app_def ctl_add_def ctl_mod_def ctl_del_def detach_def sys_close_def take_bytes_def
      with_queue_def accepted_def)

lemma same_app_trans: "same_app s t \<Longrightarrow> same_app t u \<Longrightarrow> same_app s u"
  by (simp add: same_app_def)

text \<open>A process in order, the application's knowledge, and a pointer to a live object.\<close>

definition live ::
    "(('f, 'x tcp_client_scheme, 'k, 'z) process_scheme \<Rightarrow> bool) \<Rightarrow> addr set \<Rightarrow> addr
     \<Rightarrow> ('f, 'x tcp_client_scheme, 'k, 'z) process_scheme \<Rightarrow> bool" where
  "live G D a s \<longleftrightarrow> server_inv D s \<and> heap s a \<noteq> None \<and> G s"

lemma live_client: "server_inv D s \<Longrightarrow> G s \<Longrightarrow> clients s fd = Some a \<Longrightarrow> live G D a s"
  by (auto simp: live_def dest: server_inv_client)

lemma live_detached: "server_inv D s \<Longrightarrow> G s \<Longrightarrow> a \<in> D \<Longrightarrow> live G D a s"
  by (simp add: live_def server_inv_def)

text \<open>
  A callback and a destructor may do what they like with the process as long as they keep the
  invariant and stay with live objects. \<open>good D\<close> is what the application knows when it has been told
  that the objects \<open>D\<close> go; it is told by the \<^verbatim>\<open>disconnect\<close> callback, and the object stays until then.
\<close>

locale client_objects =
  fixes h :: "('k, ('f, 'x tcp_client_scheme, 'k, 'z) process_scheme, 'e) objects_scheme"
    and good :: "addr set \<Rightarrow> ('f, 'x tcp_client_scheme, 'k, 'z) process_scheme \<Rightarrow> bool"
  assumes good_frame: "good D s \<Longrightarrow> same_app s s' \<Longrightarrow> good D s'"
    and good_delete: "good {a} s \<Longrightarrow> good {} (s\<lparr>heap := (heap s)(a := None)\<rparr>)"
    and call_ok: "live (good {}) {} a s \<Longrightarrow> safe (call h k a s) (\<lambda>s'. server_ok s' \<and> good {} s')"
    and disconnect_ok: "live (good {}) {a} a s \<Longrightarrow> safe (call_opt h (disconnect_f s) a s) (live (good {a}) {a} a)"
    and destructor_ok: "live (good {a}) {a} a s \<Longrightarrow> safe (destructor h a s) (live (good {a}) {a} a)"
begin

definition ready :: "('f, 'x tcp_client_scheme, 'k, 'z) process_scheme \<Rightarrow> bool" where
  "ready s \<longleftrightarrow> server_ok s \<and> good {} s"

lemma readyI: "server_ok s' \<Longrightarrow> ready s \<Longrightarrow> same_app s s' \<Longrightarrow> ready s'"
  by (auto simp: ready_def intro: good_frame)

lemma ready_inv: "ready s \<Longrightarrow> server_ok s"
  by (simp add: ready_def)

lemma ready_take [simp]: "ready s \<Longrightarrow> ready (take_bytes fd d s)"
  by (rule readyI [of _ s]) (simp_all add: ready_inv)

lemma ready_ctl [simp]: "ready s \<Longrightarrow> ready (ctl_mod fd ev s)" "ready s \<Longrightarrow> ready (ctl_add fd ev s)"
  by (rule readyI [of _ s], simp_all add: ready_inv)+

lemma ready_queue [simp]: "ready s \<Longrightarrow> heap s a = Some c \<Longrightarrow> ready (with_queue a q s)"
  using server_inv_upd [of "{}" s a c] by (auto simp: with_queue_def ready_inv intro: readyI)

lemma ready_live: "ready s \<Longrightarrow> clients s fd = Some a \<Longrightarrow> live (good {}) {} a s"
  by (auto simp: ready_def intro: live_client)

lemma call_ready: "live (good {}) {} a s \<Longrightarrow> safe (call h k a s) ready"
  unfolding ready_def by (rule call_ok)

lemma call_opt_ready: "live (good {}) {} a s \<Longrightarrow> safe (call_opt h f a s) ready"
  by (auto simp: call_opt_def call_ready split: option.splits) (simp add: live_def ready_def)

lemma delete_ok:
  assumes l: "live (good {a}) {a} a s"
  shows "safe (delete_client h a s) ready"
proof -
  from l obtain c where "heap s a = Some c" by (auto simp: live_def)
  then have "delete_client h a s = bnd (destructor h a s) (\<lambda>s1. Inr (s1\<lparr>heap := (heap s1)(a := None)\<rparr>))"
    by (simp add: delete_client_def)
  moreover have "ready (s1\<lparr>heap := (heap s1)(a := None)\<rparr>)" if "live (good {a}) {a} a s1" for s1
    using that good_delete by (auto simp: live_def ready_def server_inv_def)
  ultimately show ?thesis by (simp only:) (rule safe_bnd [OF destructor_ok [OF l]], simp)
qed

lemma close_client_ok:
  assumes r: "ready s" and cl: "clients s fd = Some a"
  shows "safe (close_client h a s) ready"
proof -
  have inv: "server_ok s" and g: "good {} s" using r by (simp_all add: ready_def)
  from server_inv_client [OF inv cl] obtain c where c: "heap s a = Some c" "sockfd c = fd" by auto
  have l: "live (good {}) {a} a (detach fd s)"
    using live_detached [of "{a}" "detach fd s" "good {}" a] detach_inv [OF inv cl] good_frame [OF g, of "detach fd s"] by simp
  from disconnect_ok [OF l] have "safe (call_opt h (disconnect_f s) a (detach fd s)) (live (good {a}) {a} a)" by simp
  then show ?thesis
    using c by (auto simp: close_client_live intro: safe_bnd delete_ok)
qed

end

text \<open>A protocol decoder gets a live client, and where it reports a message the table is as before.\<close>

locale server_hooks = client_objects h good
  for h :: "('x tcp_client_scheme, 'k, ('f, 'x tcp_client_scheme, 'k, 'z) process_scheme) hooks"
    and good :: "addr set \<Rightarrow> ('f, 'x tcp_client_scheme, 'k, 'z) process_scheme \<Rightarrow> bool" +
  assumes decode_ok:
    "live (good {}) {} a s \<Longrightarrow> safe (decode_proto_data h a m s) (\<lambda>r. server_ok (snd r) \<and> good {} (snd r) \<and> (fst r \<longrightarrow> clients (snd r) = clients s))"
begin

lemma decode_ready:
  "live (good {}) {} a s \<Longrightarrow> safe (decode_proto_data h a m s) (\<lambda>r. ready (snd r) \<and> (fst r \<longrightarrow> clients (snd r) = clients s))"
  using decode_ok by (simp add: ready_def conj_assoc)

lemma recv_loop_ok:
  "ready s \<Longrightarrow> clients s fd = Some a \<Longrightarrow>
   safe (recv_loop h fd rs m s) (\<lambda>r. ready (snd r) \<and> (polite_recvs (m \<noteq> []) rs \<longrightarrow> fst r \<noteq> [] \<longrightarrow> snd r = s))"
proof (induction rs arbitrary: m)
  case Nil
  then show ?case by simp
next
  case (Cons r rs)
  show ?case
  proof (cases r)
    case (Received d)
    have "safe (recv_loop h fd rs (m @ d) s)
        (\<lambda>r. ready (snd r) \<and> (polite_recvs (m @ d \<noteq> []) rs \<longrightarrow> fst r \<noteq> [] \<longrightarrow> snd r = s))"
      by (rule Cons.IH [OF Cons.prems])
    then show ?thesis by (simp add: Received disj_imp)
  next
    case End_of_stream
    have "safe (close_client h a s) ready" by (rule close_client_ok [OF Cons.prems])
    then show ?thesis using Cons.prems by (auto simp: End_of_stream intro: safe_bnd)
  next
    case Recv_again
    then show ?thesis using Cons.prems by simp
  next
    case Recv_failed
    then show ?thesis using Cons.IH [OF Cons.prems] by simp
  qed
qed

lemma deliver_live:
  assumes inv: "ready s" and cl: "clients s fd = Some a"
  shows "safe (deliver h fd m s) ready"
proof -
  have "safe (call h k a s1) ready" if "ready s1" "clients s1 = clients s" for k s1
    using that cl ready_live [of s1 fd a] by (intro call_ready) simp
  then have "safe (bnd (decode_proto_data h a m s) (\<lambda>(ready, s1).
           if \<not> ready then Inr s1
           else bnd (it_second fd s1) (\<lambda>a1.
             case recv_f s1 of None \<Rightarrow> Inl Bad_function_call | Some k \<Rightarrow> call h k a1 s1))) ready"
    using cl by (intro safe_bnd [OF decode_ready [OF ready_live [OF inv cl]]]) (auto split: option.splits)
  with inv cl show ?thesis by (simp add: deliver_def)
qed

lemma deliver_inv:
  assumes "ready s"
  shows "ok (deliver h fd m s) ready"
proof (cases "clients s fd")
  case None
  with assms show ?thesis by (simp add: deliver_def)
next
  case (Some a)
  with deliver_live [OF assms this] show ?thesis by (simp add: safe_ok)
qed

lemma on_readable_inv: "ready s \<Longrightarrow> ok (on_readable h e s) ready"
  by (auto simp: on_readable_def intro!: ok_bnd [OF safe_ok [OF recv_loop_ok]] deliver_inv)

lemma on_readable_safe:
  assumes inv: "ready s" and p: "polite e"
  shows "safe (on_readable h e s) ready"
proof (cases "clients s (ev_fd e)")
  case None
  with inv show ?thesis by (simp add: on_readable_def)
next
  case (Some a)
  have "safe (deliver h (ev_fd e) m s1) ready" if "ready s1" "m \<noteq> [] \<longrightarrow> s1 = s" for m s1
  proof (cases "m = []")
    case True
    with that show ?thesis by (simp add: deliver_def)
  next
    case False
    with that deliver_live [OF inv Some] show ?thesis by simp
  qed
  then show ?thesis
    using p Some by (auto simp: on_readable_def polite_def intro!: safe_bnd [OF recv_loop_ok [OF inv Some]])
qed

lemma on_accept_safe:
  assumes inv: "ready s" and f: "fresh_fd e s"
  shows "safe (on_accept h e s) ready"
proof (cases "accepts e")
  case None
  with inv show ?thesis by (simp add: on_accept_def)
next
  case (Some acc)
  obtain fd peer rand where acc: "acc = (fd, peer, rand)" by (cases acc)
  with Some f have "fd \<notin> open_fds s" by (simp add: fresh_fd_def)
  note acc_ok = accept_ok [OF ready_inv [OF inv] this]
  have "live (good {}) {} (next_addr s) (accepted h fd peer rand s)" using acc_ok(2,3) inv good_frame [of "{}" s "accepted h fd peer rand s"] by (simp add: live_def ready_def)
  then show ?thesis
    using acc_ok(1) Some acc by (auto simp: on_accept_accepted intro!: safe_bnd [OF call_opt_ready])
qed

lemma send_loop_inv:
  "ready s \<Longrightarrow> clients s fd = Some a \<Longrightarrow> ok (send_loop h fd a rs buf s) (\<lambda>r. ready (snd r))"
proof (induction rs arbitrary: buf s)
  case Nil
  then show ?case by simp
next
  case (Cons r rs)
  have cl: "ok (bnd (close_client h a t) (\<lambda>s1. Inr (rs, s1))) (\<lambda>r. ready (snd r))"
    if "ready t" "clients t fd = Some a" for t
    using safe_ok [OF close_client_ok [OF that]] by (auto intro: ok_bnd)
  show ?case
    using Cons cl [of "take_bytes fd d s" for d] cl [of s] by (cases r) (auto simp: Let_def)
qed

text \<open>What the loop over the queue needs of one buffer: the client is still there, or the next read fails.\<close>

lemma send_queue_inv:
  "ready s \<Longrightarrow> clients s fd = Some a \<Longrightarrow> ok (send_queue h fd a rs s) (\<lambda>s'. ready s' \<and> clients s' fd = Some a)"
proof (induction rs arbitrary: s rule: length_induct)
  case (1 rs)
  from server_inv_client [OF ready_inv [OF 1(2)] 1(3)] obtain c where c: "heap s a = Some c" by auto
  show ?case
  proof (cases "send_buffer_queue c")
    case Nil
    with 1 c show ?thesis by (simp add: send_queue_step)
  next
    case (Cons buf q)
    have inv1: "ready (with_queue a q s)" using 1(2) c by simp
    have "ok (send_queue h fd a rs' s2) (\<lambda>s'. ready s' \<and> clients s' fd = Some a)"
      if sl: "send_loop h fd a rs buf (with_queue a q s) = Inr (rs', s2)" for rs' s2
    proof (cases "heap s2 a")
      case None
      then show ?thesis by (simp add: send_queue.simps [of h fd a rs' s2])
    next
      case (Some c2)
      with send_loop_table [OF sl] 1(3) have "clients s2 fd = Some a" by auto
      moreover have "ready s2" using okD [OF send_loop_inv [OF inv1] sl] 1(3) by simp
      ultimately show ?thesis using 1(1) send_loop_uses [OF sl] by blast
    qed
    then show ?thesis using c Cons by (auto simp: send_queue_step ok_def)
  qed
qed

lemma send_loop_safe:
  "Send_failed \<notin> set rs \<Longrightarrow> Sent 0 \<notin> set rs \<Longrightarrow>
   safe (send_loop h fd a rs buf s) (\<lambda>r. clients (snd r) = clients s \<and> heap (snd r) = heap s \<and> set (fst r) \<subseteq> set rs)"
proof (induction rs arbitrary: buf s)
  case Nil
  then show ?case by simp
next
  case (Cons r rs)
  have "safe (send_loop h fd a rs buf' (take_bytes fd d s))
     (\<lambda>r'. clients (snd r') = clients s \<and> heap (snd r') = heap s \<and> set (fst r') \<subseteq> set (r # rs))" for buf' d
    using Cons.IH [of buf' "take_bytes fd d s"] Cons.prems by (auto elim!: safe_mono)
  with Cons.prems show ?case by (cases r) (auto simp: Let_def)
qed

lemma send_queue_safe:
  "heap s a \<noteq> None \<Longrightarrow> Send_failed \<notin> set rs \<Longrightarrow> Sent 0 \<notin> set rs
   \<Longrightarrow> safe (send_queue h fd a rs s) (\<lambda>s'. heap s' a \<noteq> None)"
proof (induction rs arbitrary: s rule: length_induct)
  case (1 rs)
  then obtain c where c: "heap s a = Some c" by auto
  show ?case
  proof (cases "send_buffer_queue c")
    case Nil
    with c show ?thesis by (simp add: send_queue_step)
  next
    case (Cons buf q)
    let ?r = "send_loop h fd a rs buf (with_queue a q s)"
    have ne: "?r \<noteq> Inl Use_after_free"
      and keep: "ok ?r (\<lambda>r. heap (snd r) a \<noteq> None \<and> set (fst r) \<subseteq> set rs)"
      using send_loop_safe [OF 1(3,4), of fd a buf "with_queue a q s"] c by (auto simp: safe_def elim!: ok_mono)
    have "safe (send_queue h fd a rs' s2) (\<lambda>s'. heap s' a \<noteq> None)" if sl: "?r = Inr (rs', s2)" for rs' s2
    proof -
      have "heap s2 a \<noteq> None" "Send_failed \<notin> set rs'" "Sent 0 \<notin> set rs'"
        using okD [OF keep sl] 1(3,4) by auto
      with 1(1) send_loop_uses [OF sl] show ?thesis by blast
    qed
    with ne c Cons show ?thesis by (cases ?r) (auto simp: send_queue_step)
  qed
qed

lemma after_flush:
  assumes "ready s" and "clients s fd = Some a"
  shows "safe (bnd (deref a s) (\<lambda>c.
          let s2 = ctl_mod (sockfd c) (EPOLLIN OR EPOLLRDHUP OR EPOLLET) s in
          case sent_f s2 of
            None \<Rightarrow> Inr s2
          | Some k \<Rightarrow> bnd (it_second fd s2) (\<lambda>a2. call h k a2 s2))) ready"
proof -
  from server_inv_client [OF ready_inv [OF assms(1)] assms(2)] obtain c where c: "heap s a = Some c" by auto
  have "live (good {}) {} a (ctl_mod (sockfd c) ev s)" for ev
    using ready_live [of "ctl_mod (sockfd c) ev s" fd a] assms by simp
  with c assms show ?thesis by (auto simp: Let_def call_ready split: option.splits)
qed

lemma on_writable_inv: "ready s \<Longrightarrow> ok (on_writable h e s) ready"
  by (auto simp: on_writable_def intro!: ok_bnd [OF send_queue_inv] safe_ok [OF after_flush] split: option.splits)

lemma on_writable_safe:
  assumes inv: "ready s" and p: "polite e"
  shows "safe (on_writable h e s) ready"
proof (cases "clients s (ev_fd e)")
  case None
  with inv show ?thesis by (simp add: on_writable_def)
next
  case (Some a)
  have l: "heap s a \<noteq> None" using ready_live [OF inv Some] by (simp add: live_def)
  have q: "Send_failed \<notin> set (sends e)" "Sent 0 \<notin> set (sends e)" using p by (simp_all add: polite_def)
  have "safe (send_queue h (ev_fd e) a (sends e) s) (\<lambda>s'. ready s' \<and> clients s' (ev_fd e) = Some a)"
    using send_queue_safe [OF l q, of "ev_fd e"] send_queue_inv [OF inv Some] by (simp add: safe_def)
  then show ?thesis using Some by (auto simp: on_writable_def intro!: safe_bnd after_flush)
qed

lemma handle_event_inv: "ready s \<Longrightarrow> fresh_fd e s \<Longrightarrow> ok (handle_event h e s) ready"
  by (auto simp: handle_event_def on_readable_inv on_writable_inv safe_ok [OF on_accept_safe]
      safe_ok [OF close_client_ok] split: option.splits)

lemma handle_event_safe: "ready s \<Longrightarrow> fresh_fd e s \<Longrightarrow> polite e \<Longrightarrow> safe (handle_event h e s) ready"
  by (auto simp: handle_event_def on_readable_safe on_writable_safe on_accept_safe close_client_ok split: option.splits)

end

text \<open>A write event on a connection whose kernel accepts data.\<close>

definition drained :: "int \<Rightarrow> addr \<Rightarrow> bytes \<Rightarrow> ('f, 'x tcp_client_scheme, 'k, 'z) process_scheme \<Rightarrow> ('f, 'x tcp_client_scheme, 'k, 'z) process_scheme" where
  "drained fd a d s = ctl_mod fd (EPOLLIN OR EPOLLRDHUP OR EPOLLET) (take_bytes fd d (with_queue a [] s))"

lemma drained_simps [simp]:
  "heap (drained fd a d s) = (heap s)(a := map_option (\<lambda>c. c\<lparr>send_buffer_queue := []\<rparr>) (heap s a))"
  "clients (drained fd a d s) = clients s" "wire (drained fd a d s) = (wire s)(fd := wire s fd @ d)"
  "open_fds (drained fd a d s) = open_fds s" "next_addr (drained fd a d s) = next_addr s"
  "sent_f (drained fd a d s) = sent_f s" "listen_fd (drained fd a d s) = listen_fd s"
  "fd \<in> open_fds s \<Longrightarrow> interest s fd \<noteq> None
   \<Longrightarrow> interest (drained fd a d s) = (interest s)(fd \<mapsto> EPOLLIN OR EPOLLRDHUP OR EPOLLET)"
  by (simp_all add: drained_def ctl_mod_def take_bytes_def with_queue_def)

lemma drained_same [simp]: "same_app s (drained fd a d s)"
  by (simp add: drained_def ctl_mod_def take_bytes_def with_queue_def same_app_def)

lemma on_writable_drained:
  assumes "clients s (ev_fd e) = Some a" and "heap s a = Some c" and "sockfd c = ev_fd e"
    and "[] \<notin> set (send_buffer_queue c)" and "accepting (sends e)"
    and "length (concat (send_buffer_queue c)) \<le> length (sends e)"
  shows "on_writable h e s = call_opt h (sent_f s) a (drained (ev_fd e) a (concat (send_buffer_queue c)) s)"
proof -
  let ?s1 = "take_bytes (ev_fd e) (concat (send_buffer_queue c)) (with_queue a [] s)"
  let ?s2 = "ctl_mod (ev_fd e) (EPOLLIN OR EPOLLRDHUP OR EPOLLET) ?s1"
  have sq: "send_queue h (ev_fd e) a (sends e) s = Inr ?s1"
    by (rule send_queue_accepting [OF assms(5,2) refl assms(4,6)])
  have "sent_f ?s2 = sent_f s" "clients ?s2 = clients s"
    by (simp_all add: ctl_mod_def take_bytes_def with_queue_def)
  then show ?thesis
    using assms(1-3) sq by (auto simp: on_writable_def Let_def call_opt_def drained_def split: option.splits)
qed

lemma on_writable_flush:
  assumes "clients s (ev_fd e) = Some a" and "heap s a = Some c" and "sockfd c = ev_fd e"
    and "[] \<notin> set (send_buffer_queue c)" and "accepting (sends e)"
    and "length (concat (send_buffer_queue c)) \<le> length (sends e)"
  shows "\<exists>s'. on_writable h e s = call_opt h (sent_f s) a s'
    \<and> wire s' = (wire s)(ev_fd e := wire s (ev_fd e) @ concat (send_buffer_queue c))
    \<and> heap s' = (heap s)(a \<mapsto> c\<lparr>send_buffer_queue := []\<rparr>)
    \<and> clients s' = clients s \<and> same_app s s'
    \<and> (ev_fd e \<in> open_fds s \<longrightarrow> interest s (ev_fd e) \<noteq> None
        \<longrightarrow> interest s' (ev_fd e) = Some (EPOLLIN OR EPOLLRDHUP OR EPOLLET))"
  using on_writable_drained [OF assms, of h] assms(2)
  by (intro exI [of _ "drained (ev_fd e) a (concat (send_buffer_queue c)) s"]) simp

section \<open>The properties\<close>

text \<open>
  A write event on a connection whose kernel takes at least one byte per \<^verbatim>\<open>send\<close> puts the whole
  send queue on the wire, in order and nothing else, however the bytes are split over the calls; it
  empties the queue, goes back to waiting for input only, and then runs the \<^verbatim>\<open>sent\<close> callback.
\<close>

theorem write_event_flushes:
  assumes "clients s (ev_fd e) = Some a" and "heap s a = Some c" and "sockfd c = ev_fd e"
    and "[] \<notin> set (send_buffer_queue c)" and "accepting (sends e)"
    and "length (concat (send_buffer_queue c)) \<le> length (sends e)"
  shows "\<exists>s'. on_writable h e s = call_opt h (sent_f s) a s'
    \<and> wire s' = (wire s)(ev_fd e := wire s (ev_fd e) @ concat (send_buffer_queue c))
    \<and> heap s' = (heap s)(a \<mapsto> c\<lparr>send_buffer_queue := []\<rparr>)
    \<and> clients s' = clients s
    \<and> (ev_fd e \<in> open_fds s \<longrightarrow> interest s (ev_fd e) \<noteq> None
        \<longrightarrow> interest s' (ev_fd e) = Some (EPOLLIN OR EPOLLRDHUP OR EPOLLET))"
  using on_writable_flush [OF assms, of h] by blast

text \<open>A process with one client, connected as descriptor 7.\<close>

definition one_client :: "'c \<Rightarrow> ('f, 'c, 'k) process" where
  "one_client c = process_init\<lparr>heap := [0 \<mapsto> c], next_addr := 1, open_fds := {0, 1, 2, 3, 4, 7},
     interest := [3 \<mapsto> EPOLLIN OR EPOLLRDHUP OR EPOLLET, 7 \<mapsto> EPOLLIN OR EPOLLET],
     listen_fd := 3, epoll_fd := 4, clients := [7 \<mapsto> 0]\<rparr>"

lemma one_client_simps [simp]:
  "heap (one_client c) = [0 \<mapsto> c]" "clients (one_client c) = [7 \<mapsto> 0]" "wire (one_client c) = (\<lambda>_. [])"
  "open_fds (one_client c) = {0, 1, 2, 3, 4, 7}" "connected_f (one_client c) = None" "recv_f (one_client c) = None"
  "disconnect_f (one_client c) = None" "sent_f (one_client c) = None" "next_addr (one_client c) = 1"
  "interest (one_client c) = [3 \<mapsto> EPOLLIN OR EPOLLRDHUP OR EPOLLET, 7 \<mapsto> EPOLLIN OR EPOLLET]"
  "listen_fd (one_client c) = 3" "epoll_fd (one_client c) = 4"
  by (simp_all add: one_client_def process_init_def wheel.extend_def process.fields_def)

definition sample_client :: "bytes list \<Rightarrow> tcp_client" where
  "sample_client q = (new_tcp_client [])\<lparr>send_buffer_queue := q, sockfd := 7\<rparr>"

lemma sample_client_simps [simp]:
  "send_buffer_queue (sample_client q) = q" "sockfd (sample_client q) = 7"
  by (simp_all add: sample_client_def)

definition sample_event :: "recv_result list \<Rightarrow> send_result list \<Rightarrow> event" where
  "sample_event rs ss = \<lparr>ev_fd = 7, ev_events = EPOLLIN, accepts = None, recvs = rs, sends = ss\<rparr>"

lemma sample_event_simps [simp]:
  "ev_fd (sample_event rs ss) = 7" "recvs (sample_event rs ss) = rs" "sends (sample_event rs ss) = ss"
  by (simp_all add: sample_event_def)

definition sample_process :: "bytes list \<Rightarrow> (unit, tcp_client, unit) process" where
  "sample_process q = one_client (sample_client q)"

definition sample_hooks :: "(tcp_client, unit, (unit, tcp_client, unit) process) hooks" where
  "sample_hooks = base_hooks (\<lambda>_ _ s. Inr s)"

theorem write_event_flushes_witness:
  "\<exists>s'. on_writable sample_hooks (sample_event [] [Sent 1, Sent 9, Sent 2]) (sample_process [[1, 2], [3]]) = Inr s'
     \<and> wire s' 7 = [1, 2, 3]"
  using write_event_flushes [of "sample_process [[1, 2], [3]]" "sample_event [] [Sent 1, Sent 9, Sent 2]" 0
      "sample_client [[1, 2], [3]]" sample_hooks]
  by (auto simp: sample_process_def call_opt_def)

text \<open>
  C36: when data and the end of the stream are read in one event, the client is closed and deleted
  first, and then looked up again through the erased map entry to decode the data: a use after free.
\<close>

theorem eof_after_data_uses_freed:
  assumes "clients s (ev_fd e) = Some a" and "heap s a = Some c" and "sockfd c = ev_fd e"
    and "recvs e = map Received ds @ [End_of_stream]" and "concat ds \<noteq> []"
    and "close_client h a s = Inr s1" and "clients s1 (ev_fd e) = None"
  shows "on_readable h e s = Inl Use_after_free"
proof -
  have "recv_loop h (ev_fd e) (map Received ds @ [End_of_stream]) m s = Inr (m @ concat ds, s1)" for m
    using assms(1,6) by (induction ds arbitrary: m) simp_all
  with assms show ?thesis by (auto simp: on_readable_def deliver_def)
qed

theorem eof_after_data_uses_freed_witness:
  "on_readable sample_hooks (sample_event [Received [1], End_of_stream] []) (sample_process []) = Inl Use_after_free"
proof -
  have "close_client sample_hooks 0 (sample_process [])
      = Inr ((detach 7 (sample_process []))\<lparr>heap := (heap (sample_process []))(0 := None)\<rparr>)"
    by (simp add: close_client_live call_opt_def delete_client_def sample_process_def sample_hooks_def base_hooks_def)
  from eof_after_data_uses_freed [OF _ _ _ _ _ this, of "sample_event [Received [1], End_of_stream] []" "sample_client []" "[[1]]"]
  show ?thesis by (simp add: sample_process_def)
qed

text \<open>
  A \<^verbatim>\<open>recv\<close> that keeps failing with anything but \<^verbatim>\<open>EAGAIN\<close> (a reset connection, say) keeps the
  server in the loop: however often it fails, the loop asks again, and no other client is served.
\<close>

theorem recv_error_never_leaves:
  assumes "clients s (ev_fd e) \<noteq> None" and "recvs e = replicate n Recv_failed"
  shows "on_readable h e s = Inl Script_end"
proof -
  have "recv_loop h (ev_fd e) (replicate n Recv_failed) m s = Inl Script_end" for m
    by (induction n) simp_all
  with assms show ?thesis by (auto simp: on_readable_def)
qed

theorem recv_error_never_leaves_witness:
  "on_readable sample_hooks (sample_event (replicate 5 Recv_failed) []) (sample_process []) = Inl Script_end"
  using recv_error_never_leaves [of "sample_process []" "sample_event (replicate 5 Recv_failed) []" 5 sample_hooks]
  by (simp add: sample_process_def)

text \<open>
  Data sent from the \<^verbatim>\<open>connected\<close> callback stays in the queue without the socket ever being
  watched for writing: the callback runs before the descriptor joins the epoll instance, so the
  request for \<^verbatim>\<open>EPOLLOUT\<close> is refused, and the descriptor is then added for reading only.
\<close>

theorem connected_send_not_watched:
  assumes "server_ok s" and "fd \<notin> open_fds s" and "interest s fd = None"
    and "accepts e = Some (fd, peer, rand)" and "connected_f s = Some k"
    and "\<And>t. call h k (next_addr s) t = tcp_send (next_addr s) d t"
    and "send_buffer_queue (allocate_client h rand) = []"
  shows "\<exists>s' c. on_accept h e s = Inr s' \<and> heap s' (next_addr s) = Some c \<and> send_buffer_queue c = [d]
    \<and> interest s' fd = Some (EPOLLIN OR EPOLLET) \<and> wire s' = wire s"
proof -
  have none: "clients s fd = None" by (rule server_inv_new_fd [OF assms(1,2)])
  let ?a = "next_addr s" and ?t = "accepted h fd peer rand s"
  let ?c = "(allocate_client h rand)\<lparr>sockfd := fd, ip := inet_ntop (sin_addr peer), port := int (ntohs (sin_port peer)), send_buffer_queue := [d]\<rparr>"
  have live: "heap ?t ?a = Some ((allocate_client h rand)\<lparr>sockfd := fd, ip := inet_ntop (sin_addr peer), port := int (ntohs (sin_port peer))\<rparr>)"
    by (simp add: accepted_def)
  have no: "interest ?t fd = None" using assms(3) by (simp add: accepted_def)
  have "tcp_send ?a d ?t = Inr (?t\<lparr>heap := (heap ?t)(?a \<mapsto> ?c)\<rparr>)"
    using live no assms(7) by (simp add: tcp_send_def server_send_buffer_def ctl_mod_def)
  then have "on_accept h e s = Inr (ctl_add fd (EPOLLIN OR EPOLLET) (?t\<lparr>heap := (heap ?t)(?a \<mapsto> ?c)\<rparr>))"
    using assms(4-6) none by (simp add: on_accept_accepted call_opt_def)
  then show ?thesis
    using no by (simp add: ctl_add_def accepted_def)
qed

definition greeting_process :: "(unit, tcp_client, unit) process" where
  "greeting_process = process_init\<lparr>connected_f := Some (), listen_fd := 3\<rparr>"

definition greeting_hooks :: "(tcp_client, unit, (unit, tcp_client, unit) process) hooks" where
  "greeting_hooks = base_hooks (\<lambda>_ a s. tcp_send a (bytes_of ''hi'') s)"

theorem connected_send_not_watched_witness:
  "\<exists>s' c. on_accept greeting_hooks
       \<lparr>ev_fd = 3, ev_events = EPOLLIN, accepts = Some (7, \<lparr>sin_port = (0, 80), sin_addr = (127, 0, 0, 1)\<rparr>, []),
        recvs = [], sends = []\<rparr> greeting_process = Inr s'
     \<and> heap s' 0 = Some c \<and> send_buffer_queue c = [bytes_of ''hi''] \<and> interest s' 7 = Some (EPOLLIN OR EPOLLET)"
proof -
  have init: "server_ok greeting_process" "next_addr greeting_process = 0" "interest greeting_process 7 = None"
    "connected_f greeting_process = Some ()" "(7 :: int) \<notin> open_fds greeting_process"
    by (simp_all add: greeting_process_def process_init_def wheel.extend_def process.fields_def server_inv_def)
  let ?e = "\<lparr>ev_fd = 3, ev_events = EPOLLIN, accepts = Some (7, \<lparr>sin_port = (0, 80), sin_addr = (127, 0, 0, 1)\<rparr>, []),
        recvs = [], sends = []\<rparr>"
  have "accepts ?e = Some (7, \<lparr>sin_port = (0, 80), sin_addr = (127, 0, 0, 1)\<rparr>, [])" by simp
  from connected_send_not_watched [OF init(1,5,3) this init(4), of greeting_hooks "bytes_of ''hi''"] init(2)
  show ?thesis by (auto simp: greeting_hooks_def base_hooks_def new_tcp_client_def)
qed

text \<open>
  Destroying a server that still has clients is a use after free: the loop over \<^verbatim>\<open>clients_\<close> in
  \<^verbatim>\<open>~Tcp_server\<close> calls \<^verbatim>\<open>close_client\<close>, which erases the very entry the loop goes on from.
\<close>

theorem destroy_with_clients_uses_freed:
  assumes "clients s fd = Some a" and "close_client h a (sys_close (listen_fd s) s) = Inr s1" and "clients s1 fd = None"
  shows "tcp_server_destroy h (fd # fds) s = Inl Use_after_free"
  using assms by (simp add: tcp_server_destroy_def)

theorem destroy_with_clients_uses_freed_witness:
  "tcp_server_destroy sample_hooks [7] (sample_process []) = Inl Use_after_free"
proof -
  let ?s = "sys_close 3 (sample_process [])"
  have "close_client sample_hooks 0 ?s = Inr ((detach 7 ?s)\<lparr>heap := (heap ?s)(0 := None)\<rparr>)"
    by (simp add: close_client_live call_opt_def delete_client_def sample_process_def sample_hooks_def base_hooks_def)
  from destroy_with_clients_uses_freed [of "sample_process []" 7 0 sample_hooks _ "[]"] this
  show ?thesis by (simp add: sample_process_def)
qed

end
