(* ===== verification/Wheel_Slots.thy ===== *)
theory Wheel_Slots
  imports Time_Wheel "HOL-Library.Multiset"
begin

text \<open>
  Where the nodes of the timer stand. \<open>slots_ok\<close> says for every slot of \<^verbatim>\<open>tv_\<close> which expiry times its
  nodes may have; \<open>add_node\<close> keeps it, and the chain of cascades at the start of a tick brings the
  nodes of every block that begins with the tick down to the lower levels.
\<close>


section \<open>The bit operations as arithmetic\<close>

abbreviation width :: "nat \<Rightarrow> nat" where "width n \<equiv> 8 + n * 6"

lemma and_255: "e AND 255 = (e :: int) mod 256"
  using take_bit_eq_mask [of 8 e] by (simp add: take_bit_eq_mod mask_eq_exp_minus_1)

lemma and_63: "e AND 63 = (e :: int) mod 64"
  using take_bit_eq_mask [of 6 e] by (simp add: take_bit_eq_mod mask_eq_exp_minus_1)

lemma INDEX_eq: "INDEX v n = nat (v div 2 ^ width n mod 64)"
  by (simp add: INDEX_def and_63 drop_bit_eq_div)

lemma INDEX_less: "INDEX v n < 64"
  by (simp add: INDEX_eq nat_less_iff)

lemma OFFSET_inject:
  "n < 4 \<Longrightarrow> m < 4 \<Longrightarrow> i < 64 \<Longrightarrow> j < 64 \<Longrightarrow> OFFSET n + i = OFFSET m + j \<longleftrightarrow> n = m \<and> i = j"
proof -
  assume i: "i < 64" and j: "j < 64"
  have "n = m \<and> i = j" if eq: "n * 64 + i = m * 64 + j"
  proof -
    have n: "(n * 64 + i) div 64 = n" and m: "(m * 64 + j) div 64 = m" using i j by simp_all
    have "n = m" using n m unfolding eq by simp
    with eq show ?thesis by simp
  qed
  then show ?thesis by (auto simp: OFFSET_def)
qed

lemma OFFSET_ge: "256 \<le> OFFSET n + j"
  by (simp add: OFFSET_def)

lemma OFFSET_less: "n < 4 \<Longrightarrow> j < 64 \<Longrightarrow> OFFSET n + j < 512"
  by (simp add: OFFSET_def)

lemma nat_mod_eq: "0 < m \<Longrightarrow> nat (a mod m) = nat (b mod m) \<longleftrightarrow> a mod m = b mod (m :: int)"
  by (simp add: eq_nat_nat_iff)

section \<open>Where a node may stand\<close>

text \<open>
  With tick \<open>c\<close> next to run, a node of the first 256 slots is due within 256 ticks at its slot's
  tick, or overdue and in the slot that runs next.
\<close>

definition near_ok :: "int \<Rightarrow> nat \<Rightarrow> 'f time_node \<Rightarrow> bool" where
  "near_ok c ix v \<longleftrightarrow>
     c \<le> expire v \<and> expire v < c + 256 \<and> ix = nat (expire v mod 256)
     \<or> expire v < c \<and> ix = nat (c mod 256)"

text \<open>
  A node of level \<open>n\<close> lies in one of the 64 blocks behind the block that the level has last been
  cascaded for, in the slot of its block.
\<close>

definition far_ok :: "int \<Rightarrow> nat \<Rightarrow> nat \<Rightarrow> 'f time_node \<Rightarrow> bool" where
  "far_ok b n j v \<longleftrightarrow>
     b div 2 ^ width n < expire v div 2 ^ width n
     \<and> expire v div 2 ^ width n \<le> b div 2 ^ width n + 64
     \<and> j = nat (expire v div 2 ^ width n mod 64)"

definition slots_ok :: "(nat \<Rightarrow> int) \<Rightarrow> int \<Rightarrow> 'f time_node list list \<Rightarrow> bool" where
  "slots_ok b c t \<longleftrightarrow>
     length t = 512
     \<and> (\<forall>ix < 256. \<forall>v \<in> set (t ! ix). near_ok c ix v)
     \<and> (\<forall>n < 4. \<forall>j < 64. \<forall>v \<in> set (t ! (OFFSET n + j)). far_ok (b n) n j v)"

definition place_ok :: "(nat \<Rightarrow> int) \<Rightarrow> int \<Rightarrow> nat \<Rightarrow> 'f time_node \<Rightarrow> bool" where
  "place_ok b c ix v \<longleftrightarrow>
     ix < 256 \<and> near_ok c ix v \<or> (\<exists>n < 4. \<exists>j < 64. ix = OFFSET n + j \<and> far_ok (b n) n j v)"

lemma slots_ok_length: "slots_ok b c t \<Longrightarrow> length t = 512"
  by (simp add: slots_ok_def)

lemma slots_ok_place:
  assumes "slots_ok b c t" and "ix < 512" and "v \<in> set (t ! ix)"
  shows "place_ok b c ix v"
proof (cases "ix < 256")
  case True
  with assms show ?thesis by (simp add: slots_ok_def place_ok_def)
next
  case False
  define n j where "n = (ix - 256) div 64" and "j = (ix - 256) mod 64"
  have ix: "ix = OFFSET n + j"
    using False by (simp add: n_def j_def OFFSET_def)
  moreover have "n < 4" "j < 64"
    using assms(2) False by (auto simp: n_def j_def)
  ultimately show ?thesis
    using assms(1,3) by (auto simp: slots_ok_def place_ok_def)
qed

lemma slots_ok_update:
  assumes "slots_ok b c t" and "ix < 512" and "\<forall>v \<in> set xs. place_ok b c ix v"
  shows "slots_ok b c (t[ix := xs])"
proof -
  have near: "near_ok c i v" if "i < 256" "v \<in> set (t[ix := xs] ! i)" for i v
  proof (cases "i = ix")
    case True
    with that assms have "place_ok b c i v" by (simp add: slots_ok_def)
    with \<open>i < 256\<close> show ?thesis using OFFSET_ge by (auto simp: place_ok_def) (metis leD)
  next
    case False
    with that assms show ?thesis by (simp add: slots_ok_def)
  qed
  have far: "far_ok (b n) n j v" if "n < 4" "j < 64" "v \<in> set (t[ix := xs] ! (OFFSET n + j))" for n j v
  proof (cases "OFFSET n + j = ix")
    case True
    with that assms have "place_ok b c (OFFSET n + j) v" by (simp add: slots_ok_def)
    with that OFFSET_ge [of n j] show ?thesis
      by (auto simp: place_ok_def OFFSET_inject)
  next
    case False
    with that assms show ?thesis by (simp add: slots_ok_def)
  qed
  show ?thesis
    using near far assms(1) by (simp add: slots_ok_def)
qed

text \<open>The block bounds of a level in terms of the distance to \<open>c\<close>.\<close>

lemma far_bounds:
  fixes e c :: int
  assumes w: "0 < w" and d: "w \<le> e - c" "e - c < 64 * w" and b: "b = c \<or> b = c - 1"
  shows "b div w < e div w" and "e div w \<le> b div w + 64"
proof -
  have "c div w + 1 = (c + w) div w" using w by (subst div_add_self2) auto
  also have "\<dots> \<le> e div w" using w d by (intro zdiv_mono1) linarith+
  finally have low: "c div w + 1 \<le> e div w" .
  have "b div w \<le> c div w" using b w by (auto intro: zdiv_mono1)
  with low show "b div w < e div w" by linarith
  have "e div w \<le> (b + 64 * w) div w" using w d b by (intro zdiv_mono1) auto
  also have "\<dots> = b div w + 64" using w by simp
  finally show "e div w \<le> b div w + 64" .
qed

lemma idx_pos: "0 \<le> d \<Longrightarrow> d < 2 ^ 62 \<Longrightarrow> (d :: int) mod 2 ^ 64 = d"
  by (rule mod_pos_pos_trivial) simp_all

lemma idx_neg: "- (2 ^ 62) < d \<Longrightarrow> d < 0 \<Longrightarrow> (d :: int) mod 2 ^ 64 = d + 2 ^ 64"
proof -
  assume d: "- (2 ^ 62) < d" "d < 0"
  have "d mod 2 ^ 64 = (d + 2 ^ 64) mod 2 ^ 64" by simp
  also have "\<dots> = d + 2 ^ 64" using d by (intro mod_pos_pos_trivial) simp_all
  finally show ?thesis .
qed

text \<open>\<open>add_node\<close> puts every node where it may stand.\<close>

lemma slot_of_place:
  assumes range: "- (2 ^ 62) < e - c" "e - c < 2 ^ 62" and s: "slot_of c e = (ix, e')"
    and b: "\<forall>n. b n = c \<or> b n = c - 1"
  shows "ix < 512 \<and> place_ok b c ix (v\<lparr>expire := e', slot := ix\<rparr>) \<and> e' = (if 2 ^ 32 - 1 < e - c then 2 ^ 32 - 1 + c else e)"
proof -
  have far: "OFFSET n + INDEX e n < 512 \<and> place_ok b c (OFFSET n + INDEX e n) (v\<lparr>expire := e, slot := i\<rparr>)"
    if "n < 4" "2 ^ width n \<le> e - c" "e - c < 64 * 2 ^ width n" for n e i
  proof -
    have "b n div 2 ^ width n < e div 2 ^ width n" "e div 2 ^ width n \<le> b n div 2 ^ width n + 64"
      by (rule far_bounds [OF _ that(2,3)]; use b in simp)+
    then have "far_ok (b n) n (INDEX e n) (v\<lparr>expire := e, slot := i\<rparr>)"
      by (simp add: far_ok_def INDEX_eq)
    then show ?thesis
      using that INDEX_less [of e n] by (auto simp: place_ok_def OFFSET_less)
  qed
  consider (late) "e < c" | (near) "c \<le> e" "e - c < 256"
    | (l0) "256 \<le> e - c" "e - c < 2 ^ 14" | (l1) "2 ^ 14 \<le> e - c" "e - c < 2 ^ 20"
    | (l2) "2 ^ 20 \<le> e - c" "e - c < 2 ^ 26" | (l3) "2 ^ 26 \<le> e - c" by fastforce
  then show ?thesis
  proof cases
    case late
    then have "(e - c) mod 2 ^ 64 = e - c + 2 ^ 64" using range by (intro idx_neg) simp_all
    then show ?thesis
      using s late range by (auto simp: slot_of_def Let_def and_255 place_ok_def near_ok_def nat_less_iff)
  next
    case near
    then have "(e - c) mod 2 ^ 64 = e - c" using range by (intro idx_pos) simp_all
    with s near show ?thesis
      by (auto simp: slot_of_def Let_def and_255 place_ok_def near_ok_def nat_less_iff)
  next
    case l0
    then have "(e - c) mod 2 ^ 64 = e - c" using range by (intro idx_pos) simp_all
    with s l0 far [of 0 e ix] show ?thesis by (auto simp: slot_of_def Let_def)
  next
    case l1
    then have "(e - c) mod 2 ^ 64 = e - c" using range by (intro idx_pos) simp_all
    with s l1 far [of 1 e ix] show ?thesis by (auto simp: slot_of_def Let_def)
  next
    case l2
    then have "(e - c) mod 2 ^ 64 = e - c" using range by (intro idx_pos) simp_all
    with s l2 far [of 2 e ix] show ?thesis by (auto simp: slot_of_def Let_def)
  next
    case l3
    then have "(e - c) mod 2 ^ 64 = e - c" using range by (intro idx_pos) simp_all
    with s l3 range far [of 3 e' ix] show ?thesis by (auto simp: slot_of_def Let_def split: if_splits)
  qed
qed


section \<open>The nodes of a wheel\<close>

definition nodes :: "('f, 'z) wheel_scheme \<Rightarrow> 'f time_node list" where
  "nodes s = concat (tv s)"

text \<open>A node without the slot it stands in, which moving changes.\<close>

definition key :: "'f time_node \<Rightarrow> 'f time_node" where
  "key v = v\<lparr>slot := 0\<rparr>"

definition keys :: "('f, 'z) wheel_scheme \<Rightarrow> 'f time_node multiset" where
  "keys s = mset (map key (nodes s))"

lemma key_simps [simp]:
  "expire (key v) = expire v" "interval (key v) = interval v" "node_id (key v) = node_id v"
  "circle_count (key v) = circle_count v" "task_fn (key v) = task_fn v"
  "key (v\<lparr>slot := i\<rparr>) = key v" "key (key v) = key v"
  by (simp_all add: key_def)

lemma mset_concat_update:
  "i < length t \<Longrightarrow> mset (concat (t[i := xs])) + mset (t ! i) = mset (concat t) + mset xs"
proof (induction t arbitrary: i)
  case Nil
  then show ?case by simp
next
  case (Cons y t)
  then show ?case by (cases i) (auto simp: ac_simps)
qed

lemma mset_concat_clear:
  "i < length t \<Longrightarrow> mset (concat t) = mset (concat (t[i := []])) + mset (t ! i)"
  using mset_concat_update [of i t "[]"] by simp

lemma mset_concat_append:
  "i < length t \<Longrightarrow> mset (concat (t[i := t ! i @ xs])) = mset (concat t) + mset xs"
  using mset_concat_update [of i t "t ! i @ xs"] by (simp add: ac_simps)

lemma in_nodes_iff: "v \<in> set (nodes s) \<longleftrightarrow> (\<exists>i < length (tv s). v \<in> set (tv s ! i))"
  by (auto simp: nodes_def) (metis in_set_conv_nth)

lemma acquire_free [simp]: "\<not> locked s \<Longrightarrow> acquire s = Inr (s\<lparr>locked := True\<rparr>)"
  by (simp add: acquire_def)

lemma acquire_held [simp]: "locked s \<Longrightarrow> acquire s = Inl Spin_forever"
  by (simp add: acquire_def)

lemma acquire_InrD: "acquire s = Inr s' \<Longrightarrow> \<not> locked s \<and> s' = s\<lparr>locked := True\<rparr>"
  by (cases "locked s") auto

text \<open>What \<open>add_node\<close> leaves when the lock is free.\<close>

lemma add_node_free:
  assumes "\<not> locked s" and "slot_of (current s) (expire v) = (ix, e)"
  shows "add_node v s = Inr (s\<lparr>tv := (tv s)[ix := tv s ! ix @ [v\<lparr>expire := e, slot := ix\<rparr>]],
           id_map := (id_map s)(node_id v \<mapsto> ix)\<rparr>)"
  using assms by (cases s) (simp add: add_node_def release_def)

lemma add_node_InrD:
  assumes "add_node v s = Inr s'"
  obtains ix e where "\<not> locked s" and "slot_of (current s) (expire v) = (ix, e)"
    and "s' = s\<lparr>tv := (tv s)[ix := tv s ! ix @ [v\<lparr>expire := e, slot := ix\<rparr>]],
           id_map := (id_map s)(node_id v \<mapsto> ix)\<rparr>"
proof -
  obtain ix e where sl: "slot_of (current s) (expire v) = (ix, e)" by (cases "slot_of (current s) (expire v)")
  have free: "\<not> locked s" using assms by (auto simp: add_node_def sl dest!: acquire_InrD)
  with assms add_node_free [OF free sl] that sl show thesis by simp
qed

section \<open>Adding keeps the slots right\<close>

definition in_range :: "int \<Rightarrow> 'f time_node \<Rightarrow> bool" where
  "in_range c v \<longleftrightarrow> - (2 ^ 62) < expire v - c \<and> expire v - c < 2 ^ 62"

lemma add_node_slots:
  assumes s: "slots_ok b (current s) (tv s)" and free: "\<not> locked s" and v: "in_range (current s) v"
    and b: "\<forall>n. b n = current s \<or> b n = current s - 1"
  obtains ix s' where "add_node v s = Inr s'" and "ix < 512"
    and "s' = s\<lparr>tv := (tv s)[ix := tv s ! ix @ [v\<lparr>expire := min (expire v) (2 ^ 32 - 1 + current s), slot := ix\<rparr>]],
           id_map := (id_map s)(node_id v \<mapsto> ix)\<rparr>"
    and "slots_ok b (current s) (tv s')"
proof -
  obtain ix e where sl: "slot_of (current s) (expire v) = (ix, e)"
    by (cases "slot_of (current s) (expire v)")
  let ?v = "v\<lparr>expire := e, slot := ix\<rparr>"
  from slot_of_place [OF _ _ sl b, of v] v
  have ix: "ix < 512" and pl: "place_ok b (current s) ix ?v"
    and e: "e = min (expire v) (2 ^ 32 - 1 + current s)"
    by (auto simp: in_range_def min_def)
  have "slots_ok b (current s) ((tv s)[ix := tv s ! ix @ [?v]])"
    using slots_ok_place [OF s ix] pl by (intro slots_ok_update [OF s ix]) auto
  then show thesis
    using add_node_free [OF free sl] ix e by (intro that) auto
qed

lemma add_nodes_slots:
  assumes "slots_ok b (current s) (tv s)" and "\<not> locked s"
    and "\<forall>v \<in> set vs. current s \<le> expire v \<and> expire v - current s \<le> 2 ^ 32 - 1"
    and "\<forall>n. b n = current s \<or> b n = current s - 1"
  shows "\<exists>s'. add_nodes vs s = Inr s' \<and> slots_ok b (current s) (tv s') \<and> current s' = current s
     \<and> \<not> locked s' \<and> keys s' = keys s + mset (map key vs)"
  using assms
proof (induction vs arbitrary: s)
  case Nil
  then show ?case by simp
next
  case (Cons v vs)
  have "in_range (current s) v" using Cons.prems(3) by (simp add: in_range_def)
  from add_node_slots [OF Cons.prems(1,2) this Cons.prems(4)]
  obtain ix s1 where s1: "add_node v s = Inr s1" and ix: "ix < 512"
    and eq: "s1 = s\<lparr>tv := (tv s)[ix := tv s ! ix @ [v\<lparr>expire := min (expire v) (2 ^ 32 - 1 + current s), slot := ix\<rparr>]],
           id_map := (id_map s)(node_id v \<mapsto> ix)\<rparr>"
    and ok: "slots_ok b (current s) (tv s1)" by blast
  have "min (expire v) (2 ^ 32 - 1 + current s) = expire v" using Cons.prems(3) by auto
  then have "tv s1 = (tv s)[ix := tv s ! ix @ [v\<lparr>slot := ix\<rparr>]]" by (simp add: eq)
  then have keys: "keys s1 = keys s + {#key v#}"
    using mset_concat_append [of ix "map (map key) (tv s)" "[key v]"] slots_ok_length [OF Cons.prems(1)] ix
    by (simp add: keys_def nodes_def map_concat map_update)
  have cur: "current s1 = current s" "\<not> locked s1" using Cons.prems(2) by (simp_all add: eq)
  with Cons.prems ok have "\<exists>s'. add_nodes vs s1 = Inr s' \<and> slots_ok b (current s1) (tv s') \<and> current s' = current s1
     \<and> \<not> locked s' \<and> keys s' = keys s1 + mset (map key vs)"
    by (intro Cons.IH) auto
  with s1 keys cur show ?case by auto
qed

section \<open>Cascading\<close>

lemma div_minus_one:
  fixes c w :: int
  assumes "0 < w"
  shows "(c - 1) div w = (if c mod w = 0 then c div w - 1 else c div w)"
proof (cases "c mod w = 0")
  case True
  then have "w * (c div w) = c" using mult_div_mod_eq [of w c] by simp
  moreover have "w * (c div w - 1) = w * (c div w) - w" by (simp only: right_diff_distrib mult_1_right)
  ultimately have "c - 1 = w * (c div w - 1) + (w - 1)" by linarith
  then have "(c - 1) div w = c div w - 1" by (rule int_div_pos_eq) (use assms in simp_all)
  with True show ?thesis by simp
next
  case False
  have "c - 1 = w * (c div w) + (c mod w - 1)" by (simp add: algebra_simps)
  moreover have "0 \<le> c mod w - 1" "c mod w - 1 < w"
    using assms False pos_mod_sign [of w c] pos_mod_bound [of w c] by linarith+
  ultimately have "(c - 1) div w = c div w" by (intro int_div_pos_eq)
  with False show ?thesis by simp
qed

text \<open>A level whose block does not start at tick \<open>c\<close> is cascaded for \<open>c\<close> already.\<close>

lemma far_ok_shift: "c mod 2 ^ width n \<noteq> 0 \<Longrightarrow> far_ok (c - 1) n j v = far_ok c n j v"
  by (simp add: far_ok_def div_minus_one)

text \<open>The nodes a cascade takes are those of the block that starts now.\<close>

lemma far_ok_due_block:
  assumes ok: "far_ok (c - 1) n j v" and c: "c mod 2 ^ width n = 0"
  shows "j = INDEX c n \<Longrightarrow> c \<le> expire v \<and> expire v < c + 2 ^ width n"
    and "j \<noteq> INDEX c n \<Longrightarrow> far_ok c n j v"
proof -
  let ?w = "2 ^ width n :: int" and ?B = "expire v div 2 ^ width n"
  have b: "(c - 1) div ?w = c div ?w - 1" using c by (simp add: div_minus_one)
  have low: "c div ?w \<le> ?B" and high: "?B \<le> c div ?w + 63" and j: "j = nat (?B mod 64)"
    using ok by (simp_all add: far_ok_def b)
  have same: "nat (c div ?w mod 64) = nat (?B mod 64) \<longleftrightarrow> c div ?w = ?B"
  proof
    assume "nat (c div ?w mod 64) = nat (?B mod 64)"
    then have "c div ?w mod 64 = ?B mod 64" by (simp add: nat_mod_eq)
    then have "(?B - c div ?w) mod 64 = 0" by (intro mod_eq_dvd_iff [THEN iffD1, THEN dvd_imp_mod_0]) simp
    moreover have "(?B - c div ?w) mod 64 = ?B - c div ?w" using low high by (intro mod_pos_pos_trivial) simp_all
    ultimately show "c div ?w = ?B" by simp
  qed simp
  show "c \<le> expire v \<and> expire v < c + ?w" if "j = INDEX c n"
  proof -
    have B: "?B = c div ?w" using that same by (simp add: j INDEX_eq)
    have "c = ?w * (c div ?w)" using c by (metis add.right_neutral mult_div_mod_eq)
    moreover have "expire v = ?w * ?B + expire v mod ?w" by simp
    moreover have "0 \<le> expire v mod ?w" "expire v mod ?w < ?w" by simp_all
    ultimately show ?thesis unfolding B by linarith
  qed
  show "far_ok c n j v" if "j \<noteq> INDEX c n"
  proof -
    have "c div ?w \<noteq> ?B" using that same by (simp add: j INDEX_eq)
    with low high j show ?thesis by (simp add: far_ok_def)
  qed
qed

lemma cascade_slots:
  assumes s: "slots_ok b c (tv s)" and c: "current s = c" "c mod 2 ^ width n = 0" and n: "n < 4"
    and free: "\<not> locked s" and bn: "b n = c - 1" and b: "\<forall>n. b n = c \<or> b n = c - 1"
  shows "\<exists>s'. cascade n s = Inr (INDEX c n \<noteq> 0, s') \<and> slots_ok (b(n := c)) c (tv s')
     \<and> current s' = c \<and> \<not> locked s' \<and> keys s' = keys s"
proof -
  let ?j = "INDEX c n" and ?ix = "OFFSET n + INDEX c n"
  let ?s = "s\<lparr>tv := (tv s)[?ix := []]\<rparr>"
  have ix: "?ix < 512" by (rule OFFSET_less [OF n INDEX_less])
  have due: "c \<le> expire v \<and> expire v < c + 2 ^ width n" if "v \<in> set (tv s ! ?ix)" for v
    using that s n INDEX_less [of c n] bn by (intro far_ok_due_block(1) [OF _ c(2)]) (auto simp: slots_ok_def)
  have "slots_ok (b(n := c)) c (tv ?s)"
  proof -
    have "far_ok c n j v" if "j < 64" "v \<in> set ((tv s)[?ix := []] ! (OFFSET n + j))" for j v
    proof -
      have "j \<noteq> ?j" using that slots_ok_length [OF s] ix by (auto simp: nth_list_update)
      moreover have "far_ok (c - 1) n j v"
        using that s n bn \<open>j \<noteq> ?j\<close> by (auto simp: slots_ok_def)
      ultimately show ?thesis by (rule far_ok_due_block(2) [OF _ c(2), rotated])
    qed
    moreover have "slots_ok b c ((tv s)[?ix := []])"
      by (rule slots_ok_update [OF s ix]) simp
    ultimately show ?thesis by (simp add: slots_ok_def)
  qed
  moreover have "2 ^ width n \<le> (2 ^ 26 :: int)"
    using n by (intro power_increasing) simp_all
  then have "\<forall>v \<in> set (tv s ! ?ix). current ?s \<le> expire v \<and> expire v - current ?s \<le> 2 ^ 32 - 1"
    using due c(1) by fastforce
  moreover have "\<forall>m. (b(n := c)) m = current ?s \<or> (b(n := c)) m = current ?s - 1"
    using b c(1) by simp
  moreover have "\<not> locked ?s" using free by simp
  ultimately obtain s' where s': "add_nodes (tv s ! ?ix) ?s = Inr s'" "slots_ok (b(n := c)) c (tv s')"
      "current s' = c" "\<not> locked s'" "keys s' = keys ?s + mset (map key (tv s ! ?ix))"
    using add_nodes_slots [of "b(n := c)" ?s "tv s ! ?ix"] c(1) by auto
  have "keys ?s + mset (map key (tv s ! ?ix)) = keys s"
    using mset_concat_clear [of ?ix "map (map key) (tv s)"] slots_ok_length [OF s] ix
    by (simp add: keys_def nodes_def map_concat map_update)
  with s' c(1) show ?thesis by (auto simp: cascade_def Let_def)
qed


lemma INDEX_zero: "c mod 2 ^ width n = 0 \<Longrightarrow> INDEX c n = 0 \<longleftrightarrow> c mod 2 ^ width (Suc n) = 0"
proof -
  assume c: "c mod 2 ^ width n = 0"
  have "(2 :: int) ^ width (Suc n) = 2 ^ width n * 64" by (simp add: power_add)
  then have "c mod 2 ^ width (Suc n) = 2 ^ width n * (c div 2 ^ width n mod 64)"
    using c by (simp add: zmod_zmult2_eq)
  moreover have "0 \<le> c div 2 ^ width n mod 64" by simp
  then have "nat (c div 2 ^ width n mod 64) = 0 \<longleftrightarrow> c div 2 ^ width n mod 64 = 0" by linarith
  ultimately show ?thesis by (simp add: INDEX_eq)
qed

lemma slots_ok_shift:
  assumes "slots_ok b c t" and "\<forall>n < 4. b n = b' n \<or> (b n = c - 1 \<and> b' n = c \<and> c mod 2 ^ width n \<noteq> 0)"
  shows "slots_ok b' c t"
  unfolding slots_ok_def
proof (intro conjI allI impI ballI)
  fix n j v
  assume "n < 4" "j < 64" "v \<in> set (t ! (OFFSET n + j))"
  with assms have "far_ok (b n) n j v" by (simp add: slots_ok_def)
  with assms(2) \<open>n < 4\<close> show "far_ok (b' n) n j v" using far_ok_shift [of c n j v] by auto
qed (use assms(1) in \<open>simp_all add: slots_ok_def\<close>)

lemma mod_width_mono:
  assumes "c mod 2 ^ width n \<noteq> (0 :: int)" and "n \<le> m"
  shows "c mod 2 ^ width m \<noteq> 0"
proof
  assume "c mod 2 ^ width m = 0"
  moreover have "(2 :: int) ^ width n dvd 2 ^ width m" using assms(2) by (intro le_imp_power_dvd) simp
  ultimately have "2 ^ width n dvd c" by (meson dvd_eq_mod_eq_0 dvd_trans)
  with assms(1) show False by (simp add: dvd_eq_mod_eq_0)
qed

text \<open>
  The chain of cascades at tick \<open>c\<close> does each level whose block starts at \<open>c\<close>, stops at the first
  that does not, and so leaves every level cascaded for \<open>c\<close>.
\<close>

text \<open>
  The levels that have been cascaded at time \<open>c\<close> hold what is due after \<open>c\<close>, the others still what is due
  from \<open>c\<close> on; \<open>M\<close> is what the wheel holds.
\<close>

definition cascaded :: "nat \<Rightarrow> int \<Rightarrow> 'f time_node multiset \<Rightarrow> ('f, 'z) wheel_scheme \<Rightarrow> bool" where
  "cascaded n c M s \<longleftrightarrow> slots_ok (\<lambda>m. if m < n then c else c - 1) c (tv s) \<and> current s = c \<and> \<not> locked s \<and> keys s = M"

definition all_cascaded :: "int \<Rightarrow> 'f time_node multiset \<Rightarrow> ('f, 'z) wheel_scheme \<Rightarrow> bool" where
  "all_cascaded c M s \<longleftrightarrow> slots_ok (\<lambda>_. c) c (tv s) \<and> current s = c \<and> \<not> locked s \<and> keys s = M"

lemma cascaded_stop:
  assumes "cascaded n c M s" and "c mod 2 ^ width n \<noteq> 0"
  shows "all_cascaded c M s"
proof -
  have "\<forall>m. n \<le> m \<longrightarrow> \<not> 2 ^ width m dvd c"
    using mod_width_mono [OF assms(2)] by (simp add: dvd_eq_mod_eq_0)
  then have "\<forall>m < 4. (if m < n then c else c - 1) = c \<or> ((if m < n then c else c - 1) = c - 1 \<and> c = c \<and> c mod 2 ^ width m \<noteq> 0)"
    by (auto simp: dvd_eq_mod_eq_0)
  with assms(1) show ?thesis
    unfolding cascaded_def all_cascaded_def by (blast intro: slots_ok_shift)
qed

lemma cascaded_four: "cascaded 4 c M s \<Longrightarrow> all_cascaded c M s"
  unfolding cascaded_def all_cascaded_def using slots_ok_shift [of "\<lambda>m. if m < 4 then c else c - 1" c "tv s" "\<lambda>_. c"] by simp

lemma cascaded_step:
  assumes "cascaded n c M s" and "c mod 2 ^ width n = 0" and "n < 4"
  shows "\<exists>s'. cascade n s = Inr (INDEX c n \<noteq> 0, s') \<and> cascaded (Suc n) c M s'"
proof -
  let ?B = "\<lambda>m. if m < n then c else c - 1"
  have "?B(n := c) = (\<lambda>m. if m < Suc n then c else c - 1)" by (auto simp: less_Suc_eq)
  with cascade_slots [of ?B c s n] assms show ?thesis by (auto simp: cascaded_def)
qed

text \<open>One link of the chain in \<^verbatim>\<open>check\<close>: a level is cascaded, and the next one when its index was 0.\<close>

lemma cascaded_link:
  assumes "cascaded n c M s" and "c mod 2 ^ width n = 0" and "n < 4"
    and rest: "\<And>s'. cascaded (Suc n) c M s' \<Longrightarrow> c mod 2 ^ width (Suc n) = 0 \<Longrightarrow> \<exists>s''. rest s' = Inr s'' \<and> all_cascaded c M s''"
  shows "\<exists>s''. bnd (cascade n s) (\<lambda>(stop, s'). if stop then Inr s' else rest s') = Inr s'' \<and> all_cascaded c M s''"
proof -
  from cascaded_step [OF assms(1-3)] obtain s' where s': "cascade n s = Inr (INDEX c n \<noteq> 0, s')" "cascaded (Suc n) c M s'" by blast
  show ?thesis
  proof (cases "INDEX c n = 0")
    case True
    with s' rest [OF s'(2)] INDEX_zero [OF assms(2)] show ?thesis by simp
  next
    case False
    with INDEX_zero [OF assms(2)] have "c mod 2 ^ width (Suc n) \<noteq> 0" by simp
    with s' False cascaded_stop [OF s'(2)] show ?thesis by simp
  qed
qed

lemma cascades_slots:
  assumes s: "slots_ok (\<lambda>_. current s - 1) (current s) (tv s)" and free: "\<not> locked s"
  shows "\<exists>s'. cascades s = Inr s' \<and> slots_ok (\<lambda>_. current s) (current s) (tv s')
     \<and> current s' = current s \<and> \<not> locked s' \<and> keys s' = keys s"
proof -
  let ?c = "current s" and ?M = "keys s"
  have d0: "cascaded 0 ?c ?M s" using s free by (simp add: cascaded_def)
  have level3: "\<exists>s''. bnd (cascade 3 s') (\<lambda>(stop, s''). Inr s'') = Inr s'' \<and> all_cascaded ?c ?M s''"
    if "cascaded 3 ?c ?M s'" "?c mod 2 ^ width 3 = 0" for s' :: "('a, 'b) wheel_scheme"
    using cascaded_step [OF that] cascaded_four by auto
  have level2: "\<exists>s''. bnd (cascade 2 s') (\<lambda>(stop2, s2). if stop2 then Inr s2 else bnd (cascade 3 s2) (\<lambda>(stop, s''). Inr s''))
      = Inr s'' \<and> all_cascaded ?c ?M s''"
    if "cascaded 2 ?c ?M s'" "?c mod 2 ^ width 2 = 0" for s' :: "('a, 'b) wheel_scheme"
    by (rule cascaded_link [OF that]) (simp, rule level3, simp_all only: Suc_numeral semiring_norm)
  have level1: "\<exists>s''. bnd (cascade 1 s') (\<lambda>(stop1, s1). if stop1 then Inr s1 else
      bnd (cascade 2 s1) (\<lambda>(stop2, s2). if stop2 then Inr s2 else bnd (cascade 3 s2) (\<lambda>(stop, s''). Inr s'')))
      = Inr s'' \<and> all_cascaded ?c ?M s''"
    if "cascaded 1 ?c ?M s'" "?c mod 2 ^ width 1 = 0" for s' :: "('a, 'b) wheel_scheme"
    by (rule cascaded_link [OF that]) (simp, rule level2, simp_all only: Suc_1)
  have "\<exists>s'. cascades s = Inr s' \<and> all_cascaded ?c ?M s'"
  proof (cases "?c mod 2 ^ width 0 = 0")
    case False
    with cascaded_stop [OF d0 False] show ?thesis by (simp add: cascades_def and_255)
  next
    case True
    then have "?c AND 255 = 0" by (simp add: and_255)
    then show ?thesis
      unfolding cascades_def by (simp only: if_False simp_thms)
        (rule cascaded_link [OF d0 True], simp, rule level1, simp_all only: One_nat_def)
  qed
  then show ?thesis by (auto simp: all_cascaded_def)
qed

end
