(* ===== verification/Wheel_Tasks.thy ===== *)
theory Wheel_Tasks
  imports Wheel_Slots
begin

text \<open>
  The timer's contract: the invariant \<open>wheel_ok\<close>, that a tick takes exactly the due tasks, the map
  from ids to nodes, and that erasing removes exactly one task. The locale \<open>wheel_tasks\<close> is what the
  timer asks of the tasks it runs.
\<close>


section \<open>A tick runs exactly the tasks that are due\<close>

text \<open>
  The invariant of the wheel between ticks. Times stay below \<open>2 ^ 61\<close> milliseconds and intervals
  below \<open>2 ^ 60\<close>, so that differences fit into \<^verbatim>\<open>long long\<close> (the clock reaches \<open>2 ^ 61\<close>
  milliseconds in about 73 million years).
\<close>

definition wheel_ok :: "('f, 'z) wheel_scheme \<Rightarrow> bool" where
  "wheel_ok s \<longleftrightarrow>
     slots_ok (\<lambda>_. current s - 1) (current s) (tv s)
     \<and> (\<forall>v \<in> set (nodes s). 0 \<le> interval v \<and> interval v \<le> 2 ^ 60)
     \<and> 0 \<le> current s \<and> current s \<le> 2 ^ 61"

lemma wheel_ok_init: "wheel_ok (wheel_init :: 'f wheel)"
proof -
  have "OFFSET n + j < 512" if "n < 4" "j < 64" for n j using OFFSET_less that by simp
  then show ?thesis
    by (simp add: wheel_ok_def wheel_init_def slots_ok_def nodes_def)
qed

lemma keys_nodes: "set_mset (keys s) = key ` set (nodes s)"
  by (simp add: keys_def)

lemma intervals_keys:
  "(\<forall>v \<in> set (nodes s). P (interval v)) \<longleftrightarrow> (\<forall>v \<in># keys s. P (interval v))"
  by (simp add: keys_nodes)

lemma filter_mset_all: "(\<And>x. x \<in># M \<Longrightarrow> P x) \<Longrightarrow> filter_mset P M = M"
  by (induction M) auto

lemma filter_mset_none: "(\<And>x. x \<in># M \<Longrightarrow> \<not> P x) \<Longrightarrow> filter_mset P M = {#}"
  by (induction M) auto

text \<open>At time \<open>c\<close> the slot of \<open>c\<close> holds what is due, and all other slots what is due later.\<close>

lemma near_due:
  assumes "near_ok c (nat (c mod 256)) v"
  shows "expire v \<le> c"
proof (cases "expire v < c")
  case False
  with assms have e: "c \<le> expire v" "expire v < c + 256" and m: "expire v mod 256 = c mod 256"
    by (auto simp: near_ok_def nat_mod_eq)
  from m have "(expire v - c) mod 256 = 0"
    by (intro mod_eq_dvd_iff [THEN iffD1, THEN dvd_imp_mod_0])
  moreover have "(expire v - c) mod 256 = expire v - c"
    using e by (intro mod_pos_pos_trivial) simp_all
  ultimately show ?thesis by simp
qed simp

lemma elsewhere_later:
  assumes pl: "place_ok (\<lambda>_. c) c i v" and i: "i \<noteq> nat (c mod 256)"
  shows "c < expire v" "place_ok (\<lambda>_. c) (c + 1) i v"
proof -
  have "c < expire v \<and> place_ok (\<lambda>_. c) (c + 1) i v"
  proof (cases "i < 256")
    case True
    with pl OFFSET_ge have "near_ok c i v" by (auto simp: place_ok_def) (metis leD)
    then have e: "c \<le> expire v" "expire v < c + 256" "i = nat (expire v mod 256)"
      using i by (auto simp: near_ok_def)
    with i have "expire v \<noteq> c" by auto
    with e True show ?thesis by (simp add: place_ok_def near_ok_def)
  next
    case False
    with pl obtain n j where f: "n < 4" "j < 64" "i = OFFSET n + j" "far_ok c n j v"
      by (auto simp: place_ok_def)
    then have "c div 2 ^ width n < expire v div 2 ^ width n" by (simp add: far_ok_def)
    then have "c < expire v" by (rule contrapos_pp) (simp add: not_less zdiv_mono1)
    with f show ?thesis by (auto simp: place_ok_def)
  qed
  then show "c < expire v" "place_ok (\<lambda>_. c) (c + 1) i v" by simp_all
qed

lemma cleared_later:
  assumes ok: "slots_ok (\<lambda>_. c) c t" and i: "i < 512" "v \<in> set (t[nat (c mod 256) := []] ! i)"
  shows "c < expire v" "place_ok (\<lambda>_. c) (c + 1) i v"
proof -
  have "i \<noteq> nat (c mod 256)" using i slots_ok_length [OF ok] by auto
  with i have "v \<in> set (t ! i)" by simp
  with slots_ok_place [OF ok i(1)] have "place_ok (\<lambda>_. c) c i v" by simp
  from elsewhere_later [OF this \<open>i \<noteq> nat (c mod 256)\<close>] show "c < expire v" "place_ok (\<lambda>_. c) (c + 1) i v" .
qed

lemma slots_ok_cleared:
  assumes ok: "slots_ok (\<lambda>_. c) c t"
  shows "slots_ok (\<lambda>_. c) (c + 1) (t[nat (c mod 256) := []])"
  unfolding slots_ok_def
proof (intro conjI allI impI ballI)
  show "length (t[nat (c mod 256) := []]) = 512" using slots_ok_length [OF ok] by simp
next
  fix i v assume "i < 256" "v \<in> set (t[nat (c mod 256) := []] ! i)"
  with cleared_later(2) [OF ok, of i v] OFFSET_ge show "near_ok (c + 1) i v" by (auto simp: place_ok_def) (metis leD)
next
  fix n j v assume "n < 4" "j < 64" "v \<in> set (t[nat (c mod 256) := []] ! (OFFSET n + j))"
  with cleared_later(2) [OF ok, of "OFFSET n + j" v] OFFSET_less OFFSET_ge [of n j] show "far_ok c n j v"
    by (auto simp: place_ok_def OFFSET_inject)
qed

lemma mset_split_filter:
  assumes "M = A + B" and "\<And>x. x \<in># A \<Longrightarrow> P x" and "\<And>x. x \<in># B \<Longrightarrow> \<not> P x"
  shows "filter_mset P M = A" "filter_mset (\<lambda>x. \<not> P x) M = B"
  using assms filter_mset_all [of A P] filter_mset_none [of B P]
    filter_mset_none [of A "\<lambda>x. \<not> P x"] filter_mset_all [of B "\<lambda>x. \<not> P x"] by auto

lemma take_due_exact:
  assumes ok: "wheel_ok s" and free: "\<not> locked s" and small: "current s < 2 ^ 61"
  obtains temp s' where "take_due s = Inr (temp, s')" and "current s' = current s + 1"
    and "wheel_ok s'" and "\<not> locked s'"
    and "mset (map key temp) = filter_mset (\<lambda>v. expire v \<le> current s) (keys s)"
    and "keys s' = filter_mset (\<lambda>v. current s < expire v) (keys s)"
proof -
  let ?c = "current s" and ?ix = "nat (current s mod 256)"
  have ix: "?ix < 256" by (simp add: nat_less_iff)
  from ok have "slots_ok (\<lambda>_. ?c - 1) ?c (tv s)" by (simp add: wheel_ok_def)
  from cascades_slots [OF this free] obtain s1 where cs: "cascades s = Inr s1"
    and s1: "slots_ok (\<lambda>_. ?c) ?c (tv s1)" and cur1: "current s1 = ?c" and free1: "\<not> locked s1"
    and keys1: "keys s1 = keys s" by blast
  let ?temp = "tv s1 ! ?ix" and ?t = "(tv s1)[?ix := []]"
  define s' where "s' = s1\<lparr>current := ?c + 1, tv := ?t\<rparr>"
  have td: "take_due s = Inr (?temp, s')"
    using free1 by (cases s1) (simp add: take_due_def Let_def cs and_255 release_def cur1 [symmetric] s'_def)
  have split: "keys s = mset (map key ?temp) + keys s'"
    using mset_concat_clear [of ?ix "map (map key) (tv s1)"] slots_ok_length [OF s1] ix
    unfolding keys1 [symmetric]
    by (simp add: keys_def nodes_def s'_def map_concat map_update ac_simps)
  have "\<forall>v \<in># keys s. 0 \<le> interval v \<and> interval v \<le> 2 ^ 60"
    using ok intervals_keys [of s "\<lambda>x. 0 \<le> x \<and> x \<le> 2 ^ 60"] by (simp add: wheel_ok_def)
  then have "\<forall>v \<in> set (nodes s'). 0 \<le> interval v \<and> interval v \<le> 2 ^ 60"
    unfolding split intervals_keys [of s' "\<lambda>x. 0 \<le> x \<and> x \<le> 2 ^ 60"] by simp
  then have "wheel_ok s'"
    using ok small slots_ok_cleared [OF s1] by (simp add: wheel_ok_def s'_def)
  moreover have le: "expire v \<le> ?c" if "v \<in># mset (map key ?temp)" for v
    using that s1 ix near_due by (fastforce simp: slots_ok_def)
  moreover have gt: "\<not> expire v \<le> ?c" if "v \<in># keys s'" for v
  proof -
    from that obtain w where "w \<in> set (nodes s')" "v = key w" by (auto simp: keys_nodes)
    then obtain i where "i < length ?t" "w \<in> set (?t ! i)" by (auto simp: in_nodes_iff s'_def)
    with cleared_later(1) [OF s1, of i w] slots_ok_length [OF s1] \<open>v = key w\<close> show ?thesis by simp
  qed
  ultimately show thesis
    using free1 mset_split_filter [OF split le gt] by (intro that [OF td]) (simp_all add: s'_def not_le)
qed


section \<open>Adding, running and checking\<close>

lemma set_nth_update:
  "w \<in> set (t[ix := t ! ix @ [v]] ! i) \<Longrightarrow> i < length t \<Longrightarrow> w \<in> set (t ! i) \<or> w = v"
  by (cases "i = ix") auto

lemma wheel_ok_add_node:
  assumes ok: "wheel_ok s" and v: "in_range (current s) v" "0 \<le> interval v" "interval v \<le> 2 ^ 60"
    and r: "add_node v s = Inr s'"
  shows "wheel_ok s' \<and> current s' = current s \<and> locked s' = locked s"
proof -
  have free: "\<not> locked s" using r by (auto elim: add_node_InrD)
  from ok have "slots_ok (\<lambda>_. current s - 1) (current s) (tv s)" by (simp add: wheel_ok_def)
  from add_node_slots [OF this free v(1)] r
  obtain ix where ix: "ix < 512" and sl: "slots_ok (\<lambda>_. current s - 1) (current s) (tv s')"
    and s': "s' = s\<lparr>tv := (tv s)[ix := tv s ! ix @ [v\<lparr>expire := min (expire v) (2 ^ 32 - 1 + current s), slot := ix\<rparr>]],
           id_map := (id_map s)(node_id v \<mapsto> ix)\<rparr>" by auto
  have "\<forall>w \<in> set (nodes s'). 0 \<le> interval w \<and> interval w \<le> 2 ^ 60"
  proof
    fix w assume "w \<in> set (nodes s')"
    then have "w \<in> set (nodes s) \<or> interval w = interval v"
      by (auto simp: in_nodes_iff s' dest: set_nth_update)
    then show "0 \<le> interval w \<and> interval w \<le> 2 ^ 60" using ok v by (auto simp: wheel_ok_def)
  qed
  with sl ok show ?thesis by (simp add: wheel_ok_def) (simp add: s')
qed

text \<open>A fresh task is in range whenever the clock and the wheel are.\<close>

lemma add_task_ok:
  assumes ok: "wheel_ok s" and now: "0 \<le> now" "now \<le> 2 ^ 61"
    and iv: "0 \<le> expiry" "expiry \<le> 2 ^ 60" and delay: "0 \<le> delay" "delay \<le> 2 ^ 59"
    and r: "add_task now f expiry cnt immediate delay s = Inr (i, s')"
  shows "wheel_ok s' \<and> current s' = current s \<and> locked s' = locked s"
proof -
  obtain s1 where gi: "get_id s = (i, s1)" and s1: "s1 = s\<lparr>next_id := i + 1\<rparr>"
    using r by (auto simp: add_task_def get_id_def Let_def)
  let ?v = "\<lparr>task_fn = f, expire = now + (if immediate then delay else expiry + delay),
                  interval = expiry, circle_count = cnt, slot = 0, node_id = i\<rparr>"
  have "wheel_ok s1" using ok by (simp add: s1 wheel_ok_def nodes_def)
  moreover have "in_range (current s1) ?v"
    using now iv delay ok by (auto simp: in_range_def wheel_ok_def s1)
  moreover have "add_node ?v s1 = Inr s'" using r by (simp add: add_task_def gi)
  ultimately show ?thesis using wheel_ok_add_node [of s1 ?v s'] iv by (simp add: s1)
qed

text \<open>None of the steps takes the lock and keeps it, so a tick needs it free.\<close>

lemma add_node_locked: "add_node v s = Inr s' \<Longrightarrow> locked s' = locked s"
  by (auto elim: add_node_InrD)

lemma add_nodes_locked: "add_nodes vs s = Inr s' \<Longrightarrow> locked s' = locked s"
proof (induction vs arbitrary: s)
  case Nil
  then show ?case by simp
next
  case (Cons v vs)
  then obtain s1 where "add_node v s = Inr s1" and "add_nodes vs s1 = Inr s'" by auto
  with Cons.IH [of s1] add_node_locked [of v s s1] show ?case by simp
qed

lemma cascade_locked: "cascade n s = Inr (b, s') \<Longrightarrow> locked s' = locked s"
  by (auto simp: cascade_def Let_def dest!: add_nodes_locked)

lemma cascades_locked: "cascades s = Inr s' \<Longrightarrow> locked s' = locked s"
  by (auto simp: cascades_def split: if_splits dest!: cascade_locked)

lemma take_due_free: "take_due s = Inr (temp, s') \<Longrightarrow> \<not> locked s"
  by (auto simp: take_due_def Let_def dest!: acquire_InrD cascades_locked)

lemma add_node_ends: "add_node v s \<noteq> Inl Script_end"
  by (auto simp: add_node_def bnd_eq_Inl_iff acquire_def split: prod.splits option.splits)

lemma add_nodes_ends: "add_nodes vs s \<noteq> Inl Script_end"
  by (induction vs arbitrary: s) (auto simp: bnd_eq_Inl_iff add_node_ends)

lemma cascade_ends: "cascade n s \<noteq> Inl Script_end"
  by (auto simp: cascade_def Let_def bnd_eq_Inl_iff add_nodes_ends)

lemma cascades_ends: "cascades s \<noteq> Inl Script_end"
  by (auto simp: cascades_def bnd_eq_Inl_iff cascade_ends split: if_splits)

lemma take_due_ends: "take_due s \<noteq> Inl Script_end"
  by (auto simp: take_due_def Let_def bnd_eq_Inl_iff cascades_ends acquire_def split: option.splits)

text \<open>What the wheel asks of the tasks it runs.\<close>

locale wheel_tasks =
  fixes run :: "'f \<Rightarrow> bool \<Rightarrow> 64 word \<Rightarrow> ('f, 'z) wheel_scheme \<Rightarrow> ('f, 'z) wheel_scheme res"
  assumes run_current: "run f d i s = Inr s' \<Longrightarrow> current s' = current s"
    and run_ok: "run f d i s = Inr s' \<Longrightarrow> wheel_ok s \<Longrightarrow> wheel_ok s'"
    and run_ends: "run f d i s \<noteq> Inl Script_end"
begin

lemma run_node_ok:
  assumes "wheel_ok s" and "0 \<le> now" "now \<le> 2 ^ 61" and "0 \<le> interval v" "interval v \<le> 2 ^ 60"
    and r: "run_node run now v s = Inr s'"
  shows "wheel_ok s' \<and> current s' = current s"
proof -
  have ok': "wheel_ok (s\<lparr>id_map := m\<rparr>)" for m
    using assms(1) by (simp add: wheel_ok_def nodes_def)
  have added: "wheel_ok s1 \<and> current s1 = current s"
    if "add_node w s = Inr s1" "interval w = interval v" "expire w = now + interval v" for w s1
    using wheel_ok_add_node [OF assms(1) _ _ _ that(1)] that(2,3) assms
    by (auto simp: in_range_def wheel_ok_def)
  let ?w = "(if circle_count v = FULL_CIRCLE then v else v\<lparr>circle_count := circle_count v - 1\<rparr>)
    \<lparr>expire := now + interval v\<rparr>"
  show ?thesis
  proof (cases "circle_count v = FULL_CIRCLE \<or> circle_count v - 1 \<noteq> 0")
    case True
    then obtain s1 where s1: "add_node ?w s = Inr s1" and run: "run (task_fn v) False (node_id v) s1 = Inr s'"
      using r by (auto simp: run_node_def Let_def split: if_splits)
    from added [OF s1] run_ok [OF run] run_current [OF run] show ?thesis by simp
  next
    case False
    then have run: "run (task_fn v) True (node_id v) (s\<lparr>id_map := (id_map s)(node_id v := None)\<rparr>) = Inr s'"
      using r by (auto simp: run_node_def Let_def split: if_splits)
    from ok' run_ok [OF run] run_current [OF run] show ?thesis by simp
  qed
qed

lemma run_nodes_ok:
  "wheel_ok s \<Longrightarrow> 0 \<le> now \<Longrightarrow> now \<le> 2 ^ 61 \<Longrightarrow> \<forall>v \<in> set vs. 0 \<le> interval v \<and> interval v \<le> 2 ^ 60
   \<Longrightarrow> run_nodes run now vs s = Inr s' \<Longrightarrow> wheel_ok s' \<and> current s' = current s"
proof (induction vs arbitrary: s)
  case Nil
  then show ?case by simp
next
  case (Cons v vs)
  then obtain s1 where "run_node run now v s = Inr s1" and "run_nodes run now vs s1 = Inr s'" by auto
  with Cons run_node_ok [of s now v s1] show ?case by auto
qed

lemma tick_ok:
  assumes ok: "wheel_ok s" and now: "current s \<le> now" "now < 2 ^ 61" and r: "tick run now s = Inr s'"
  shows "wheel_ok s' \<and> current s' = current s + 1"
proof -
  obtain temp s1 where td: "take_due s = Inr (temp, s1)" and rn: "run_nodes run now temp s1 = Inr s'"
    using r by (auto simp: tick_def)
  have free: "\<not> locked s" using td by (rule take_due_free)
  have small: "current s < 2 ^ 61" using now by simp
  from take_due_exact [OF ok free small] td
  have s1: "wheel_ok s1" "current s1 = current s + 1"
    and due: "mset (map key temp) = filter_mset (\<lambda>v. expire v \<le> current s) (keys s)" by auto
  have "\<forall>v \<in> set temp. 0 \<le> interval v \<and> interval v \<le> 2 ^ 60"
  proof
    fix v assume "v \<in> set temp"
    then have "key v \<in># mset (map key temp)" by simp
    then have "key v \<in># keys s" unfolding due by simp
    with ok intervals_keys [of s "\<lambda>x. 0 \<le> x \<and> x \<le> 2 ^ 60"] show "0 \<le> interval v \<and> interval v \<le> 2 ^ 60"
      by (auto simp: wheel_ok_def)
  qed
  moreover have "0 \<le> now" "now \<le> 2 ^ 61" using ok now by (auto simp: wheel_ok_def)
  ultimately show ?thesis using run_nodes_ok [OF s1(1) _ _ _ rn] s1(2) by simp
qed

lemma check_loop_ok:
  "wheel_ok s \<Longrightarrow> now < 2 ^ 61 \<Longrightarrow> check_loop k run now s = Inr s'
   \<Longrightarrow> wheel_ok s' \<and> current s' = max (current s) (now + 1)"
proof (induction k arbitrary: s)
  case 0
  then show ?case by (auto split: if_splits)
next
  case (Suc k)
  show ?case
  proof (cases "current s \<le> now")
    case True
    with Suc.prems obtain s1 where t: "tick run now s = Inr s1" and l: "check_loop k run now s1 = Inr s'"
      by auto
    from tick_ok [OF Suc.prems(1) True Suc.prems(2) t] have s1: "wheel_ok s1" "current s1 = current s + 1" by simp_all
    from Suc.IH [OF s1(1) Suc.prems(2) l] s1(2) True show ?thesis by auto
  next
    case False
    with Suc.prems show ?thesis by auto
  qed
qed

lemma check_ok:
  "wheel_ok s \<Longrightarrow> now < 2 ^ 61 \<Longrightarrow> check run now s = Inr s' \<Longrightarrow> wheel_ok s' \<and> current s' = max (current s) (now + 1)"
  unfolding check_def by (rule check_loop_ok)

text \<open>The bound on the turns is enough: a check that does not come back is one whose task did not.\<close>

lemma run_node_ends: "run_node run now v s \<noteq> Inl Script_end"
  by (auto simp: run_node_def Let_def bnd_eq_Inl_iff run_ends add_node_ends)

lemma run_nodes_ends: "run_nodes run now vs s \<noteq> Inl Script_end"
  by (induction vs arbitrary: s) (auto simp: bnd_eq_Inl_iff run_node_ends)

lemma tick_ends: "tick run now s \<noteq> Inl Script_end"
  by (auto simp: tick_def bnd_eq_Inl_iff run_nodes_ends take_due_ends)

lemma check_loop_ends:
  "wheel_ok s \<Longrightarrow> now < 2 ^ 61 \<Longrightarrow> now + 1 - current s \<le> int k \<Longrightarrow> check_loop k run now s \<noteq> Inl Script_end"
proof (induction k arbitrary: s)
  case 0
  then show ?case by simp
next
  case (Suc k)
  show ?case
  proof
    assume e: "check_loop (Suc k) run now s = Inl Script_end"
    then have le: "current s \<le> now" by (auto split: if_splits)
    with e obtain s1 where t: "tick run now s = Inr s1" and l: "check_loop k run now s1 = Inl Script_end"
      by (auto simp: bnd_eq_Inl_iff tick_ends)
    from tick_ok [OF Suc.prems(1) le Suc.prems(2) t] Suc.IH [of s1] Suc.prems l show False by simp
  qed
qed

lemma check_ends: "wheel_ok s \<Longrightarrow> now < 2 ^ 61 \<Longrightarrow> check run now s \<noteq> Inl Script_end"
  unfolding check_def by (rule check_loop_ends) simp_all

end


section \<open>The map from ids to nodes\<close>

text \<open>
  \<^verbatim>\<open>id_map_\<close> and the slots agree, up to the ids in \<open>P\<close>, whose nodes are on their way between two
  slots or being run.
\<close>

definition ids_ok :: "64 word set \<Rightarrow> ('f, 'z) wheel_scheme \<Rightarrow> bool" where
  "ids_ok P s \<longleftrightarrow>
     length (tv s) = 512
     \<and> (\<forall>ix < 512. distinct (map node_id (tv s ! ix)))
     \<and> (\<forall>ix < 512. \<forall>v \<in> set (tv s ! ix). id_map s (node_id v) = Some ix \<and> node_id v \<notin> P)
     \<and> (\<forall>i ix. id_map s i = Some ix \<longrightarrow> i \<notin> P \<longrightarrow> ix < 512 \<and> i \<in> node_id ` set (tv s ! ix))"

lemma slot_of_less: "slot_of c e = (ix, e') \<Longrightarrow> ix < 512"
  using INDEX_less [of e 0] INDEX_less [of e 1] INDEX_less [of e 2] INDEX_less [of e' 3]
  by (auto simp: slot_of_def Let_def and_255 OFFSET_def nat_less_iff split: if_splits
      intro: order.strict_trans2 [of _ 256])

lemma ids_ok_init: "ids_ok {} (wheel_init :: 'f wheel)"
  by (simp add: ids_ok_def wheel_init_def)

lemma ids_ok_unknown:
  "ids_ok P s \<Longrightarrow> id_map s i = None \<or> i \<in> P \<Longrightarrow> ix < 512 \<Longrightarrow> i \<notin> node_id ` set (tv s ! ix)"
  by (auto simp: ids_ok_def)

lemma add_node_ids:
  assumes ok: "ids_ok P s" and fresh: "id_map s (node_id v) = None \<or> node_id v \<in> P"
    and r: "add_node v s = Inr s'"
  shows "ids_ok (P - {node_id v}) s'"
proof -
  from r obtain ix e where sl: "slot_of (current s) (expire v) = (ix, e)"
    and s': "s' = s\<lparr>tv := (tv s)[ix := tv s ! ix @ [v\<lparr>expire := e, slot := ix\<rparr>]],
           id_map := (id_map s)(node_id v \<mapsto> ix)\<rparr>" by (rule add_node_InrD)
  have ix: "ix < 512" by (rule slot_of_less [OF sl])
  have len: "length (tv s) = 512" using ok by (simp add: ids_ok_def)
  have new: "node_id v \<notin> node_id ` set (tv s ! i)" if "i < 512" for i
    using ids_ok_unknown [OF ok fresh that] .
  have a: "distinct (map node_id (tv s' ! i))" if "i < 512" for i
    using ok new [OF that] that len by (cases "i = ix") (auto simp: s' ids_ok_def)
  have b: "id_map s' (node_id w) = Some i \<and> node_id w \<notin> P - {node_id v}" if "i < 512" "w \<in> set (tv s' ! i)" for i w
  proof (cases "w = v\<lparr>expire := e, slot := ix\<rparr> \<and> i = ix")
    case True
    then show ?thesis by (simp add: s')
  next
    case False
    with that len have w: "w \<in> set (tv s ! i)" by (cases "i = ix") (auto simp: s')
    with new [OF that(1)] have "node_id w \<noteq> node_id v" by (metis image_eqI)
    with w ok that(1) show ?thesis by (auto simp: s' ids_ok_def)
  qed
  have c: "j < 512 \<and> i \<in> node_id ` set (tv s' ! j)" if "id_map s' i = Some j" "i \<notin> P - {node_id v}" for i j
  proof (cases "i = node_id v")
    case True
    with that ix len show ?thesis by (simp add: s')
  next
    case False
    with that ok have "j < 512" "i \<in> node_id ` set (tv s ! j)" by (auto simp: s' ids_ok_def)
    with len show ?thesis by (cases "j = ix") (auto simp: s')
  qed
  have d: "length (tv s') = 512" using len by (simp add: s')
  show ?thesis unfolding ids_ok_def using a b c d by blast
qed

lemma add_nodes_ids:
  "ids_ok P s \<Longrightarrow> node_id ` set vs \<subseteq> P \<Longrightarrow> distinct (map node_id vs) \<Longrightarrow> add_nodes vs s = Inr s'
   \<Longrightarrow> ids_ok (P - node_id ` set vs) s'"
proof (induction vs arbitrary: P s)
  case Nil
  then show ?case by simp
next
  case (Cons v vs)
  then obtain s1 where s1: "add_node v s = Inr s1" and vs: "add_nodes vs s1 = Inr s'" by auto
  have "ids_ok (P - {node_id v}) s1" using Cons.prems by (intro add_node_ids [OF _ _ s1]) auto
  moreover have "node_id v \<notin> node_id ` set vs" using Cons.prems by simp
  then have "node_id ` set vs \<subseteq> P - {node_id v}" using Cons.prems(2) by (simp add: subset_Diff_insert)
  moreover have "distinct (map node_id vs)" using Cons.prems by simp
  ultimately have "ids_ok (P - {node_id v} - node_id ` set vs) s'" using vs by (rule Cons.IH)
  moreover have "P - {node_id v} - node_id ` set vs = P - node_id ` set (v # vs)" by auto
  ultimately show ?case by simp
qed

text \<open>Moving a slot's list out makes its ids pending.\<close>

lemma clear_slot_ids:
  assumes ok: "ids_ok P s" and ix: "ix < 512"
  shows "ids_ok (P \<union> node_id ` set (tv s ! ix)) (s\<lparr>tv := (tv s)[ix := []]\<rparr>)"
proof -
  have other: "node_id v \<notin> node_id ` set (tv s ! ix)" if "i < 512" "i \<noteq> ix" "v \<in> set (tv s ! i)" for i v
    using ok that ix by (auto simp: ids_ok_def) (metis option.inject)
  then show ?thesis
    using ok ix by (auto simp: ids_ok_def nth_list_update)
qed

lemma cascade_ids: "cascade n s = Inr (b, s') \<Longrightarrow> n < 4 \<Longrightarrow> ids_ok P s \<Longrightarrow> ids_ok P s'"
proof -
  let ?ix = "OFFSET n + INDEX (current s) n"
  assume ok: "ids_ok P s" and n: "n < 4" and r: "cascade n s = Inr (b, s')"
  have ix: "?ix < 512" by (rule OFFSET_less [OF n INDEX_less])
  let ?Q = "node_id ` set (tv s ! ?ix)"
  have "distinct (map node_id (tv s ! ?ix))" "?Q \<inter> P = {}" using ok ix by (auto simp: ids_ok_def)
  moreover from this(2) have "P \<union> ?Q - ?Q = P" by auto
  moreover have "add_nodes (tv s ! ?ix) (s\<lparr>tv := (tv s)[?ix := []]\<rparr>) = Inr s'"
    using r by (auto simp: cascade_def Let_def)
  ultimately show ?thesis
    using add_nodes_ids [OF clear_slot_ids [OF ok ix], of "tv s ! ?ix" s'] by simp
qed

lemma cascade_ids_ok: "n < 4 \<Longrightarrow> ids_ok P s \<Longrightarrow> ok (cascade n s) (\<lambda>r. ids_ok P (snd r))"
  by (rule okI) (auto intro: cascade_ids)

lemma cascades_ids: "ids_ok P s \<Longrightarrow> cascades s = Inr s' \<Longrightarrow> ids_ok P s'"
proof -
  assume "ids_ok P s"
  then have "ok (cascades s) (ids_ok P)"
    by (auto simp: cascades_def intro!: ok_bnd [OF cascade_ids_ok] split: prod.splits)
  then show "cascades s = Inr s' \<Longrightarrow> ids_ok P s'" by (rule okD)
qed

lemma take_due_ids:
  assumes ok: "ids_ok {} s" and r: "take_due s = Inr (temp, s')"
  shows "ids_ok (node_id ` set temp) s' \<and> distinct (map node_id temp)"
proof -
  let ?ix = "nat (current s AND 255)"
  have ix: "?ix < 512" by (simp add: and_255 nat_less_iff order.strict_trans2 [of _ 256])
  from r obtain s1 where cs: "cascades s = Inr s1" and temp: "temp = tv s1 ! ?ix"
    and s': "s' = s1\<lparr>current := current s1 + 1, locked := False, tv := (tv s1)[?ix := []]\<rparr>"
    by (auto simp: take_due_def Let_def release_def dest!: acquire_InrD)
  have "ids_ok {} s1" by (rule cascades_ids [OF ok cs])
  from clear_slot_ids [OF this ix] this show ?thesis
    using ix by (auto simp: temp s' ids_ok_def)
qed

section \<open>Erasing a task\<close>

lemma mset_remove_node:
  "i \<in> node_id ` set xs \<Longrightarrow> distinct (map node_id xs)
   \<Longrightarrow> mset (remove_node i xs) = filter_mset (\<lambda>v. node_id v \<noteq> i) (mset xs)"
proof (induction xs)
  case Nil
  then show ?case by simp
next
  case (Cons v xs)
  show ?case
  proof (cases "node_id v = i")
    case True
    with Cons.prems have "i \<notin> node_id ` set xs" by auto
    then have "filter_mset (\<lambda>v. node_id v \<noteq> i) (mset xs) = mset xs" by (intro filter_mset_all) auto
    with True show ?thesis by simp
  next
    case False
    with Cons show ?thesis by auto
  qed
qed

lemma set_remove_node: "set (remove_node i xs) \<subseteq> set xs"
  by (induction xs) auto

lemma distinct_remove_node: "distinct (map node_id xs) \<Longrightarrow> distinct (map node_id (remove_node i xs))"
  by (induction xs) (auto dest: subsetD [OF set_remove_node])

lemma remove_node_gone: "distinct (map node_id xs) \<Longrightarrow> i \<notin> node_id ` set (remove_node i xs)"
  by (induction xs) auto

lemma remove_node_keeps: "k \<in> node_id ` set xs \<Longrightarrow> k \<noteq> i \<Longrightarrow> k \<in> node_id ` set (remove_node i xs)"
  by (induction xs) auto

text \<open>Slots after a node has left slot \<open>ix\<close>: every other node is where it was.\<close>

lemma id_elsewhere:
  "ids_ok P s \<Longrightarrow> id_map s i = Some ix \<Longrightarrow> j < 512 \<Longrightarrow> j \<noteq> ix \<Longrightarrow> v \<in> set (tv s ! j) \<Longrightarrow> node_id v \<noteq> i"
  by (auto simp: ids_ok_def)

lemma erased_slot:
  assumes ok: "ids_ok P s" and ix: "id_map s i = Some ix" "ix < 512" and j: "j < 512"
  shows "node_id ` set ((tv s)[ix := remove_node i (tv s ! ix)] ! j) = node_id ` set (tv s ! j) - {i}"
    and "set ((tv s)[ix := remove_node i (tv s ! ix)] ! j) \<subseteq> set (tv s ! j)"
proof -
  let ?r = "remove_node i (tv s ! ix)"
  have d: "distinct (map node_id (tv s ! ix))" and len: "length (tv s) = 512" using ok ix by (simp_all add: ids_ok_def)
  have "node_id ` set ?r = node_id ` set (tv s ! ix) - {i}"
    using remove_node_gone [OF d, of i] remove_node_keeps [of _ "tv s ! ix" i] set_remove_node [of i "tv s ! ix"] by blast
  then show "node_id ` set ((tv s)[ix := ?r] ! j) = node_id ` set (tv s ! j) - {i}"
    using j len id_elsewhere [OF ok ix(1) j] by (cases "j = ix") auto
  show "set ((tv s)[ix := ?r] ! j) \<subseteq> set (tv s ! j)"
    using j len set_remove_node [of i "tv s ! ix"] by (cases "j = ix") auto
qed

lemma erased_ids_ok:
  assumes ok: "ids_ok P s" and ix: "id_map s i = Some ix" "ix < 512"
  shows "ids_ok P (s\<lparr>tv := (tv s)[ix := remove_node i (tv s ! ix)], id_map := (id_map s)(i := None)\<rparr>)" (is "ids_ok P ?s")
  unfolding ids_ok_def
proof (intro conjI allI impI ballI)
  show "length (tv ?s) = 512" using ok by (simp add: ids_ok_def)
next
  fix j assume j: "j < (512 :: nat)"
  then have "distinct (map node_id (tv s ! j))" using ok by (simp add: ids_ok_def)
  then show "distinct (map node_id (tv ?s ! j))"
    using j ok distinct_remove_node [of "tv s ! ix" i] by (cases "j = ix") (simp_all add: ids_ok_def)
next
  fix j v assume j: "j < (512 :: nat)" "v \<in> set (tv ?s ! j)"
  with erased_slot [OF ok ix j(1)] have "v \<in> set (tv s ! j)" "node_id v \<noteq> i" by auto
  with ok j(1) show "id_map ?s (node_id v) = Some j" "node_id v \<notin> P" by (auto simp: ids_ok_def)
next
  fix k j assume "id_map ?s k = Some j" "k \<notin> P"
  with ok have "j < 512" "k \<in> node_id ` set (tv s ! j)" "k \<noteq> i" by (auto simp: ids_ok_def split: if_splits)
  with erased_slot(1) [OF ok ix, of j] show "j < 512" "k \<in> node_id ` set (tv ?s ! j)" by simp_all
qed

lemma erased_nodes:
  assumes ok: "ids_ok P s" and ix: "id_map s i = Some ix" "ix < 512" and m: "i \<in> node_id ` set (tv s ! ix)"
  shows "mset (concat ((tv s)[ix := remove_node i (tv s ! ix)])) = filter_mset (\<lambda>v. node_id v \<noteq> i) (mset (nodes s))"
proof -
  have d: "distinct (map node_id (tv s ! ix))" and len: "length (tv s) = 512" using ok ix by (simp_all add: ids_ok_def)
  have "node_id v \<noteq> i" if v: "v \<in> set (concat ((tv s)[ix := []]))" for v
  proof -
    from v obtain j where "j < 512" "v \<in> set ((tv s)[ix := []] ! j)" using len by (auto simp: in_set_conv_nth [of _ "(tv s)[ix := []]"])
    then show ?thesis using len id_elsewhere [OF ok ix(1), of j v] by (cases "j = ix") simp_all
  qed
  then have "mset (concat ((tv s)[ix := []])) = filter_mset (\<lambda>v. node_id v \<noteq> i) (mset (concat ((tv s)[ix := []])))"
    by (intro filter_mset_all [symmetric]) auto
  moreover have "mset (concat ((tv s)[ix := remove_node i (tv s ! ix)]))
      = mset (concat ((tv s)[ix := []])) + mset (remove_node i (tv s ! ix))"
    using mset_concat_update [of ix "(tv s)[ix := []]" "remove_node i (tv s ! ix)"] ix len by simp
  ultimately show ?thesis
    using mset_concat_clear [of ix "tv s"] ix len mset_remove_node [OF m d] by (simp add: nodes_def)
qed

lemma erase_task_known:
  fixes i :: "32 word"
  assumes ok: "ids_ok P s" and free: "\<not> locked s" and known: "id_map s (ucast i) = Some ix" "ucast i \<notin> P"
  obtains s' where "erase_task i s = Inr (True, s')" and "ids_ok P s'" and "\<not> locked s'"
    and "current s' = current s" and "id_map s' = (id_map s)(ucast i := None)"
    and "mset (nodes s') = filter_mset (\<lambda>v. node_id v \<noteq> ucast i) (mset (nodes s))"
proof -
  let ?i = "ucast i :: 64 word"
  define s' where "s' = s\<lparr>tv := (tv s)[ix := remove_node ?i (tv s ! ix)], id_map := (id_map s)(?i := None)\<rparr>"
  from ok known have ix: "ix < 512" and m: "?i \<in> node_id ` set (tv s ! ix)" by (auto simp: ids_ok_def)
  have "erase_task i s = Inr (True, s')"
    using free known m by (cases s) (simp add: erase_task_def release_def s'_def)
  moreover have "ids_ok P s'" unfolding s'_def by (rule erased_ids_ok [OF ok known(1) ix])
  moreover have "mset (nodes s') = filter_mset (\<lambda>v. node_id v \<noteq> ?i) (mset (nodes s))"
    using erased_nodes [OF ok known(1) ix m] by (simp add: nodes_def s'_def)
  ultimately show thesis using free by (intro that) (simp_all add: s'_def)
qed


text \<open>The branch for an unknown id answers \<^verbatim>\<open>false\<close> and keeps the lock.\<close>

lemma erase_task_unknown:
  "\<not> locked s \<Longrightarrow> id_map s (ucast i) = None \<Longrightarrow> erase_task i s = Inr (False, s\<lparr>locked := True\<rparr>)"
  by (simp add: erase_task_def)

lemma locked_stops:
  assumes "locked s"
  shows "add_node v s = Inl Spin_forever" and "erase_task i s = Inl Spin_forever"
    and "add_task now f expiry cnt immediate delay s = Inl Spin_forever"
proof -
  have add: "add_node w t = Inl Spin_forever" if "locked t" for w and t :: "('f, 'z) wheel_scheme"
    using that by (simp add: add_node_def split: prod.splits)
  show "add_node v s = Inl Spin_forever" by (rule add [OF assms])
  show "erase_task i s = Inl Spin_forever" using assms by (simp add: erase_task_def)
  show "add_task now f expiry cnt immediate delay s = Inl Spin_forever"
    using assms by (simp add: add_task_def get_id_def Let_def add)
qed

lemma add_task_ids:
  assumes ok: "ids_ok P s" and fresh: "id_map s (fst (get_id s)) = None"
    and r: "add_task now f expiry cnt immediate delay s = Inr (i, s')"
  shows "ids_ok (P - {i}) s' \<and> i = fst (get_id s)"
proof -
  obtain s1 where gi: "get_id s = (i, s1)" and s1: "s1 = s\<lparr>next_id := i + 1\<rparr>"
    using r by (auto simp: add_task_def get_id_def Let_def)
  let ?v = "\<lparr>task_fn = f, expire = now + (if immediate then delay else expiry + delay),
                  interval = expiry, circle_count = cnt, slot = 0, node_id = i\<rparr>"
  have "add_node ?v s1 = Inr s'" using r by (simp add: add_task_def gi)
  moreover have "ids_ok P s1" using ok by (simp add: s1 ids_ok_def)
  moreover have "id_map s1 (node_id ?v) = None" using fresh gi by (simp add: s1)
  ultimately show ?thesis using add_node_ids [of P s1 ?v s'] gi by simp
qed

lemma get_id_nonzero: "fst (get_id s) \<noteq> 0"
  by (simp add: get_id_def Let_def)

end
