(* ===== verification/Wheel_Spec.thy ===== *)
theory Wheel_Spec
  imports Wheel_Tasks
begin

text \<open>
  The abstract timer, a multiset of tasks with expiry times, and the theorems that the wheel of
  \<^verbatim>\<open>private/time_wheel.h\<close> implements it: \<open>tick\<close> and \<open>check\<close> run exactly the due tasks, once each,
  \<open>add_task\<close> inserts and \<open>erase_task\<close> removes exactly one task.
\<close>

section \<open>The specification\<close>

text \<open>
  Seen from outside the timer is the next tick to run and a multiset of tasks. A task that was run
  is dropped when its count is used up, and otherwise put back with a new expiry, which the wheel
  caps at \<open>2 ^ 32 - 1\<close> ticks ahead.
\<close>

definition rearms :: "'f time_node \<Rightarrow> bool" where
  "rearms v \<longleftrightarrow> circle_count v = FULL_CIRCLE \<or> circle_count v - 1 \<noteq> 0"

definition rearm :: "int \<Rightarrow> int \<Rightarrow> 'f time_node \<Rightarrow> 'f time_node" where
  "rearm now c v =
     v\<lparr>circle_count := (if circle_count v = FULL_CIRCLE then FULL_CIRCLE else circle_count v - 1),
       expire := min (now + interval v) (2 ^ 32 - 1 + c)\<rparr>"

definition due :: "int \<Rightarrow> 'f time_node multiset \<Rightarrow> 'f time_node multiset" where
  "due c M = filter_mset (\<lambda>v. expire v \<le> c) M"

definition later :: "int \<Rightarrow> 'f time_node multiset \<Rightarrow> 'f time_node multiset" where
  "later c M = filter_mset (\<lambda>v. c < expire v) M"

text \<open>A task runner that only writes down the calls it gets.\<close>

type_synonym 'f call = "'f \<times> bool \<times> 64 word"

definition log_run :: "'f \<Rightarrow> bool \<Rightarrow> 64 word \<Rightarrow> ('f, 'f call list) wheel_scheme \<Rightarrow> ('f, 'f call list) wheel_scheme res" where
  "log_run f d i s = Inr (wheel.more_update (\<lambda>l. l @ [(f, d, i)]) s)"

definition call_of :: "'f time_node \<Rightarrow> 'f call" where
  "call_of v = (task_fn v, \<not> rearms v, node_id v)"

lemma call_of_key [simp]: "call_of (key v) = call_of v" "rearms (key v) = rearms v"
  by (simp_all add: call_of_def rearms_def)

lemma key_rearm [simp]: "key (rearm now c v) = rearm now c (key v)"
  by (simp add: rearm_def key_def)

lemma wheel_ok_extend: "wheel_ok (wheel.more_update g s) = wheel_ok s"
  by (simp add: wheel_ok_def nodes_def)

lemma keys_extend: "keys (wheel.more_update g s) = keys s"
  by (simp add: keys_def nodes_def)

interpretation log: wheel_tasks log_run
  by unfold_locales (auto simp: log_run_def wheel_ok_extend)

text \<open>One task: rearmed or dropped, and called once.\<close>

lemma add_node_keys:
  assumes ok: "wheel_ok s" and free: "\<not> locked s" and v: "in_range (current s) v" "0 \<le> interval v" "interval v \<le> 2 ^ 60"
  obtains s' where "add_node v s = Inr s'" and "wheel_ok s'" and "current s' = current s" and "\<not> locked s'"
    and "keys s' = keys s + {#key (v\<lparr>expire := min (expire v) (2 ^ 32 - 1 + current s)\<rparr>)#}"
    and "wheel.more s' = wheel.more s"
proof -
  from ok have sl: "slots_ok (\<lambda>_. current s - 1) (current s) (tv s)" by (simp add: wheel_ok_def)
  have b: "\<forall>n :: nat. current s - 1 = current s \<or> current s - 1 = current s - 1" by simp
  obtain ix s' where r: "add_node v s = Inr s'" and ix: "ix < 512"
    and s': "s' = s\<lparr>tv := (tv s)[ix := tv s ! ix @ [v\<lparr>expire := min (expire v) (2 ^ 32 - 1 + current s), slot := ix\<rparr>]],
           id_map := (id_map s)(node_id v \<mapsto> ix)\<rparr>"
    using add_node_slots [OF sl free v(1) b] by metis
  have "keys s' = keys s + {#key (v\<lparr>expire := min (expire v) (2 ^ 32 - 1 + current s)\<rparr>)#}"
    using mset_concat_append [of ix "map (map key) (tv s)" "[key (v\<lparr>expire := min (expire v) (2 ^ 32 - 1 + current s)\<rparr>)]"]
      slots_ok_length [OF sl] ix
    by (simp add: keys_def nodes_def map_concat map_update s')
  moreover have "wheel.more s' = wheel.more s" by (simp add: s')
  ultimately show thesis using wheel_ok_add_node [OF ok v r] r free that by simp
qed

lemma add_node_more: "add_node v s = Inr s' \<Longrightarrow> wheel.more s' = wheel.more s"
  by (auto elim: add_node_InrD)

lemma add_nodes_more: "add_nodes vs s = Inr s' \<Longrightarrow> wheel.more s' = wheel.more s"
proof (induction vs arbitrary: s)
  case Nil
  then show ?case by simp
next
  case (Cons v vs)
  then obtain s1 where "add_node v s = Inr s1" and "add_nodes vs s1 = Inr s'" by auto
  with Cons.IH [of s1] add_node_more [of v s s1] show ?case by simp
qed

lemma cascade_more: "cascade n s = Inr (b, s') \<Longrightarrow> wheel.more s' = wheel.more s"
  by (auto simp: cascade_def Let_def dest!: add_nodes_more)

lemma cascade_more_ok: "P (wheel.more s) \<Longrightarrow> ok (cascade n s) (\<lambda>r. P (wheel.more (snd r)))"
  by (rule okI) (metis cascade_more prod.collapse)

lemma cascades_more: "cascades s = Inr s' \<Longrightarrow> wheel.more s' = wheel.more s"
proof -
  have "ok (cascades s) (\<lambda>s'. P (wheel.more s'))" if "P (wheel.more s)" for P
    using that by (auto simp: cascades_def intro!: ok_bnd [OF cascade_more_ok [of P]] split: prod.splits)
  from this [of "\<lambda>z. z = wheel.more s"] show "cascades s = Inr s' \<Longrightarrow> wheel.more s' = wheel.more s"
    by (rule okD [of "cascades s" "\<lambda>t. wheel.more t = wheel.more s"]) simp_all
qed

lemma take_due_more: "take_due s = Inr (temp, s') \<Longrightarrow> wheel.more s' = wheel.more s"
  using cascades_more [of s] by (auto simp: take_due_def Let_def release_def dest!: acquire_InrD)

lemma log_run_node:
  assumes ok: "wheel_ok s" and free: "\<not> locked s" and now: "0 \<le> now" "now \<le> 2 ^ 61"
    and v: "0 \<le> interval v" "interval v \<le> 2 ^ 60"
  obtains s' where "run_node log_run now v s = Inr s'" and "wheel_ok s'" and "current s' = current s"
    and "\<not> locked s'" and "wheel.more s' = wheel.more s @ [call_of v]"
    and "keys s' = keys s + (if rearms v then {#rearm now (current s) (key v)#} else {#})"
proof (cases "rearms v")
  case True
  let ?w = "(if circle_count v = FULL_CIRCLE then v else v\<lparr>circle_count := circle_count v - 1\<rparr>)\<lparr>expire := now + interval v\<rparr>"
  have "in_range (current s) ?w" "0 \<le> interval ?w" "interval ?w \<le> 2 ^ 60"
    using now v ok by (auto simp: in_range_def wheel_ok_def)
  from add_node_keys [OF ok free this] obtain s1 where s1: "add_node ?w s = Inr s1" "wheel_ok s1"
    "current s1 = current s" "\<not> locked s1" "wheel.more s1 = wheel.more s"
    "keys s1 = keys s + {#key (?w\<lparr>expire := min (expire ?w) (2 ^ 32 - 1 + current s)\<rparr>)#}" by blast
  have "key (?w\<lparr>expire := min (expire ?w) (2 ^ 32 - 1 + current s)\<rparr>) = rearm now (current s) (key v)"
    by (simp add: rearm_def key_def)
  moreover have "run_node log_run now v s = log_run (task_fn v) False (node_id v) s1"
    using s1(1) True by (auto simp: run_node_def Let_def rearms_def split: if_splits)
  then have "run_node log_run now v s = Inr (wheel.more_update (\<lambda>l. l @ [call_of v]) s1)"
    using True by (simp add: log_run_def call_of_def)
  from that [OF this] show thesis
    using s1 True calculation(1) by (simp add: wheel_ok_extend keys_extend)
next
  case False
  have "wheel_ok (s\<lparr>id_map := m\<rparr>)" "keys (s\<lparr>id_map := m\<rparr>) = keys s" for m
    using ok by (simp_all add: wheel_ok_def nodes_def keys_def)
  moreover have "run_node log_run now v s
      = log_run (task_fn v) True (node_id v) (s\<lparr>id_map := (id_map s)(node_id v := None)\<rparr>)"
    using False by (auto simp: run_node_def Let_def rearms_def)
  then have "run_node log_run now v s
      = Inr (wheel.more_update (\<lambda>l. l @ [call_of v]) (s\<lparr>id_map := (id_map s)(node_id v := None)\<rparr>))"
    using False by (simp add: log_run_def call_of_def)
  from that [OF this] show thesis
    using calculation(1,2) False free by (simp add: wheel_ok_extend keys_extend)
qed

lemma log_run_nodes:
  assumes "wheel_ok s" and "\<not> locked s" and "0 \<le> now" "now \<le> 2 ^ 61"
    and "\<forall>v \<in> set vs. 0 \<le> interval v \<and> interval v \<le> 2 ^ 60"
  shows "\<exists>s'. run_nodes log_run now vs s = Inr s' \<and> wheel_ok s' \<and> current s' = current s \<and> \<not> locked s'
    \<and> wheel.more s' = wheel.more s @ map call_of vs
    \<and> keys s' = keys s + image_mset (rearm now (current s)) (filter_mset rearms (mset (map key vs)))"
  using assms
proof (induction vs arbitrary: s)
  case Nil
  then show ?case by simp
next
  case (Cons v vs)
  then have "0 \<le> interval v" "interval v \<le> 2 ^ 60" by simp_all
  from log_run_node [OF Cons.prems(1-4) this] obtain s1
    where s1: "run_node log_run now v s = Inr s1" "wheel_ok s1" "current s1 = current s" "\<not> locked s1"
      "wheel.more s1 = wheel.more s @ [call_of v]"
      "keys s1 = keys s + (if rearms v then {#rearm now (current s) (key v)#} else {#})" by blast
  from Cons.IH [OF s1(2,4) Cons.prems(3,4)] Cons.prems(5) s1 show ?case by auto
qed


text \<open>
  One turn of the \<^verbatim>\<open>while\<close> in \<^verbatim>\<open>check\<close>: exactly the due tasks are called, once each and told whether
  they are done, and the multiset moves on as the specification says.
\<close>

lemma tick_spec:
  assumes ok: "wheel_ok s" and free: "\<not> locked s" and now: "current s \<le> now" "now < 2 ^ 61"
  shows "\<exists>s' l. tick log_run now s = Inr s' \<and> wheel_ok s' \<and> \<not> locked s' \<and> current s' = current s + 1
    \<and> keys s' = later (current s) (keys s)
         + image_mset (rearm now (current s + 1)) (filter_mset rearms (due (current s) (keys s)))
    \<and> wheel.more s' = wheel.more s @ l \<and> mset l = image_mset call_of (due (current s) (keys s))"
proof -
  have small: "current s < 2 ^ 61" using now by simp
  obtain temp s1 where td: "take_due s = Inr (temp, s1)" and s1: "current s1 = current s + 1" "wheel_ok s1" "\<not> locked s1"
    and temp: "mset (map key temp) = due (current s) (keys s)" and rest: "keys s1 = later (current s) (keys s)"
    unfolding due_def later_def by (rule take_due_exact [OF ok free small])
  have more: "wheel.more s1 = wheel.more s" by (rule take_due_more [OF td])
  have iv: "\<forall>v \<in> set temp. 0 \<le> interval v \<and> interval v \<le> 2 ^ 60"
  proof
    fix v assume "v \<in> set temp"
    then have "key v \<in># mset (map key temp)" by simp
    then have "key v \<in># keys s" unfolding temp due_def by simp
    with ok intervals_keys [of s "\<lambda>x. 0 \<le> x \<and> x \<le> 2 ^ 60"] show "0 \<le> interval v \<and> interval v \<le> 2 ^ 60"
      by (auto simp: wheel_ok_def)
  qed
  have now': "0 \<le> now" "now \<le> 2 ^ 61" using ok now by (auto simp: wheel_ok_def)
  obtain s' where s': "run_nodes log_run now temp s1 = Inr s'" "wheel_ok s'" "current s' = current s1" "\<not> locked s'"
    "wheel.more s' = wheel.more s1 @ map call_of temp"
    "keys s' = keys s1 + image_mset (rearm now (current s1)) (filter_mset rearms (mset (map key temp)))"
    using log_run_nodes [OF s1(2,3) now' iv] by blast
  have "mset (map call_of temp) = image_mset call_of (mset (map key temp))" by (simp add: multiset.map_comp comp_def)
  then have "mset (map call_of temp) = image_mset call_of (due (current s) (keys s))" by (simp only: temp)
  moreover have "tick log_run now s = Inr s'" by (simp add: tick_def td s'(1))
  moreover have "keys s' = later (current s) (keys s)
         + image_mset (rearm now (current s + 1)) (filter_mset rearms (due (current s) (keys s)))"
    using s'(6) by (simp only: temp rest s1(1))
  ultimately show ?thesis using s' s1 more by auto
qed


section \<open>Whole checks\<close>

lemma later_later: "later c (later b M) = later (max b c) M"
  by (induction M) (auto simp: later_def)

lemma due_split: "b \<le> c \<Longrightarrow> due c M = due b M + due c (later b M)"
  by (induction M) (auto simp: due_def later_def)

lemma later_subset: "v \<in># later c M \<Longrightarrow> v \<in># M"
  by (simp add: later_def)

text \<open>
  The multiset after one turn, and after all turns up to \<open>now\<close>: a task that is put back comes after \<open>now\<close>, so
  each due task has one turn, however many ticks there are to catch up.
\<close>

definition turn :: "int \<Rightarrow> int \<Rightarrow> 'f time_node multiset \<Rightarrow> 'f time_node multiset" where
  "turn now c M = later c M + image_mset (rearm now (c + 1)) (filter_mset rearms (due c M))"

definition again :: "int \<Rightarrow> 'f time_node \<Rightarrow> 'f time_node" where
  "again now v = v\<lparr>circle_count := (if circle_count v = FULL_CIRCLE then FULL_CIRCLE else circle_count v - 1),
     expire := now + interval v\<rparr>"

definition caught_up :: "int \<Rightarrow> 'f time_node multiset \<Rightarrow> 'f time_node multiset" where
  "caught_up now M = later now M + image_mset (again now) (filter_mset rearms (due now M))"

text \<open>The tasks that repeat have a period, which the cap of the wheel does not cut.\<close>

definition patient :: "int \<Rightarrow> int \<Rightarrow> 'f time_node multiset \<Rightarrow> bool" where
  "patient now c M \<longleftrightarrow> (\<forall>v \<in># M. rearms v \<longrightarrow> 0 < interval v \<and> now + interval v \<le> 2 ^ 32 + c)"

lemma turn_again: "patient now c M \<Longrightarrow> turn now c M = later c M + image_mset (again now) (filter_mset rearms (due c M))"
  unfolding turn_def by (intro arg_cong2 [of _ _ _ _ "(+)"] refl image_mset_cong) (auto simp: patient_def due_def again_def rearm_def)

lemma later_union: "later c (M + N) = later c M + later c N" "due c (M + N) = due c M + due c N"
  by (simp_all add: later_def due_def)

lemma again_later:
  assumes "\<forall>v \<in># A. 0 < interval v"
  shows "later now (image_mset (again now) A) = image_mset (again now) A" "due now (image_mset (again now) A) = {#}"
  using assms by (induction A) (auto simp: later_def due_def again_def)

lemma turn_caught_up:
  assumes p: "patient now c M" and c: "c \<le> now"
  shows "caught_up now (turn now c M) = caught_up now M" "due now M = due c M + due now (turn now c M)"
    "patient now (c + 1) (turn now c M)"
proof -
  let ?A = "filter_mset rearms (due c M)"
  have t: "turn now c M = later c M + image_mset (again now) ?A" by (rule turn_again [OF p])
  have "\<forall>v \<in># ?A. 0 < interval v" using p by (auto simp: patient_def due_def)
  note A = again_later [OF this]
  have "later now (later c M) = later now M" using c by (simp add: later_later max_def)
  then show "caught_up now (turn now c M) = caught_up now M"
    unfolding t caught_up_def later_union A due_split [OF c, of M] by simp
  show "due now M = due c M + due now (turn now c M)"
    unfolding t later_union A using due_split [OF c, of M] by simp
  show "patient now (c + 1) (turn now c M)"
    using p unfolding t patient_def by (auto simp: later_def due_def again_def)
qed

lemma turn_last: "patient now now M \<Longrightarrow> turn now now M = caught_up now M"
  by (simp add: turn_again caught_up_def)

lemma check_loop_spec:
  "wheel_ok s \<Longrightarrow> \<not> locked s \<Longrightarrow> now < 2 ^ 61 \<Longrightarrow> current s + int k = now + 1
   \<Longrightarrow> patient now (current s) (keys s)
   \<Longrightarrow> \<exists>s' l. check_loop k log_run now s = Inr s' \<and> wheel_ok s' \<and> \<not> locked s' \<and> current s' = now + 1
     \<and> keys s' = (if k = 0 then keys s else caught_up now (keys s))
     \<and> wheel.more s' = wheel.more s @ l
     \<and> mset l = (if k = 0 then {#} else image_mset call_of (due now (keys s)))"
proof (induction k arbitrary: s)
  case (Suc k)
  have le: "current s \<le> now" using Suc.prems by simp
  obtain s1 l1 where t: "tick log_run now s = Inr s1" "wheel_ok s1" "\<not> locked s1" "current s1 = current s + 1"
    and k1: "keys s1 = turn now (current s) (keys s)"
    and l1: "wheel.more s1 = wheel.more s @ l1" "mset l1 = image_mset call_of (due (current s) (keys s))"
    unfolding turn_def using tick_spec [OF Suc.prems(1,2) le Suc.prems(3)] by blast
  note up = turn_caught_up [OF Suc.prems(5) le, folded k1]
  have cur: "current s1 + int k = now + 1" using t(4) Suc.prems(4) by simp
  obtain s' l2 where r: "check_loop k log_run now s1 = Inr s'" "wheel_ok s'" "\<not> locked s'" "current s' = now + 1"
    and k2: "keys s' = (if k = 0 then keys s1 else caught_up now (keys s1))"
    and l2: "wheel.more s' = wheel.more s1 @ l2" "mset l2 = (if k = 0 then {#} else image_mset call_of (due now (keys s1)))"
    using Suc.IH [OF t(2,3) Suc.prems(3) cur] up(3) t(4) by auto
  have "keys s' = caught_up now (keys s) \<and> mset (l1 @ l2) = image_mset call_of (due now (keys s))"
  proof (cases "k = 0")
    case True
    with cur t(4) have "current s = now" by simp
    with True k1 k2 l1 l2 turn_last Suc.prems(5) show ?thesis by simp
  next
    case False
    with k2 l1 l2 up(1,2) show ?thesis by simp
  qed
  moreover have "check_loop (Suc k) log_run now s = Inr s'" using le t(1) r(1) by simp
  ultimately show ?case using r l1 l2 by (intro exI [of _ s'] exI [of _ "l1 @ l2"]) simp
qed simp

section \<open>Tasks from outside\<close>

lemma add_task_keys:
  assumes ok: "wheel_ok s" and free: "\<not> locked s" and now: "0 \<le> now" "now \<le> 2 ^ 61"
    and iv: "0 \<le> expiry" "expiry \<le> 2 ^ 60" and delay: "0 \<le> delay" "delay \<le> 2 ^ 59"
  shows "\<exists>i s'. add_task now f expiry cnt immediate delay s = Inr (i, s') \<and> i = fst (get_id s)
    \<and> wheel_ok s' \<and> \<not> locked s' \<and> current s' = current s \<and> next_id s' = i + 1
    \<and> id_map s' = (id_map s)(i := id_map s' i) \<and> id_map s' i \<noteq> None
    \<and> wheel.more s' = wheel.more s
    \<and> keys s' = keys s + {#\<lparr>task_fn = f,
         expire = min (now + (if immediate then delay else expiry + delay)) (2 ^ 32 - 1 + current s),
         interval = expiry, circle_count = cnt, slot = 0, node_id = i\<rparr>#}"
proof -
  obtain i s1 where gi: "get_id s = (i, s1)" by (cases "get_id s")
  then have s1: "s1 = s\<lparr>next_id := i + 1\<rparr>" by (auto simp: get_id_def Let_def)
  let ?v = "\<lparr>task_fn = f, expire = now + (if immediate then delay else expiry + delay),
                  interval = expiry, circle_count = cnt, slot = 0, node_id = i\<rparr>"
  have ok1: "wheel_ok s1" using ok by (simp add: s1 wheel_ok_def nodes_def)
  have free1: "\<not> locked s1" using free by (simp add: s1)
  have v: "in_range (current s1) ?v" "0 \<le> interval ?v" "interval ?v \<le> 2 ^ 60"
    using now iv delay ok by (auto simp: in_range_def wheel_ok_def s1)
  obtain s' where s': "add_node ?v s1 = Inr s'" "wheel_ok s'" "current s' = current s1" "\<not> locked s'"
      "wheel.more s' = wheel.more s1"
    and k: "keys s' = keys s1 + {#key (?v\<lparr>expire := min (expire ?v) (2 ^ 32 - 1 + current s1)\<rparr>)#}"
    by (rule add_node_keys [OF ok1 free1 v])
  have add: "add_task now f expiry cnt immediate delay s = Inr (i, s')"
    using s'(1) by (simp add: add_task_def gi)
  have "id_map s' = (id_map s1)(i := id_map s' i) \<and> id_map s' i \<noteq> None \<and> next_id s' = next_id s1"
    by (rule add_node_InrD [OF s'(1)]) auto
  moreover have "keys s1 = keys s" "id_map s1 = id_map s" "current s1 = current s" "next_id s1 = i + 1"
    "wheel.more s1 = wheel.more s"
    by (simp_all add: s1 keys_def nodes_def)
  ultimately show ?thesis using add s' k gi by (intro exI [of _ i] exI [of _ s']) (auto simp: key_def)
qed

lemma erase_task_ok: "wheel_ok s \<Longrightarrow> erase_task i s = Inr (True, s') \<Longrightarrow> wheel_ok s'"
proof -
  assume ok: "wheel_ok s" and r: "erase_task i s = Inr (True, s')"
  have free: "\<not> locked s" using r by (cases "locked s") (auto simp: erase_task_def)
  with r obtain ix where s': "s' = s\<lparr>tv := (tv s)[ix := remove_node (ucast i) (tv s ! ix)],
                   id_map := (id_map s)(ucast i := None), locked := False\<rparr>"
    by (cases "id_map s (ucast i)") (auto simp: erase_task_def release_def split: if_splits)
  from ok have sl: "slots_ok (\<lambda>_. current s - 1) (current s) (tv s)" by (simp add: wheel_ok_def)
  have sub: "set (remove_node (ucast i) (tv s ! ix)) \<subseteq> set (tv s ! ix)" by (rule set_remove_node)
  have "slots_ok (\<lambda>_. current s - 1) (current s) (tv s')"
  proof (cases "ix < 512")
    case True
    with slots_ok_place [OF sl True] sub show ?thesis by (simp add: s') (intro slots_ok_update [OF sl]; auto)
  next
    case False
    then have "tv s' = tv s" using slots_ok_length [OF sl] by (simp add: s' list_update_beyond)
    with sl show ?thesis by simp
  qed
  moreover have "set (nodes s') \<subseteq> set (nodes s)"
  proof
    fix w assume "w \<in> set (nodes s')"
    then obtain j where j: "j < length (tv s)" "w \<in> set (tv s' ! j)" by (auto simp: in_nodes_iff s')
    with sub have "w \<in> set (tv s ! j)" by (cases "j = ix") (auto simp: s')
    with j show "w \<in> set (nodes s)" by (auto simp: in_nodes_iff)
  qed
  ultimately show ?thesis using ok by (auto simp: wheel_ok_def) (auto simp: s')
qed

text \<open>Erasing by id drops exactly that task's node.\<close>

lemma erase_task_keys:
  fixes i :: "32 word"
  assumes ok: "wheel_ok s" "ids_ok P s" and free: "\<not> locked s" and known: "id_map s (ucast i) \<noteq> None" "ucast i \<notin> P"
  obtains s' where "erase_task i s = Inr (True, s')" and "wheel_ok s'" and "ids_ok P s'" and "\<not> locked s'"
    and "keys s' = filter_mset (\<lambda>v. node_id v \<noteq> ucast i) (keys s)"
    and "id_map s' = (id_map s)(ucast i := None)" and "current s' = current s"
proof -
  from known(1) obtain ix where ix: "id_map s (ucast i) = Some ix" by auto
  obtain s' where r: "erase_task i s = Inr (True, s')" and i': "ids_ok P s'" "\<not> locked s'"
    and cur: "current s' = current s" and m: "id_map s' = (id_map s)(ucast i := None)"
    and n: "mset (nodes s') = filter_mset (\<lambda>v. node_id v \<noteq> ucast i) (mset (nodes s))"
    by (rule erase_task_known [OF ok(2) free ix known(2)])
  have "keys s' = image_mset key (mset (nodes s'))" by (simp add: keys_def)
  also have "\<dots> = filter_mset (\<lambda>v. node_id v \<noteq> ucast i) (keys s)"
    by (simp add: n keys_def filter_mset_image_mset)
  finally have k: "keys s' = filter_mset (\<lambda>v. node_id v \<noteq> ucast i) (keys s)" .
  have "wheel_ok s'" by (rule erase_task_ok [OF ok(1) r])
  from that [OF r this i' k m cur] show thesis .
qed

text \<open>With the lock held, the turn's \<^verbatim>\<open>lock\<close> or that of a cascade spins.\<close>

definition held :: "('a \<Rightarrow> bool) \<Rightarrow> 'a res \<Rightarrow> bool" where
  "held P r \<longleftrightarrow> r = Inl Spin_forever \<or> (\<exists>a. r = Inr a \<and> P a)"

lemma held_bnd: "held P x \<Longrightarrow> (\<And>a. P a \<Longrightarrow> held Q (g a)) \<Longrightarrow> held Q (bnd x g)"
  unfolding held_def by (elim disjE exE conjE) simp_all

lemma held_Inr: "P a \<Longrightarrow> held P (Inr a)"
  by (simp add: held_def)

lemma add_nodes_held: "locked s \<Longrightarrow> held locked (add_nodes vs s)"
  by (cases vs) (simp_all add: locked_stops held_def)

lemma cascade_held: "locked s \<Longrightarrow> held (\<lambda>r. locked (snd r)) (cascade n s)"
  unfolding cascade_def Let_def
  by (rule held_bnd [of locked]) (auto intro: add_nodes_held held_Inr)

lemma cascades_held: "locked s \<Longrightarrow> held locked (cascades s)"
  unfolding cascades_def
  by (auto intro!: held_bnd [OF cascade_held] held_Inr split: prod.splits)

lemma take_due_held: "locked s \<Longrightarrow> take_due s = Inl Spin_forever"
  using cascades_held [of s] by (auto simp: take_due_def Let_def held_def)

text \<open>A wheel as \<^verbatim>\<open>run_time_wheel\<close> starts it, with an empty log.\<close>

definition started :: "int \<Rightarrow> ('f, 'f call list) wheel_scheme" where
  "started now = wheel.extend (wheel_init\<lparr>current := now\<rparr>) []"

lemma started_simps [simp]:
  "current (started now) = now" "\<not> locked (started now)" "keys (started now) = {#}"
  "wheel.more (started now) = []" "id_map (started now) = Map.empty" "get_id (started now) = (1, started now\<lparr>next_id := 2\<rparr>)"
  by (simp_all add: started_def wheel_init_def wheel.extend_def keys_def nodes_def get_id_def)

lemma started_ok: "0 \<le> now \<Longrightarrow> now \<le> 2 ^ 61 \<Longrightarrow> wheel_ok (started now)"
  by (auto simp: wheel_ok_def started_def wheel_init_def wheel.extend_def slots_ok_def nodes_def OFFSET_def)

lemma started_ids: "ids_ok {} (started now)"
  by (simp add: ids_ok_def started_def wheel_init_def wheel.extend_def)

text \<open>A wheel that has been given one task.\<close>

lemma started_task:
  assumes "0 \<le> expiry" and "expiry \<le> 2 ^ 32 - 1"
  obtains s where "add_task 1000 f expiry cnt False 0 (started 1000) = Inr (1, s)" and "wheel_ok s"
    and "\<not> locked s" and "current s = 1000" and "wheel.more s = []" and "ids_ok {} s"
    and "keys s = {#\<lparr>task_fn = f, expire = 1000 + expiry, interval = expiry, circle_count = cnt, slot = 0, node_id = 1\<rparr>#}"
proof -
  have ok: "wheel_ok (started 1000)" by (rule started_ok) simp_all
  have fresh: "id_map (started 1000) (fst (get_id (started 1000))) = None" by simp
  from add_task_keys [OF ok, of 1000 expiry 0 f cnt False] assms obtain s
    where r: "add_task 1000 f expiry cnt False 0 (started 1000) = Inr (1, s)"
      "wheel_ok s" "\<not> locked s" "current s = 1000" "wheel.more s = []"
      "keys s = {#\<lparr>task_fn = f, expire = 1000 + expiry, interval = expiry, circle_count = cnt, slot = 0, node_id = 1\<rparr>#}"
    by (auto simp: min_def)
  moreover from add_task_ids [OF started_ids fresh r(1)] have "ids_ok {} s" by simp
  ultimately show thesis by (intro that)
qed

section \<open>The properties\<close>

text \<open>
  C14: one turn of the \<^verbatim>\<open>while\<close> loop of \<^verbatim>\<open>time_wheel::check\<close> calls exactly the tasks whose expiry has
  come, each once and with the flag that says whether it is used up; what stays in the wheel is the
  later tasks and those of the due ones that still have turns left, with their new expiry. So the
  hierarchy of slots and its cascades behave as a plain multiset of tasks.
\<close>

theorem tick_refines:
  assumes "wheel_ok s" and "\<not> locked s" and "current s \<le> now" and "now < 2 ^ 61"
  shows "\<exists>s' calls. tick log_run now s = Inr s' \<and> wheel_ok s' \<and> \<not> locked s' \<and> current s' = current s + 1
    \<and> keys s' = later (current s) (keys s)
         + image_mset (rearm now (current s + 1)) (filter_mset rearms (due (current s) (keys s)))
    \<and> wheel.more s' = wheel.more s @ calls
    \<and> mset calls = image_mset call_of (due (current s) (keys s))"
  by (rule tick_spec [OF assms])

theorem tick_refines_witness:
  "\<exists>s s'. add_task 1000 () 0 FULL_CIRCLE False 0 (started 1000) = Inr (1, s)
     \<and> tick log_run 1000 s = Inr s' \<and> wheel.more s' = [((), False, 1)]
     \<and> keys s' = {#\<lparr>task_fn = (), expire = 1000, interval = 0, circle_count = FULL_CIRCLE, slot = 0, node_id = 1\<rparr>#}"
proof -
  obtain s where s: "add_task 1000 () 0 FULL_CIRCLE False 0 (started 1000) = Inr (1, s)" "wheel_ok s"
    "\<not> locked s" "current s = 1000" "wheel.more s = []"
    "keys s = {#\<lparr>task_fn = (), expire = 1000 + 0, interval = 0, circle_count = FULL_CIRCLE, slot = 0, node_id = 1\<rparr>#}"
    by (rule started_task [of 0 "()" FULL_CIRCLE]) simp_all
  obtain s' calls where "tick log_run 1000 s = Inr s'"
    "keys s' = later (current s) (keys s)
         + image_mset (rearm 1000 (current s + 1)) (filter_mset rearms (due (current s) (keys s)))"
    "wheel.more s' = wheel.more s @ calls" "mset calls = image_mset call_of (due (current s) (keys s))"
    using tick_refines [OF s(2,3), of 1000] s(4) by auto
  with s show ?thesis
    by (intro exI [of _ s] exI [of _ s']) (auto simp: later_def due_def rearm_def rearms_def call_of_def)
qed



lemma ucast_ucast_small:
  fixes i :: "64 word"
  assumes "i < 2 ^ 32"
  shows "ucast (ucast i :: 32 word) = i"
proof -
  have "unat i < 2 ^ 32" using assms by (simp add: word_less_nat_alt)
  then show ?thesis
    by (simp add: word_eq_iff_unsigned [where 'a = nat] unsigned_ucast_eq unsigned_take_bit_eq take_bit_nat_eq_self)
qed

text \<open>
  C26: \<^verbatim>\<open>add_task\<close> gives the task a fresh id that is not 0 and puts it into the wheel; \<^verbatim>\<open>erase_task\<close> with
  that id takes it out again and leaves everything else as it was. The id has to fit into the 32 bits
  of \<^verbatim>\<open>erase_task\<close>'s parameter.
\<close>

theorem add_erase_roundtrip:
  assumes ok: "wheel_ok s" "ids_ok {} s" and free: "\<not> locked s" and now: "0 \<le> now" "now \<le> 2 ^ 61"
    and iv: "0 \<le> expiry" "expiry \<le> 2 ^ 60" and delay: "0 \<le> delay" "delay \<le> 2 ^ 59"
    and fresh: "id_map s (fst (get_id s)) = None" and small: "fst (get_id s) < 2 ^ 32"
  shows "\<exists>i s1 s2. add_task now f expiry cnt immediate delay s = Inr (i, s1) \<and> i \<noteq> 0
    \<and> (\<exists>v. keys s1 = keys s + {#v#} \<and> node_id v = i \<and> task_fn v = f \<and> interval v = expiry)
    \<and> erase_task (ucast i) s1 = Inr (True, s2) \<and> keys s2 = keys s \<and> id_map s2 = id_map s
    \<and> current s2 = current s \<and> wheel_ok s2 \<and> ids_ok {} s2 \<and> \<not> locked s2"
proof -
  obtain i s1 where r: "add_task now f expiry cnt immediate delay s = Inr (i, s1)" and i: "i = fst (get_id s)"
    and s1: "wheel_ok s1" "\<not> locked s1" "current s1 = current s"
    and m: "id_map s1 = (id_map s)(i := id_map s1 i)" "id_map s1 i \<noteq> None"
    and k: "\<exists>v. keys s1 = keys s + {#v#} \<and> node_id v = i \<and> task_fn v = f \<and> interval v = expiry"
    using add_task_keys [OF ok(1) free now iv delay, of f cnt immediate] by force
  have ids: "ids_ok {} s1" using add_task_ids [OF ok(2) fresh r] by simp
  have conv: "ucast (ucast i :: 32 word) = i"
    using small unfolding i by (rule ucast_ucast_small)
  obtain s2 where s2: "erase_task (ucast i) s1 = Inr (True, s2)" "wheel_ok s2" "ids_ok {} s2" "\<not> locked s2"
    and k2: "keys s2 = filter_mset (\<lambda>v. node_id v \<noteq> i) (keys s1)"
    and m2: "id_map s2 = (id_map s1)(i := None)" and c2: "current s2 = current s1"
    by (rule erase_task_keys [OF s1(1) ids s1(2), of "ucast i"]) (simp_all add: conv m(2))
  have new: "node_id v \<noteq> i" if "v \<in># keys s" for v
  proof
    assume v: "node_id v = i"
    from that obtain w ix where w: "ix < length (tv s)" "w \<in> set (tv s ! ix)" "v = key w"
      by (auto simp: keys_nodes in_nodes_iff)
    with ok(2) have "id_map s (node_id w) = Some ix" by (simp add: ids_ok_def)
    with w(3) v fresh i show False by simp
  qed
  have "keys s2 = keys s" using k k2 new filter_mset_all [of "keys s" "\<lambda>v. node_id v \<noteq> i"] by auto
  moreover have "id_map s2 = id_map s" using m m2 fresh i by (metis fun_upd_triv fun_upd_upd)
  ultimately show ?thesis using r k s2 c2 s1(3) get_id_nonzero [of s] i by metis
qed

theorem add_erase_roundtrip_witness:
  "\<exists>s1 s2. add_task 1000 ''task'' 50 1 False 0 (started 1000) = Inr (1, s1)
     \<and> erase_task 1 s1 = Inr (True, s2) \<and> keys s2 = {#}"
proof -
  have ok: "wheel_ok (started 1000)" by (rule started_ok) simp_all
  obtain i s1 s2 where r: "add_task 1000 ''task'' 50 1 False 0 (started 1000) = Inr (i, s1)"
    "erase_task (ucast i) s1 = Inr (True, s2)" "keys s2 = keys (started 1000)"
    using add_erase_roundtrip [OF ok started_ids, of 1000 50 0 "''task''" 1 False] by auto
  moreover have "i = 1" using r(1) by (auto simp: add_task_def split: if_splits)
  ultimately show ?thesis by auto
qed

text \<open>
  C38: the branch of \<^verbatim>\<open>erase_task\<close> for an id that is not in the map returns \<^verbatim>\<open>false\<close> without \<^verbatim>\<open>unlock\<close>.
  From then on no task is ever added, erased or run: every later \<^verbatim>\<open>add_task\<close>, \<^verbatim>\<open>erase_task\<close> and due
  \<^verbatim>\<open>check\<close> spins in \<^verbatim>\<open>lock\<close> for ever.
\<close>

theorem erase_unknown_deadlocks:
  assumes "\<not> locked s" and "id_map s (ucast i) = None"
  shows "\<exists>s'. erase_task i s = Inr (False, s') \<and> keys s' = keys s
    \<and> erase_task j s' = Inl Spin_forever
    \<and> add_task now f expiry cnt immediate delay s' = Inl Spin_forever
    \<and> (current s \<le> t \<longrightarrow> check run t s' = Inl Spin_forever)"
proof -
  let ?s = "s\<lparr>locked := True\<rparr>"
  have r: "erase_task i s = Inr (False, ?s)" by (rule erase_task_unknown [OF assms])
  have "take_due ?s = Inl Spin_forever" by (rule take_due_held) simp
  then have "tick run t ?s = Inl Spin_forever" by (simp add: tick_def)
  then have "check run t ?s = Inl Spin_forever" if "current s \<le> t"
  proof -
    have "nat (t + 1 - current s) = Suc (nat (t - current s))" using that by simp
    then show ?thesis using that \<open>tick run t ?s = _\<close> by (simp add: check_def)
  qed
  with r show ?thesis by (intro exI [of _ ?s]) (simp add: locked_stops keys_def nodes_def)
qed

theorem erase_unknown_deadlocks_witness:
  "\<exists>s'. erase_task 7 (started 1000 :: (unit, unit call list) wheel_scheme) = Inr (False, s') \<and> check log_run 1060 s' = Inl Spin_forever"
  using erase_unknown_deadlocks [of "started 1000 :: (unit, unit call list) wheel_scheme" 7 0 0 "()" 0 0 False 0 1060 log_run]
  by (auto intro: exI)

end
