(* ===== verification/Websocket_Hooks.thy ===== *)
theory Websocket_Hooks
  imports Websocket_Server Tcp_Correct Wheel_Spec
begin

text \<open>
  The WebSocket server fulfils the contract of the TCP server (\<open>server_hooks\<close>), for every application
  whose callbacks fulfil theirs (\<open>ws_app\<close>): every operation of the protocol keeps the table of
  clients and the heap in order and works on live clients only.
\<close>

section \<open>The timer does not touch the server\<close>

lemma more_same_app: "wheel.more s' = wheel.more s \<Longrightarrow> same_app s s'"
  by (cases s; cases s') (simp add: same_app_def)

lemma more_server_inv: "wheel.more s' = wheel.more s \<Longrightarrow> server_inv D s' = server_inv D s"
  by (cases s; cases s') (simp add: server_inv_def)

lemma erase_task_safe: "safe (erase_task i s) (\<lambda>r. wheel.more (snd r) = wheel.more s)"
proof (cases "locked s")
  case True
  then show ?thesis by (simp add: locked_stops)
next
  case False
  then show ?thesis by (auto simp: erase_task_def release_def split: option.splits)
qed

lemma add_task_safe: "safe (add_task now f expiry cnt immediate delay s) (\<lambda>r. wheel.more (snd r) = wheel.more s)"
proof (cases "locked s")
  case True
  then show ?thesis by (simp add: locked_stops)
next
  case False
  then show ?thesis
    by (auto simp: add_task_def get_id_def add_node_def release_def Let_def split: prod.splits)
qed

section \<open>The parsers only leave their buffers\<close>

text \<open>
  A fault inside the parsers is an access outside a buffer or a number that does not fit, never one of those of
  the heap, the timer and the lock.
\<close>

definition grave :: "fault \<Rightarrow> bool" where
  "grave e \<longleftrightarrow> e \<in> {Use_after_free, Spin_forever, Bad_iterator, Dangling_reference}"

lemma grave_simps [simp]:
  "grave Use_after_free" "grave Spin_forever" "grave Bad_iterator" "grave Dangling_reference"
  "\<not> grave Out_of_bounds" "\<not> grave Int_overflow" "\<not> grave Length_error" "\<not> grave Bad_function_call" "\<not> grave Script_end"
  by (simp_all add: grave_def)

definition tame :: "'a res \<Rightarrow> bool" where
  "tame r \<longleftrightarrow> (\<forall>e. r = Inl e \<longrightarrow> \<not> grave e)"

lemma tame_simps [simp]: "tame (Inr a)" "tame (Inl e) \<longleftrightarrow> \<not> grave e"
  by (simp_all add: tame_def)

lemma tame_bnd: "tame x \<Longrightarrow> (\<And>a. x = Inr a \<Longrightarrow> tame (f a)) \<Longrightarrow> tame (bnd x f)"
  by (cases x) auto

lemma tame_safe: "tame r \<Longrightarrow> safe r (\<lambda>_. True)"
  by (cases r) auto

lemma tame_not_freed: "tame r \<Longrightarrow> r \<noteq> Inl Use_after_free"
  by auto

lemma c_str_tame: "tame (c_str b)"
  by (induction b) (auto intro: tame_bnd)

lemma c_str_safe: "safe (c_str b) (\<lambda>_. True)"
  by (rule tame_safe [OF c_str_tame])

lemma accept_key_tame: "tame (websocket_accept_key cr k)"
  using c_str_tame by (simp add: websocket_accept_key_def Let_def)

lemma accept_key_safe: "safe (websocket_accept_key cr k) (\<lambda>_. True)"
  by (rule tame_safe [OF accept_key_tame])

lemma rd_tame: "tame (rd d i)"
  by (simp add: rd_def)

lemma rd_range_tame: "tame (rd_range d p n)"
  by (simp add: rd_range_def)

lemma wr_tame: "tame (wr d i b)"
  by (simp add: wr_def)

lemma in_line_tame: "tame (in_line d m)"
  by (auto simp: in_line_def intro!: tame_bnd rd_tame)

lemma request_line_tame: "tame (request_line d m n i hdr)"
proof (induction "Suc (length d) - m" arbitrary: m n i hdr rule: less_induct)
  case less
  have "tame (request_line d (Suc m) n' i' hdr')" if "in_line d m = Inr True" for n' i' hdr'
    using in_line_le [OF that] by (intro less.hyps) auto
  then show ?case
    by (subst request_line.simps) (auto intro!: tame_bnd in_line_tame rd_tame)
qed

lemma find_colon_tame: "tame (find_colon d m)"
proof (induction d m rule: find_colon.induct)
  case (1 d m)
  note IH = 1 [simplified]
  show ?case by (subst find_colon.simps) (auto intro!: tame_bnd rd_tame IH)
qed

lemma find_eol_tame: "tame (find_eol d m)"
proof (induction d m rule: find_eol.induct)
  case (1 d m)
  note IH = 1 [simplified]
  show ?case by (subst find_eol.simps) (auto intro!: tame_bnd in_line_tame IH)
qed

lemma header_lines_tame: "tame (header_lines d n hdr)"
proof (induction "Suc (length d) - n" arbitrary: n hdr rule: less_induct)
  case less
  have "tame (header_lines d (Suc (Suc k)) hdr')"
    if "find_colon d n = Inr m" "find_eol d (Suc (Suc m)) = Inr k" for m k hdr'
    using find_colon_ge [OF that(1)] find_eol_ge [OF that(2)] by (intro less.hyps) auto
  then show ?case
    by (subst header_lines.simps) (auto simp: Let_def intro!: tame_bnd find_colon_tame find_eol_tame rd_tame)
qed

lemma decode_http_header_tame: "tame (decode_http_header d hdr)"
  unfolding decode_http_header_def
  by (rule tame_bnd [OF request_line_tame]) (simp add: header_lines_tame split: prod.splits)

lemmas decode_http_header_safe = tame_safe [OF decode_http_header_tame]

lemma unmask_words_tame: "tame (unmask_words d p m k)"
  by (induction d p m k rule: unmask_words.induct) (auto intro!: tame_bnd rd_range_tame wr_tame)

lemma unmask_tail_tame: "tame (unmask_tail d p mk i k)"
  by (induction d p mk i k rule: unmask_tail.induct) (auto intro!: tame_bnd rd_tame wr_tame)

lemma len8_tame: "tame (len8 d p k acc)"
  by (induction d p k acc rule: len8.induct) (auto intro!: tame_bnd rd_tame)

lemma read_header_tame: "tame (read_header d p)"
  by (auto simp: read_header_def intro!: tame_bnd rd_tame)

lemma append_range_tame: "tame (append_range b d p n)"
  by (auto simp: append_range_def intro!: tame_bnd rd_range_tame)

lemma frame_body_tame: "tame (frame_body d p h)"
  by (auto simp: frame_body_def read_len_def unmask_def Let_def split: option.splits if_splits
      intro!: tame_bnd rd_tame rd_range_tame unmask_words_tame unmask_tail_tame len8_tame)

lemma decode_loop_tame: "tame (decode_loop d buf p h)"
proof (induction "length d + 3 - p" arbitrary: d buf p h rule: less_induct)
  case less
  have "tame (decode_loop d' buf' (Suc (Suc (p' + n))) h')"
    if "frame_body d p h = Inr (Some (d', p', n))" "read_header d' (p' + n) = Inr h'" for d' buf' p' n h'
    using frame_body_bounds [OF that(1)] read_header_bound [OF that(2)] by (intro less.hyps) auto
  then show ?case
    by (subst decode_loop.simps)
      (auto intro!: tame_bnd frame_body_tame append_range_tame read_header_tame split: option.splits)
qed

lemmas decode_loop_safe = tame_safe [OF decode_loop_tame]

section \<open>Operations on a live client\<close>

text \<open>\<open>G\<close> is what the application knows, of which nothing but \<open>frame\<close> matters here.\<close>

locale app_frame =
  fixes G :: "('u, 'z) websocket_process_scheme \<Rightarrow> bool"
  assumes frame: "G s \<Longrightarrow> same_app s s' \<Longrightarrow> G s'"
begin

lemma live_more: "live G D a s \<Longrightarrow> wheel.more s' = wheel.more s \<Longrightarrow> live G D a s'"
  using more_same_app [of s' s] more_server_inv [of s' s D] frame [of s s'] by (auto simp: live_def same_app_def)

lemma live_inv: "live G D a s \<Longrightarrow> server_inv D s \<and> G s"
  by (simp add: live_def)

lemma erase_live: "live G D a s \<Longrightarrow> safe (erase_task i s) (\<lambda>r. live G D a (snd r))"
  by (rule safe_mono [OF erase_task_safe]) (metis live_more)

lemma add_live: "live G D a s \<Longrightarrow> safe (add_task now f expiry cnt immediate delay s) (\<lambda>r. live G D a (snd r))"
  by (rule safe_mono [OF add_task_safe]) (metis live_more)

lemma live_upd:
  "live G D a s \<Longrightarrow> heap s a = Some c \<Longrightarrow> sockfd c' = sockfd c \<Longrightarrow> live G D a (s\<lparr>heap := (heap s)(a \<mapsto> c')\<rparr>)"
  by (auto simp: live_def server_inv_upd intro: frame)

lemma deref_safe: "live G D a s \<Longrightarrow> safe (deref a s) (\<lambda>c. heap s a = Some c)"
  by (auto simp: live_def)

lemma modify_safe:
  assumes l: "live G D a s" and g: "\<And>c. sockfd (g c) = sockfd c"
  shows "safe (modify a g s) (live G D a)"
proof -
  from l obtain c where c: "heap s a = Some c" by (auto simp: live_def)
  with live_upd [OF l c g] show ?thesis by simp
qed

lemma server_send_buffer_safe: "live G D a s \<Longrightarrow> safe (server_send_buffer a d s) (live G D a)"
  unfolding server_send_buffer_def
  by (rule safe_bnd [OF modify_safe], assumption, simp, rule safe_bnd [OF deref_safe]) (auto simp: live_def intro: frame)

lemma send_without_frame_safe: "live G D a s \<Longrightarrow> safe (send_without_frame a d s) (live G D a)"
  by (simp add: send_without_frame_def tcp_send_def server_send_buffer_safe)

lemma ws_send_safe: "live G D a s \<Longrightarrow> safe (ws_send a d s) (live G D a)"
  by (simp add: ws_send_def server_send_buffer_safe)

lemma close_websocket_client_safe: "live G D a s \<Longrightarrow> safe (close_websocket_client a flag s) (live G D a)"
  unfolding close_websocket_client_def close_frame_def
  by (rule safe_bnd [where P = "\<lambda>_. True"], rule safe_bnd [OF c_str_safe], simp,
      rule safe_bnd [OF send_without_frame_safe], assumption, rule safe_bnd [OF deref_safe], assumption)
    (auto intro!: safe_bnd [OF erase_live] modify_safe)

lemma remove_from_time_wheel_safe: "live G D a s \<Longrightarrow> safe (remove_from_time_wheel a s) (live G D a)"
  unfolding remove_from_time_wheel_def
  by (rule safe_bnd [OF deref_safe], assumption) (auto intro!: safe_bnd [OF erase_live] modify_safe)

lemma add_to_time_wheel_expire_safe: "live G D a s \<Longrightarrow> safe (add_to_time_wheel_expire a flag s) (live G D a)"
  by (auto simp: add_to_time_wheel_expire_def intro!: safe_bnd [OF add_live] modify_safe)

lemma add_to_time_wheel_heartbeat_safe: "live G D a s \<Longrightarrow> safe (add_to_time_wheel_heartbeat a s) (live G D a)"
  by (auto simp: add_to_time_wheel_heartbeat_def intro!: safe_bnd [OF add_live] modify_safe)

lemma ws_destructor_safe: "live G D a s \<Longrightarrow> safe (ws_destructor a s) (live G D a)"
  unfolding ws_destructor_def
  by (rule safe_bnd [OF deref_safe], assumption,
      rule safe_bnd [where P = "live G D a"]) (auto intro!: safe_bnd [OF erase_live])

lemma ws_run_task_safe: "live G D a s \<Longrightarrow> safe (ws_run_task (Heartbeat_task a) d i s) (live G D a)"
  by (simp add: send_without_frame_safe)

lemmas ws_safe = send_without_frame_safe close_websocket_client_safe remove_from_time_wheel_safe
  add_to_time_wheel_expire_safe add_to_time_wheel_heartbeat_safe

lemma refuse_safe: "live G D a s \<Longrightarrow> safe (bnd (close_websocket_client a f s) (\<lambda>s1. Inr (False, s1))) (\<lambda>r. live G D a (snd r))"
  by (rule safe_bnd [OF close_websocket_client_safe]) auto

lemma websocket_shake_hands_safe: "live G D a s \<Longrightarrow> safe (websocket_shake_hands cr a s) (\<lambda>r. live G D a (snd r))"
  unfolding websocket_shake_hands_def Let_def
  by (rule safe_bnd [OF deref_safe], assumption)
    (auto simp: refuse_safe split: option.splits
      intro!: safe_bnd [OF accept_key_safe] safe_bnd [OF send_without_frame_safe] safe_bnd [OF modify_safe])

lemma http_decode_safe: "live G D a s \<Longrightarrow> safe (http_decode_proto_data a data s) (\<lambda>r. live G D a (snd r))"
  unfolding http_decode_proto_data_def tcp_decode_proto_data_def
  by (rule safe_bnd [OF deref_safe], assumption, rule safe_bnd [OF decode_http_header_safe])
    (auto simp: live_upd)

lemma decode_handshake_safe: "live G D a s \<Longrightarrow> safe (decode_handshake cr a data s) (\<lambda>r. live G D a (snd r) \<and> \<not> fst r)"
  unfolding decode_handshake_def
  by (rule safe_bnd [OF http_decode_safe], assumption)
    (auto intro!: safe_bnd [OF websocket_shake_hands_safe] safe_bnd [OF add_to_time_wheel_heartbeat_safe])

lemma decode_data_frame_safe:
  "live G D a s \<Longrightarrow> safe (decode_websocket_data_frame a s) (\<lambda>r. live G D a (snd r) \<and> clients (snd r) = clients s)"
  unfolding decode_websocket_data_frame_def Let_def
  by (rule safe_bnd [OF deref_safe], assumption, rule safe_bnd [OF decode_loop_safe])
    (auto simp: live_upd)

lemma proto_err_safe: "live G D a s \<Longrightarrow> safe (proto_err a f s) (\<lambda>r. live G D a (snd r) \<and> \<not> fst r)"
  unfolding proto_err_def by (rule safe_bnd [OF close_websocket_client_safe]) auto

end

text \<open>
  What the server asks of the application: its callbacks keep the client they get alive, and its
  \<^verbatim>\<open>disconnect\<close> callback gives up the client it is called for.
\<close>

locale ws_app =
  fixes cr :: crypto
    and user :: "'u \<Rightarrow> addr \<Rightarrow> ('u, 'z) websocket_process_scheme \<Rightarrow> ('u, 'z) websocket_process_scheme res"
    and good :: "addr set \<Rightarrow> ('u, 'z) websocket_process_scheme \<Rightarrow> bool"
  assumes knows_frame: "good D s \<Longrightarrow> same_app s s' \<Longrightarrow> good D s'"
    and knows_delete: "good {a} s \<Longrightarrow> good {} (s\<lparr>heap := (heap s)(a := None)\<rparr>)"
    and user_ok: "live (good {}) {} a s \<Longrightarrow> safe (user u a s) (live (good {}) {} a)"
    and user_disconnect: "live (good {}) {a} a s
      \<Longrightarrow> safe (call_opt (ws_objects user) (disconnect_f s) a s) (live (good {a}) {a} a)"

sublocale ws_app \<subseteq> fr: app_frame "good D" for D
  by unfold_locales (rule knows_frame)

context ws_app begin

abbreviation alive :: "addr \<Rightarrow> ('u, 'z) websocket_process_scheme \<Rightarrow> bool" where
  "alive \<equiv> live (good {}) {}"

lemma ws_call_safe: "alive a s \<Longrightarrow> safe (ws_call user k a s) (alive a)"
proof (cases k)
  case (User u)
  then show "alive a s \<Longrightarrow> ?thesis" by (simp add: ws_call_def user_ok)
next
  case (Recv_wrapper fn)
  then show "alive a s \<Longrightarrow> ?thesis"
    unfolding ws_call_def
    by simp (rule safe_bnd [OF fr.deref_safe], assumption,
      auto intro!: safe_bnd [OF user_ok] fr.modify_safe split: option.splits)
next
  case (Sent_wrapper fn)
  have "alive a s \<Longrightarrow> safe (if is_connected c = WAIT_SHAKE then
                bnd (modify a (\<lambda>c. c\<lparr>is_connected := CONNECTED\<rparr>) s) (\<lambda>s1.
                case wb_connected_f s1 of None \<Rightarrow> Inr s1 | Some u \<Rightarrow> user u a s1)
              else Inr s) (alive a)" for c
    by (auto intro!: safe_bnd [OF fr.modify_safe] user_ok split: option.splits)
  with Sent_wrapper show "alive a s \<Longrightarrow> ?thesis"
    unfolding ws_call_def
    by simp (rule safe_bnd [OF fr.deref_safe], assumption,
      rule safe_bnd, assumption, auto intro!: user_ok split: option.splits)
qed

lemma ws_objects_ok: "client_objects (ws_objects user) good"
proof
  fix D a k and s s' :: "('u, 'z) websocket_process_scheme"
  show "good D s \<Longrightarrow> same_app s s' \<Longrightarrow> good D s'" by (rule knows_frame)
  show "good {a} s \<Longrightarrow> good {} (s\<lparr>heap := (heap s)(a := None)\<rparr>)" by (rule knows_delete)
  show "alive a s \<Longrightarrow> safe (call (ws_objects user) k a s) (\<lambda>s'. server_ok s' \<and> good {} s')"
    using ws_call_safe [of a s k] by (auto simp: ws_objects_def live_def elim!: safe_mono)
  show "live (good {}) {a} a s \<Longrightarrow> safe (call_opt (ws_objects user) (disconnect_f s) a s) (live (good {a}) {a} a)"
    by (rule user_disconnect)
  show "live (good {a}) {a} a s \<Longrightarrow> safe (destructor (ws_objects user) a s) (live (good {a}) {a} a)"
    using fr.ws_destructor_safe [of "{a}" "{a}" a s] by (simp add: ws_objects_def)
qed

abbreviation in_order :: "('u, 'z) websocket_process_scheme \<Rightarrow> bool" where
  "in_order \<equiv> client_objects.ready good"

lemmas in_order_iff = client_objects.ready_def [OF ws_objects_ok]

lemma alive_in_order: "alive a s \<Longrightarrow> in_order s"
  by (simp add: in_order_iff live_def)

lemma on_close_frame_safe:
  assumes l: "alive a s"
  shows "safe (on_close_frame user a s) in_order"
proof -
  have cl: "safe (close_client (ws_objects user) a s2) in_order" if "alive a s2" for s2
  proof -
    from that obtain c where "heap s2 a = Some c" "server_ok s2" by (auto simp: live_def)
    then have "clients s2 (sockfd c) = Some a" by (auto simp: server_inv_def)
    from client_objects.close_client_ok [OF ws_objects_ok alive_in_order [OF that] this] show ?thesis .
  qed
  have "safe (if t then remove_from_time_wheel a s else Inr s) (alive a)" for t
    using l by (simp add: fr.remove_from_time_wheel_safe)
  note first = this
  have "safe (add_to_time_wheel_expire a NORMAL_CLOSE s) in_order"
    using fr.add_to_time_wheel_expire_safe [OF l] by (rule safe_mono) (auto dest: alive_in_order)
  note expire = this
  have closing: "safe (bnd (close_websocket_client a NORMAL_CLOSE s1) (\<lambda>s2. close_client (ws_objects user) a s2)) in_order"
    if "alive a s1" for s1
    by (rule safe_bnd [OF fr.close_websocket_client_safe [OF that] cl])
  show ?thesis
    unfolding on_close_frame_def
    by (rule safe_bnd [OF fr.deref_safe [OF l]], rule safe_if, rule safe_bnd [OF first], erule closing, rule expire)
qed

definition decoded :: "(int \<rightharpoonup> addr) \<Rightarrow> bool \<times> ('u, 'z) websocket_process_scheme \<Rightarrow> bool" where
  "decoded m r \<longleftrightarrow> in_order (snd r) \<and> (fst r \<longrightarrow> clients (snd r) = m)"

lemma decoded_simps [simp]:
  "decoded m (False, s) = in_order s" "decoded m (True, s) \<longleftrightarrow> in_order s \<and> clients s = m"
  by (simp_all add: decoded_def)

lemma decodedI: "alive a s \<Longrightarrow> clients s = m \<Longrightarrow> decoded m (b, s)"
  by (simp add: decoded_def alive_in_order)

lemma not_decoded: "safe r (\<lambda>r. alive a (snd r) \<and> \<not> fst r) \<Longrightarrow> safe r (decoded m)"
  by (erule safe_mono) (auto simp: decoded_def alive_in_order)

lemma dispatch_frame_safe:
  assumes l: "alive a s"
  shows "safe (dispatch_frame user a op s) (decoded (clients s))"
proof -
  have err: "safe (proto_err a f t) (decoded m)" if "alive a t" for f t m
    by (rule not_decoded [OF fr.proto_err_safe [OF that]])
  have silent: "safe (bnd r (\<lambda>s1. Inr (False, s1))) (decoded m)" if "safe r in_order" for r m
    using that by (rule safe_bnd) simp
  have pong: "safe (if b then remove_from_time_wheel a s else Inr s) in_order" for b
    using fr.remove_from_time_wheel_safe [OF l] l
    by (intro safe_if) (auto simp: alive_in_order elim!: safe_mono)
  have ping: "safe (send_without_frame a d s) in_order" for d
    using fr.send_without_frame_safe [OF l] by (rule safe_mono) (auto dest: alive_in_order)
  have "safe (if b then decode_websocket_data_frame a s else Inr (SUCCESS, s))
      (\<lambda>r. alive a (snd r) \<and> clients (snd r) = clients s)" for b
    using l fr.decode_data_frame_safe [OF l] by simp
  then have data: "safe (bnd (if b then decode_websocket_data_frame a s else Inr (SUCCESS, s)) (\<lambda>(ret, s1).
     if ret \<noteq> SUCCESS then proto_err a ret s1
     else bnd (deref a s1) (\<lambda>c1. Inr (fin (op_bits (wb_header c1)), s1)))) (decoded (clients s))" for b
    by (rule safe_bnd) (auto simp: err intro!: safe_bnd [OF fr.deref_safe] decodedI)
  show ?thesis
    unfolding dispatch_frame_def
    by (rule safe_bnd [OF fr.deref_safe [OF l]], rule safe_if, rule silent [OF on_close_frame_safe [OF l]],
        rule safe_if, rule silent [OF pong], rule safe_if, rule silent [OF ping], rule data)
qed

lemma decode_frames_safe:
  assumes l: "alive a s"
  shows "safe (decode_frames user a s) (decoded (clients s))"
proof -
  have short: "safe (bnd (modify a (\<lambda>c. c\<lparr>wait_close := True\<rparr>) s) (\<lambda>s1. proto_err a PROTOCOL_ERROR s1)) (decoded m)" for m
    by (rule safe_bnd [OF fr.modify_safe [OF l]], simp, rule not_decoded [OF fr.proto_err_safe])
  have upd: "alive a (s\<lparr>heap := (heap s)(a \<mapsto> c')\<rparr>)" if "heap s a = Some c" "sockfd c' = sockfd c" for c c'
    using fr.live_upd [OF l that] .
  have "safe (bnd (modify a (\<lambda>c. c\<lparr>wb_header := header\<rparr>) s) (\<lambda>s1. dispatch_frame user a op s1)) (decoded (clients s))" for header op
    using l dispatch_frame_safe [OF upd] by (auto simp: live_def)
  moreover have "read_header d 0 \<noteq> Inl Use_after_free" for d
    by (rule tame_not_freed [OF read_header_tame])
  ultimately show ?thesis
    unfolding decode_frames_def
    by (intro safe_bnd [OF fr.deref_safe [OF l]] safe_if short safe_bndI) auto
qed

lemma ws_decode_safe:
  assumes l: "alive a s"
  shows "safe (ws_decode_proto_data cr user a data s) (decoded (clients s))"
proof -
  obtain c where c: "heap s a = Some c" using l by (auto simp: live_def)
  let ?s = "s\<lparr>heap := (heap s)(a \<mapsto> c\<lparr>recv_buffer := data\<rparr>)\<rparr>"
  have l': "alive a ?s" by (rule fr.live_upd [OF l c]) simp
  have "safe (decode_handshake cr a data ?s) (decoded (clients s))"
    by (rule not_decoded [OF fr.decode_handshake_safe [OF l']])
  moreover have "safe (decode_frames user a ?s) (decoded (clients s))"
    using decode_frames_safe [OF l'] by simp
  ultimately show ?thesis using c by (simp add: ws_decode_proto_data_def)
qed

end

sublocale ws_app \<subseteq> server_hooks "ws_hooks cr user" good
proof
  fix D a k m and s s' :: "('u, 'z) websocket_process_scheme"
  let ?h = "ws_hooks cr user"
  have obj: "call ?h = call (ws_objects user)" "destructor ?h = destructor (ws_objects user)"
    "call_opt ?h = call_opt (ws_objects user)"
    by (simp_all add: ws_hooks_def objects.extend_def ws_objects_def call_opt_def fun_eq_iff split: option.splits)
  show "good D s \<Longrightarrow> same_app s s' \<Longrightarrow> good D s'" by (rule knows_frame)
  show "good {a} s \<Longrightarrow> good {} (s\<lparr>heap := (heap s)(a := None)\<rparr>)" by (rule knows_delete)
  show "live (good {}) {} a s \<Longrightarrow> safe (call ?h k a s) (\<lambda>s'. server_ok s' \<and> good {} s')"
    unfolding obj by (rule client_objects.call_ok [OF ws_objects_ok])
  show "live (good {}) {a} a s \<Longrightarrow> safe (call_opt ?h (disconnect_f s) a s) (live (good {a}) {a} a)"
    unfolding obj by (rule user_disconnect)
  show "live (good {a}) {a} a s \<Longrightarrow> safe (destructor ?h a s) (live (good {a}) {a} a)"
    unfolding obj by (rule client_objects.destructor_ok [OF ws_objects_ok])
  show "live (good {}) {} a s \<Longrightarrow> safe (decode_proto_data ?h a m s)
      (\<lambda>r. server_ok (snd r) \<and> good {} (snd r) \<and> (fst r \<longrightarrow> clients (snd r) = clients s))"
    using ws_decode_safe [of a s m]
    by (simp add: ws_hooks_def objects.extend_def hooks.fields_def decoded_def [abs_def] in_order_iff conj_assoc)
qed

end
