(* ===== verification/Ws_Rfc.thy ===== *)
theory Ws_Rfc
  imports Ws_Frame
begin

text \<open>
  The layout of RFC 6455 as a specification of the wire format, and the frame loop of
  \<^theory_text>\<open>Ws_Frame\<close> measured against it: what the loop makes of well-formed frames and messages,
  and the inputs on which it refuses a valid frame or leaves its buffer.
\<close>


section \<open>The layout of RFC 6455\<close>

fun mask_from :: "nat \<Rightarrow> bytes \<Rightarrow> bytes \<Rightarrow> bytes" where
  "mask_from i mk [] = []"
| "mask_from i mk (x # xs) = (x XOR mk ! (i mod 4)) # mask_from (Suc i) mk xs"

definition rfc_len :: "nat \<Rightarrow> 7 word \<times> bytes" where
  "rfc_len n =
     (if n < 126 then (of_nat n, [])
      else if n < 65536 then (126, be16 (of_nat n))
      else (127, be64 (of_nat n)))"

definition rfc_header :: "bool \<Rightarrow> 4 word \<Rightarrow> bool \<Rightarrow> nat \<Rightarrow> websocket_header" where
  "rfc_header f op masked n =
     \<lparr>op_bits = \<lparr>opcode = op, rsv3 = False, rsv2 = False, rsv1 = False, fin = f\<rparr>,
      payload = \<lparr>payload_len = fst (rfc_len n), mask_flag = masked\<rparr>\<rparr>"

definition rfc_payload :: "bytes option \<Rightarrow> bytes \<Rightarrow> bytes" where
  "rfc_payload mk xs = (case mk of None \<Rightarrow> xs | Some k \<Rightarrow> k @ mask_from 0 k xs)"

definition rfc_frame :: "bool \<Rightarrow> 4 word \<Rightarrow> bytes option \<Rightarrow> bytes \<Rightarrow> bytes" where
  "rfc_frame f op mk xs =
     header_bytes (rfc_header f op (mk \<noteq> None) (length xs)) @ snd (rfc_len (length xs))
       @ rfc_payload mk xs"

lemma length_mask_from [simp]: "length (mask_from i mk xs) = length xs"
  by (induction i mk xs rule: mask_from.induct) auto

lemma nth_mask_from: "j < length xs \<Longrightarrow> mask_from i mk xs ! j = xs ! j XOR mk ! ((i + j) mod 4)"
  by (induction i mk xs arbitrary: j rule: mask_from.induct) (auto simp: nth_Cons split: nat.splits)

lemma mask_from_append: "mask_from i mk (xs @ ys) = mask_from i mk xs @ mask_from (i + length xs) mk ys"
  by (induction i mk xs rule: mask_from.induct) auto

lemma mask_from_mod: "i mod 4 = j mod 4 \<Longrightarrow> mask_from i mk xs = mask_from j mk xs"
  by (auto intro!: nth_equalityI simp: nth_mask_from) (metis mod_add_left_eq)

lemma mask_from_involution: "mask_from i mk (mask_from i mk xs) = xs"
  by (auto intro!: nth_equalityI simp: nth_mask_from xor.assoc)

lemma xor_word_mid:
  "xor_word (pre @ a0 # a1 # a2 # a3 # post) (length pre) (load32 m0 m1 m2 m3)
   = Inr (pre @ (a0 XOR m0) # (a1 XOR m1) # (a2 XOR m2) # (a3 XOR m3) # post)"
  by (simp add: nth_append store32_xor_load32)

lemma Suc_mod_4: "Suc 0 mod 4 = 1" "Suc (Suc 0) mod 4 = 2" "Suc (Suc (Suc 0)) mod 4 = 3"
  by simp_all

lemma unmask_words_mid:
  assumes "length xs = 4 * k"
  shows "unmask_words (pre @ xs @ post) (length pre) (load32 (mk ! 0) (mk ! 1) (mk ! 2) (mk ! 3)) k
         = Inr (pre @ mask_from 0 mk xs @ post)"
  using assms
proof (induction k arbitrary: pre xs)
  case 0
  then show ?case by simp
next
  case (Suc k)
  then have "length xs = Suc (Suc (Suc (Suc (4 * k))))" by simp
  then obtain a0 a1 a2 a3 ys where xs: "xs = a0 # a1 # a2 # a3 # ys" and ys: "length ys = 4 * k"
    unfolding length_Suc_conv by blast
  let ?m = "load32 (mk ! 0) (mk ! 1) (mk ! 2) (mk ! 3)"
  let ?zs = "[a0 XOR mk ! 0, a1 XOR mk ! 1, a2 XOR mk ! 2, a3 XOR mk ! 3]"
  have "mask_from (0 + length [a0, a1, a2, a3]) mk ys = mask_from 0 mk ys"
    by (rule mask_from_mod) simp
  moreover have "mask_from 0 mk [a0, a1, a2, a3] = ?zs" by (simp add: Suc_mod_4)
  ultimately have mask: "mask_from 0 mk xs = ?zs @ mask_from 0 mk ys"
    using mask_from_append [of 0 mk "[a0, a1, a2, a3]" ys] by (simp only: xs append_Cons append_Nil)
  have step: "xor_word (pre @ xs @ post) (length pre) ?m = Inr ((pre @ ?zs) @ ys @ post)"
    unfolding xs append_Cons append_Nil append_assoc by (rule xor_word_mid)
  have len: "length pre + 4 = length (pre @ ?zs)" by simp
  show ?case
    unfolding unmask_words.simps step bnd_simps len Suc.IH [OF ys] mask by simp
qed

lemma unmask_tail_mid:
  assumes "length xs = k" and "length pre = p + i"
  shows "unmask_tail (pre @ xs @ post) p mk i k = Inr (pre @ mask_from i mk xs @ post)"
  using assms
proof (induction k arbitrary: pre xs i)
  case 0
  then show ?case by simp
next
  case (Suc k)
  then obtain x ys where xs: "xs = x # ys" and ys: "length ys = k"
    by (auto simp: length_Suc_conv)
  let ?z = "x XOR mk ! (i mod 4)"
  have pi: "p + i = length pre" using Suc.prems by simp
  have rd: "rd (pre @ xs @ post) (length pre) = Inr x" by (simp add: xs)
  have wr: "wr (pre @ xs @ post) (length pre) ?z = Inr ((pre @ [?z]) @ ys @ post)"
    by (simp add: wr_def xs)
  have len: "length (pre @ [?z]) = p + Suc i" using pi by simp
  show ?case
    unfolding unmask_tail.simps pi rd bnd_simps wr Suc.IH [OF ys len] by (simp add: xs)
qed

lemma unmask_mid:
  "length xs < 2 ^ 31 \<Longrightarrow> unmask (pre @ xs @ post) (length pre) mk (length xs) = Inr (pre @ mask_from 0 mk xs @ post)"
proof -
  assume small: "length xs < 2 ^ 31"
  let ?n = "length xs div 4 * 4"
  let ?ys = "take ?n xs" and ?zs = "drop ?n xs"
  have ys: "length ?ys = 4 * (length xs div 4)" by simp
  have zs: "length ?zs = length xs mod 4" by (simp add: minus_div_mult_eq_mod)
  have "0 + length ?ys = ?n" using ys by simp
  then have eq: "mask_from 0 mk xs = mask_from 0 mk ?ys @ mask_from ?n mk ?zs"
    using mask_from_append [of 0 mk ?ys ?zs] by (simp only: append_take_drop_id)
  have xs: "xs @ post = ?ys @ ?zs @ post" by (metis append_assoc append_take_drop_id)
  have words: "unmask_words (pre @ xs @ post) (length pre) (load32 (mk ! 0) (mk ! 1) (mk ! 2) (mk ! 3))
      (length xs div 4) = Inr ((pre @ mask_from 0 mk ?ys) @ ?zs @ post)"
    unfolding xs append_assoc by (rule unmask_words_mid [OF ys])
  have tail: "unmask_tail ((pre @ mask_from 0 mk ?ys) @ ?zs @ post) (length pre) mk ?n (length xs mod 4)
     = Inr ((pre @ mask_from 0 mk ?ys) @ mask_from ?n mk ?zs @ post)"
    by (rule unmask_tail_mid [OF zs]) (simp add: ys)
  have "min (length xs div 4) (2 ^ 31) = length xs div 4"
    and "\<not> (2 ^ 31 \<le> length xs div 4 \<or> (2 ^ 31 \<le> ?n \<and> length xs mod 4 \<noteq> 0))"
    using small by linarith+
  then show ?thesis
    unfolding unmask_def using words tail eq by simp
qed

lemma unmask_words_out: "length d < p + 4 * k \<Longrightarrow> 0 < k \<Longrightarrow> unmask_words d p m k = Inl Out_of_bounds"
proof (induction k arbitrary: d p)
  case 0
  then show ?case by simp
next
  case (Suc k)
  show ?case
  proof (cases "p + 4 \<le> length d")
    case False
    then show ?thesis by simp
  next
    case True
    then obtain d' where d': "xor_word d p m = Inr d'" by simp
    then have len: "length d' = length d" by (rule xor_word_length)
    with True Suc.prems have "0 < k" by (cases k) auto
    with Suc len have "unmask_words d' (p + 4) m k = Inl Out_of_bounds" by simp
    then show ?thesis by (simp only: unmask_words.simps d' bnd_simps)
  qed
qed

lemma unmask_tail_out: "length d < p + i + k \<Longrightarrow> 0 < k \<Longrightarrow> unmask_tail d p mk i k = Inl Out_of_bounds"
proof (induction k arbitrary: d i)
  case 0
  then show ?case by simp
next
  case (Suc k)
  show ?case
  proof (cases "p + i < length d")
    case False
    then show ?thesis by (simp add: rd_def wr_def)
  next
    case True
    with Suc.prems have "0 < k" by (cases k) auto
    with True Suc.prems Suc.IH [of _ "Suc i"] show ?thesis by (simp add: wr_def)
  qed
qed

lemma unmask_out:
  assumes n: "length d < p + n" and pos: "0 < n" and small: "length d < 2 ^ 31"
  shows "unmask d p mk n = Inl Out_of_bounds"
proof -
  let ?k = "min (n div 4) (2 ^ 31)"
  let ?w = "unmask_words d p (load32 (mk ! 0) (mk ! 1) (mk ! 2) (mk ! 3)) ?k"
  have n4: "n = n div 4 * 4 + n mod 4" by simp
  have "0 < ?k \<or> n div 4 = 0" by (auto simp: min_def)
  then consider (words) "length d < p + 4 * ?k" "0 < ?k"
    | (empty) "length d < p + 4 * ?k" "n div 4 = 0"
    | (tail) "p + 4 * ?k \<le> length d" by (metis not_less)
  then show ?thesis
  proof cases
    case words
    then have "?w = Inl Out_of_bounds" by (rule unmask_words_out)
    then show ?thesis by (simp only: unmask_def bnd_simps)
  next
    case empty
    with n pos n4 have "unmask_tail d p mk 0 (n mod 4) = Inl Out_of_bounds"
      by (intro unmask_tail_out) linarith+
    with empty show ?thesis by (simp add: unmask_def)
  next
    case tail
    with small have k: "?k = n div 4" and r: "\<not> 2 ^ 31 \<le> n div 4" "\<not> 2 ^ 31 \<le> n div 4 * 4" by linarith+
    with tail n n4 have left: "p + 4 * (n div 4) \<le> length d" "length d < p + n div 4 * 4 + n mod 4" "0 < n mod 4"
      by linarith+
    let ?pre = "take p d" and ?xs = "take (n div 4 * 4) (drop p d)"
    have "length ?xs = 4 * (n div 4)" using left by simp
    from unmask_words_mid [OF this, of ?pre "drop (n div 4 * 4) (drop p d)" mk] left k
    obtain d' where d': "?w = Inr d'"
      unfolding append_take_drop_id by (simp add: min_absorb2)
    then have "length d' = length d" by (rule unmask_words_length)
    with left have "unmask_tail d' p mk (n div 4 * 4) (n mod 4) = Inl Out_of_bounds"
      by (intro unmask_tail_out) simp_all
    with d' r show ?thesis by (simp add: unmask_def)
  qed
qed

lemma len8_out: "length d + 1 < p + k \<Longrightarrow> 0 < k \<Longrightarrow> len8 d p k acc = Inl Out_of_bounds"
proof (induction k arbitrary: p acc)
  case 0
  then show ?case by simp
next
  case (Suc k)
  then show ?case by (cases "p \<le> length d") (auto simp: rd_def)
qed

section \<open>The extended length\<close>

text \<open>
  A length whose extended bytes are all below \<open>0x80\<close>: those are the ones that sign extension of
  plain \<^verbatim>\<open>char\<close> leaves alone.
\<close>

definition plain_len :: "nat \<Rightarrow> bool" where
  "plain_len n \<longleftrightarrow> n < 2 ^ 64 \<and> list_all (\<lambda>b. \<not> bit b 7) (snd (rfc_len n))"

lemma len2_plain:
  fixes w :: "16 word"
  assumes "\<not> bit w 15" and "\<not> bit w 7"
  shows "len2 (ucast (drop_bit 8 w)) (ucast w) = ucast w"
proof (rule bit_word_eqI)
  fix n :: nat
  assume "n < LENGTH(64)"
  have w: "15 < n \<Longrightarrow> \<not> bit w n" for n by (auto dest: bit_imp_le_length)
  consider "n < 7" | "n = 7" | "7 < n" "n < 15" | "n = 15" | "15 < n" by linarith
  then show "bit (len2 (ucast (drop_bit 8 w)) (ucast w)) n = bit (ucast w :: 64 word) n"
    using assms w \<open>n < LENGTH(64)\<close>
    by cases (auto simp: len2_def bit_simps min_def)
qed

lemma len8_foldl:
  "len8 (pre @ bs @ post) (length pre) (length bs) acc
   = Inr (foldl (\<lambda>a b. push_bit 8 a OR scast b) acc bs)"
proof (induction bs arbitrary: pre acc)
  case Nil
  then show ?case by simp
next
  case (Cons b bs)
  show ?case
    using Cons.IH [of "pre @ [b]"] by simp
qed

lemma scast_plain: "\<not> bit (b :: byte) 7 \<Longrightarrow> scast b = (ucast b :: 64 word)"
proof (rule bit_word_eqI)
  fix n :: nat
  assume b: "\<not> bit b 7" and n: "n < LENGTH(64)"
  consider "n < 7" | "n = 7" | "8 \<le> n" by linarith
  then show "bit (scast b :: 64 word) n = bit (ucast b :: 64 word) n"
    using b n by cases (auto simp: bit_simps min_def bit_byte_high)
qed

lemma foldl_scast_plain:
  "list_all (\<lambda>b. \<not> bit b 7) (bs :: bytes) \<Longrightarrow>
   foldl (\<lambda>a b. push_bit 8 a OR scast b) (acc :: 64 word) bs
   = foldl (\<lambda>a b. push_bit 8 a OR ucast b) acc bs"
  by (induction bs arbitrary: acc) (simp_all add: scast_plain)

lemma be_step:
  "push_bit 8 (drop_bit (8 + m) w) OR ucast (ucast (drop_bit m w) :: byte) = drop_bit m (w :: 64 word)"
proof (rule bit_word_eqI)
  fix n :: nat
  assume n: "n < LENGTH(64)"
  show "bit (push_bit 8 (drop_bit (8 + m) w) OR ucast (ucast (drop_bit m w) :: byte)) n
      = bit (drop_bit m w) n"
  proof (cases "n < 8")
    case True
    with n show ?thesis by (simp add: bit_simps)
  next
    case False
    then obtain k where k: "n = 8 + k" using le_Suc_ex not_less by blast
    with n show ?thesis by (simp add: bit_simps ac_simps)
  qed
qed

lemma foldl_be64: "foldl (\<lambda>a b. push_bit 8 a OR ucast b) 0 (be64 w) = w"
proof -
  have top: "drop_bit 64 w = 0"
    by (rule bit_word_eqI) (auto simp: bit_simps dest: bit_imp_le_length)
  show ?thesis
    using be_step [of 56 w] be_step [of 48 w] be_step [of 40 w] be_step [of 32 w] be_step [of 24 w]
      be_step [of 16 w] be_step [of 8 w] be_step [of 0 w]
    by (simp add: be64_def top)
qed

lemma len8_be64:
  "list_all (\<lambda>b. \<not> bit b 7) (be64 w) \<Longrightarrow> len8 (pre @ be64 w @ post) (length pre) 8 0 = Inr w"
  using len8_foldl [of pre "be64 w" post 0] by (simp add: foldl_scast_plain foldl_be64)

lemma unat_7_of_nat: "n < 128 \<Longrightarrow> unat (of_nat n :: 7 word) = n"
  by (simp add: unat_of_nat)

lemma unat_64_of_nat: "n < 2 ^ 64 \<Longrightarrow> unat (of_nat n :: 64 word) = n"
  by (simp add: unat_of_nat)

text \<open>The length part of a turn reads back what the layout writes.\<close>

lemma read_len_rfc:
  assumes n: "plain_len n" and pre: "2 \<le> length pre"
  shows "read_len (pre @ snd (rfc_len n) @ post) (length pre) (rfc_header f op m n)
         = Inr (Some (of_nat n, length pre + length (snd (rfc_len n))))"
proof -
  consider (small) "n < 126" | (two) "126 \<le> n" "n < 65536" | (eight) "65536 \<le> n" by linarith
  then show ?thesis
  proof cases
    case small
    then show ?thesis
      by (simp add: read_len_def rfc_header_def rfc_len_def payload_flag_defs unat_7_of_nat)
  next
    case two
    define w :: "16 word" where "w = of_nat n"
    have ext: "snd (rfc_len n) = [ucast (drop_bit 8 w), ucast w]"
      using two by (simp add: rfc_len_def be16_def w_def)
    have bits: "\<not> bit w 15" "\<not> bit w 7"
      using n by (simp_all add: plain_len_def ext bit_simps)
    have w: "ucast w = (of_nat n :: 64 word)"
      using two by (simp add: w_def word_unat_eq_iff unat_of_nat unsigned_ucast_eq take_bit_nat_eq_self)
    have rd0: "rd (pre @ snd (rfc_len n) @ post) (length pre) = Inr (ucast (drop_bit 8 w))"
      by (simp add: ext)
    have rd1: "rd (pre @ snd (rfc_len n) @ post) (length pre + 1) = Inr (ucast w)"
      using rd_append [of "pre @ [ucast (drop_bit 8 w)]" "ucast w" post] by (simp add: ext)
    have len: "\<not> length (pre @ snd (rfc_len n) @ post) < 2 + 2"
      using pre by (simp add: ext)
    have l: "unat (payload_len (payload (rfc_header f op m n))) = PAYLOAD_2_FLAG"
      using two by (simp add: rfc_header_def rfc_len_def payload_flag_defs)
    show ?thesis
      unfolding read_len_def Let_def l rd0 rd1
      using len by (simp add: len2_plain [OF bits] w ext)
  next
    case eight
    define w :: "64 word" where "w = of_nat n"
    have ext: "snd (rfc_len n) = be64 w"
      using eight by (simp add: rfc_len_def w_def)
    have l: "unat (payload_len (payload (rfc_header f op m n))) = PAYLOAD_8_FLAG"
      using eight by (simp add: rfc_header_def rfc_len_def payload_flag_defs)
    have "list_all (\<lambda>b. \<not> bit b 7) (be64 w)"
      using n by (simp add: plain_len_def ext)
    then show ?thesis
      unfolding read_len_def Let_def l ext
      using pre by (simp add: payload_flag_defs len8_be64 w_def)
  qed
qed

section \<open>Whole frames\<close>

definition good_key :: "bytes option \<Rightarrow> bool" where
  "good_key mk \<longleftrightarrow> (case mk of None \<Rightarrow> True | Some k \<Rightarrow> length k = 4)"

definition good_frame :: "bytes option \<times> bytes \<Rightarrow> bool" where
  "good_frame fr \<longleftrightarrow> plain_len (length (snd fr)) \<and> good_key (fst fr)"

text \<open>What stands before the payload on the wire.\<close>

definition rfc_prefix :: "bool \<Rightarrow> 4 word \<Rightarrow> bytes option \<Rightarrow> nat \<Rightarrow> bytes" where
  "rfc_prefix f op mk n =
     header_bytes (rfc_header f op (mk \<noteq> None) n) @ snd (rfc_len n)
       @ (case mk of None \<Rightarrow> [] | Some k \<Rightarrow> k)"

definition rfc_body :: "bytes option \<Rightarrow> bytes \<Rightarrow> bytes" where
  "rfc_body mk xs = (case mk of None \<Rightarrow> xs | Some k \<Rightarrow> mask_from 0 k xs)"

lemma rfc_frame_prefix: "rfc_frame f op mk xs = rfc_prefix f op mk (length xs) @ rfc_body mk xs"
  by (simp add: rfc_frame_def rfc_prefix_def rfc_payload_def rfc_body_def split: option.splits)

lemma length_rfc_body [simp]: "length (rfc_body mk xs) = length xs"
  by (simp add: rfc_body_def split: option.splits)

lemma mask_flag_rfc_header [simp]: "mask_flag (payload (rfc_header f op m n)) = m"
  by (simp add: rfc_header_def)

lemma fin_rfc_header [simp]: "fin (op_bits (rfc_header f op m n)) = f"
  by (simp add: rfc_header_def)

lemma opcode_rfc_header [simp]: "opcode (op_bits (rfc_header f op m n)) = op"
  by (simp add: rfc_header_def)

lemma size_check_plain:
  assumes "n + 2 \<le> l" and "l < 2 ^ 64"
  shows "\<not> (of_nat l :: 64 word) < of_nat n + 2"
proof -
  have n: "of_nat n + 2 = (of_nat (n + 2) :: 64 word)" by simp
  have "unat (of_nat l :: 64 word) = l" "unat (of_nat (n + 2) :: 64 word) = n + 2"
    using assms by (intro unat_64_of_nat; linarith)+
  with assms show ?thesis
    unfolding n word_less_nat_alt by linarith
qed

text \<open>A turn of the loop on a well-formed frame finds the payload and unmasks it in place.\<close>

lemma frame_body_rfc:
  assumes good: "good_frame (mk, xs)" and len: "length (pre @ rfc_frame f op mk xs @ post) < 2 ^ 31"
  shows "frame_body (pre @ rfc_frame f op mk xs @ post) (length pre + 2)
           (rfc_header f op (mk \<noteq> None) (length xs))
         = Inr (Some ((pre @ rfc_prefix f op mk (length xs)) @ xs @ post,
                      length (pre @ rfc_prefix f op mk (length xs)), length xs))"
proof -
  let ?d = "pre @ rfc_frame f op mk xs @ post" and ?n = "length xs"
  let ?pre = "pre @ header_bytes (rfc_header f op (mk \<noteq> None) ?n)"
  have plain: "plain_len ?n" and n64: "?n < 2 ^ 64"
    using good by (simp_all add: good_frame_def plain_len_def)
  have small: "?n < 2 ^ 31" using len by (simp add: rfc_frame_prefix)
  have d: "?d = ?pre @ snd (rfc_len ?n) @ (case mk of None \<Rightarrow> [] | Some k \<Rightarrow> k) @ rfc_body mk xs @ post"
    by (simp add: rfc_frame_prefix rfc_prefix_def)
  have rl: "read_len ?d (length pre + 2) (rfc_header f op (mk \<noteq> None) ?n)
      = Inr (Some (of_nat ?n, length ?pre + length (snd (rfc_len ?n))))"
    unfolding d using read_len_rfc [OF plain, of ?pre] by simp
  have "?n + 2 \<le> length ?d" by (simp add: rfc_frame_prefix rfc_prefix_def)
  from size_check_plain [OF this] len n64
  have size: "\<not> (of_nat (length ?d) :: 64 word) < of_nat ?n + 2" and un: "unat (of_nat ?n :: 64 word) = ?n"
    by (simp_all add: unat_64_of_nat)
  show ?thesis
  proof (cases mk)
    case None
    then show ?thesis
      unfolding frame_body_def rl
      using size un by (simp add: rfc_frame_prefix rfc_prefix_def rfc_body_def)
  next
    case (Some k)
    let ?p = "length ?pre + length (snd (rfc_len ?n))"
    have k4: "length k = 4" using good Some by (simp add: good_frame_def good_key_def)
    have dk: "?d = (?pre @ snd (rfc_len ?n)) @ k @ rfc_body mk xs @ post"
      unfolding d by (simp add: Some)
    have mk: "rd_range ?d ?p 4 = Inr k"
      unfolding dk using rd_range_mid [of "?pre @ snd (rfc_len ?n)" k] k4 by simp
    have dp: "?d = (?pre @ snd (rfc_len ?n) @ k) @ mask_from 0 k xs @ post"
      unfolding d by (simp add: Some rfc_body_def)
    have um: "unmask ?d (?p + 4) k ?n = Inr ((?pre @ snd (rfc_len ?n) @ k) @ xs @ post)"
      unfolding dp
      using unmask_mid [of "mask_from 0 k xs" "?pre @ snd (rfc_len ?n) @ k" post k] k4 small
      by (simp add: mask_from_involution ac_simps)
    show ?thesis
      unfolding frame_body_def rl
      using size un mk um k4 Some by (simp add: rfc_prefix_def)
  qed
qed

section \<open>Whole messages\<close>

text \<open>The frames of a message, the first with the message's opcode, the last with \<^verbatim>\<open>FIN\<close>.\<close>

fun message_bytes :: "4 word \<Rightarrow> (bytes option \<times> bytes) list \<Rightarrow> bytes" where
  "message_bytes op [] = []"
| "message_bytes op ((mk, xs) # fs) =
     rfc_frame (fs = []) op mk xs @ message_bytes CONTINUATION_FRAME fs"

fun first_header :: "4 word \<Rightarrow> (bytes option \<times> bytes) list \<Rightarrow> websocket_header" where
  "first_header op [] = zero_header"
| "first_header op ((mk, xs) # fs) = rfc_header (fs = []) op (mk \<noteq> None) (length xs)"

lemma read_header_at: "read_header (pre @ header_bytes h @ post) (length pre) = Inr h"
proof -
  let ?b0 = "header_bytes h ! 0" and ?b1 = "header_bytes h ! 1"
  have hb: "header_bytes h = [?b0, ?b1]" by (simp add: header_bytes_def)
  have "rd (pre @ [?b0, ?b1] @ post) (length pre) = Inr ?b0"
    and "rd (pre @ [?b0, ?b1] @ post) (length pre + 1) = Inr ?b1"
    using rd_append [of "pre @ [?b0]" ?b1 post] by simp_all
  then show ?thesis
    unfolding read_header_def by (subst (1 2) hb) (simp add: header_of_bytes [unfolded One_nat_def])
qed

lemma message_bytes_header:
  "fs \<noteq> [] \<Longrightarrow> \<exists>post. message_bytes op fs = header_bytes (first_header op fs) @ post"
  by (cases fs) (auto simp: rfc_frame_def)

lemma append_range_mid:
  "length buf + length xs < 2 ^ 63 \<Longrightarrow>
   append_range buf (pre @ xs @ post) (length pre) (length xs) = Inr (buf @ xs)"
  by (simp add: append_range_def rd_range_mid)

text \<open>A message whose frames stand one after another is put together from their payloads.\<close>

lemma decode_loop_message:
  assumes "fs \<noteq> []" and "\<forall>fr \<in> set fs. good_frame fr"
    and "length buf + length (message_bytes op fs) < 2 ^ 63"
    and "length (pre @ message_bytes op fs @ post) < 2 ^ 31"
  shows "\<exists>d' header'.
    decode_loop (pre @ message_bytes op fs @ post) buf (length pre + 2) (first_header op fs)
      = Inr (SUCCESS, d', buf @ concat (map snd fs), header') \<and> fin (op_bits header')"
  using assms
proof (induction op fs arbitrary: pre buf rule: message_bytes.induct)
  case (1 op)
  then show ?case by simp
next
  case (2 op mk xs fs)
  let ?rest = "message_bytes CONTINUATION_FRAME fs"
  let ?h = "rfc_header (fs = []) op (mk \<noteq> None) (length xs)"
  let ?pre = "pre @ rfc_prefix (fs = []) op mk (length xs)"
  have good: "good_frame (mk, xs)" using "2.prems" by simp
  have fb: "frame_body (pre @ rfc_frame (fs = []) op mk xs @ (?rest @ post)) (length pre + 2) ?h
      = Inr (Some (?pre @ xs @ (?rest @ post), length ?pre, length xs))"
    using frame_body_rfc [OF good] "2.prems"(4) by simp
  have ar: "append_range buf (?pre @ xs @ ?rest @ post) (length ?pre) (length xs) = Inr (buf @ xs)"
    using append_range_mid [of buf xs ?pre] "2.prems"(3) by (simp add: rfc_frame_prefix)
  show ?case
  proof (cases "fs = []")
    case True
    then show ?thesis using fb ar by (simp add: decode_loop.simps [of _ _ _ "rfc_header _ _ _ _"])
  next
    case False
    obtain tl where tl: "?rest = header_bytes (first_header CONTINUATION_FRAME fs) @ tl"
      using message_bytes_header [OF False] by blast
    have rh: "read_header ((?pre @ xs) @ ?rest @ post) (length (?pre @ xs))
        = Inr (first_header CONTINUATION_FRAME fs)"
      unfolding tl append_assoc using read_header_at [of "?pre @ xs"] by simp
    have ne: "\<not> length (?pre @ xs @ ?rest @ post) \<le> length ?pre"
      by (simp add: tl)
    have "\<exists>d' header'. decode_loop ((?pre @ xs) @ ?rest @ post) (buf @ xs) (length (?pre @ xs) + 2)
         (first_header CONTINUATION_FRAME fs)
       = Inr (SUCCESS, d', (buf @ xs) @ concat (map snd fs), header') \<and> fin (op_bits header')"
      using "2.prems" False by (intro "2.IH") (auto simp: rfc_frame_prefix)
    then show ?thesis
      using fb ar rh ne False by (simp add: decode_loop.simps [of _ _ _ "rfc_header _ _ _ _"] add.assoc)
  qed
qed

section \<open>What \<open>websocket_client::send\<close> writes\<close>

lemma send_frame_rfc: "length m < 2 ^ 64 \<Longrightarrow> send_frame m = rfc_frame True TEXT_FRAME None m"
  by (auto simp: send_frame_def rfc_frame_def rfc_header_def rfc_len_def rfc_payload_def
      zero_header_def payload_flag_defs)

section \<open>Frames on which the decoder leaves its buffer or refuses valid input\<close>

text \<open>A low length byte with its top bit set is sign extended and wins over the high byte.\<close>

lemma len2_sign: "bit b1 7 \<Longrightarrow> len2 b0 b1 = scast b1"
proof (rule bit_word_eqI)
  fix n :: nat
  assume b: "bit b1 7" and n: "n < LENGTH(64)"
  consider "n < 7" | "n = 7" | "8 \<le> n" "n < 31" | "31 \<le> n" by linarith
  then show "bit (len2 b0 b1) n = bit (scast b1 :: 64 word) n"
    using b n by cases (auto simp: len2_def bit_simps min_def)
qed

lemma unat_scast_sign:
  fixes b :: byte
  assumes "bit b 7"
  shows "unat (scast b :: 64 word) = 2 ^ 64 - 256 + unat b"
proof -
  have b: "128 \<le> unat b" "unat b < 256"
  proof -
    have "\<not> unat b < 128"
    proof
      assume "unat b < 128"
      then have "take_bit 7 (unat b) = unat b" by (simp add: take_bit_nat_eq_self)
      then have "\<not> bit (unat b) 7" by (metis bit_take_bit_iff less_irrefl)
      with assms show False by (simp add: bit_simps)
    qed
    then show "128 \<le> unat b" by simp
    show "unat b < 256" using unsigned_less [where ?'a = nat, of b] by simp
  qed
  have "take_bit 8 (uint b) = uint b"
    by (rule take_bit_int_eq_self) (use unsigned_less [where ?'a = int, of b] in simp_all)
  then have "sint b = int (unat b) - 256"
    using assms by (simp add: sint_uint signed_take_bit_eq_take_bit_minus bit_simps)
  then have "scast b = (word_of_int (int (unat b) - 256) :: 64 word)"
    by (simp only: scast_eq)
  then have "uint (scast b :: 64 word) = (int (unat b) - 256) mod 2 ^ 64"
    by (simp only: uint_word_of_int) simp
  also have "\<dots> = (int (unat b) - 256 + 2 ^ 64) mod 2 ^ 64"
    by (simp only: mod_add_self2)
  also have "\<dots> = int (unat b) - 256 + 2 ^ 64"
    using b unsigned_less [where ?'a = int, of b] by (intro mod_pos_pos_trivial) simp_all
  finally have "int (unat (scast b :: 64 word)) = int (2 ^ 64 - 256 + unat b)"
    by simp
  then show ?thesis by (simp only: of_nat_eq_iff)
qed


text \<open>A frame that announces a 16-bit length with such a low byte, in terms of the layout.\<close>

lemma read_len_sign:
  assumes n: "126 \<le> n" "n < 65536" and low: "128 \<le> n mod 256"
  shows "\<exists>w. read_len (header_bytes h @ snd (rfc_len n) @ post) 2 (rfc_header f op m n) = Inr (Some (w, 4))
       \<and> unat w = 2 ^ 64 - 256 + n mod 256"
proof -
  define v :: "16 word" where "v = of_nat n"
  have ext: "snd (rfc_len n) = [ucast (drop_bit 8 v), ucast v]"
    using n by (simp add: rfc_len_def be16_def v_def)
  have uv: "unat (ucast v :: byte) = n mod 256"
    using n by (simp add: v_def unsigned_ucast_eq take_bit_eq_mod unat_of_nat)
  have "bit (ucast v :: byte) 7"
  proof (rule ccontr)
    assume "\<not> bit (ucast v :: byte) 7"
    then have "\<not> bit (unat (ucast v :: byte)) 7" by (simp add: bit_simps)
    moreover have "n mod 256 div 128 = 1" using low mod_less_divisor [of 256 n] by linarith
    ultimately show False by (simp add: uv bit_iff_odd)
  qed
  note sign = len2_sign [OF this] unat_scast_sign [OF this]
  have rd1: "rd (header_bytes h @ snd (rfc_len n) @ post) 3 = Inr (ucast v)"
    and rd0: "rd (header_bytes h @ snd (rfc_len n) @ post) 2 = Inr (ucast (drop_bit 8 v))"
    by (simp_all add: ext header_bytes_def rd_def)
  have l: "unat (payload_len (payload (rfc_header f op m n))) = PAYLOAD_2_FLAG"
    using n by (simp add: rfc_header_def rfc_len_def payload_flag_defs)
  show ?thesis
    unfolding read_len_def Let_def l using rd0 rd1 sign uv by (simp add: ext)
qed


lemma decode_loop_None:
  "frame_body d p h = Inr None \<Longrightarrow> decode_loop d buf p h = Inr (PROTOCOL_ERROR, d, buf, h)"
  by (subst decode_loop.simps) simp

lemma decode_loop_fault: "frame_body d p h = Inl e \<Longrightarrow> decode_loop d buf p h = Inl e"
  by (subst decode_loop.simps) simp

text \<open>
  A single masked frame with such a length is well formed, yet the loop answers
  \<^verbatim>\<open>PROTOCOL_ERROR\<close>, or, where the sum in the size check wraps, unmasks far beyond the buffer.
\<close>

lemma decode_loop_sign_refused:
  assumes n: "126 \<le> length xs" "length xs < 65536" and low: "128 \<le> length xs mod 256" "length xs mod 256 < 254"
    and k: "good_key mk"
  shows "decode_loop (rfc_frame f op mk xs) buf 2 (rfc_header f op (mk \<noteq> None) (length xs))
       = Inr (PROTOCOL_ERROR, rfc_frame f op mk xs, buf, rfc_header f op (mk \<noteq> None) (length xs))"
proof -
  let ?h = "rfc_header f op (mk \<noteq> None) (length xs)" and ?d = "rfc_frame f op mk xs"
  from read_len_sign [OF n low(1), of ?h "rfc_payload mk xs" f op "mk \<noteq> None"]
  obtain w where rl: "read_len ?d 2 ?h = Inr (Some (w, 4))" and w: "unat w = 2 ^ 64 - 256 + length xs mod 256"
    by (auto simp: rfc_frame_def)
  have "unat (w + 2) = unat w + 2"
    using w low by (simp add: unat_add_lem [THEN iffD1])
  moreover have "length ?d < 2 ^ 64 - 256"
    using n k by (simp add: rfc_frame_def rfc_payload_def rfc_len_def good_key_def split: option.splits)
  ultimately have "of_nat (length ?d) < w + 2"
    using w by (simp add: word_less_nat_alt unat_of_nat)
  then have "frame_body ?d 2 ?h = Inr None"
    unfolding frame_body_def rl by simp
  then show ?thesis by (rule decode_loop_None)
qed

lemma decode_loop_sign_overrun:
  assumes n: "126 \<le> length xs" "length xs < 65536" and low: "254 \<le> length xs mod 256" and k: "length k = 4"
  shows "decode_loop (rfc_frame f op (Some k) xs) buf 2 (rfc_header f op True (length xs)) = Inl Out_of_bounds"
proof -
  let ?h = "rfc_header f op True (length xs)" and ?d = "rfc_frame f op (Some k) xs"
  have "128 \<le> length xs mod 256" using low by simp
  from read_len_sign [OF n this, of ?h "rfc_payload (Some k) xs" f op True]
  obtain w where rl: "read_len ?d 2 ?h = Inr (Some (w, 4))" and w: "unat w = 2 ^ 64 - 256 + length xs mod 256"
    by (auto simp: rfc_frame_def)
  have len: "length ?d = length xs + 8"
    using n k by (simp add: rfc_frame_def rfc_payload_def rfc_len_def)
  have "length xs mod 256 = 254 \<or> length xs mod 256 = 255"
    using low mod_less_divisor [of 256 "length xs"] by linarith
  then have "unat (w + 2) \<le> 1"
    using w by (auto simp: unat_word_ariths)
  moreover have "unat (of_nat (length ?d) :: 64 word) = length xs + 8"
    unfolding len using n by (intro unat_64_of_nat) simp
  ultimately have size: "\<not> of_nat (length ?d) < w + 2"
    using n by (simp add: word_less_nat_alt)
  have "?d = (header_bytes ?h @ snd (rfc_len (length xs))) @ k @ mask_from 0 k xs"
    by (simp add: rfc_frame_def rfc_payload_def)
  then have mk: "rd_range ?d 4 4 = Inr k"
    using rd_range_mid [of "header_bytes ?h @ snd (rfc_len (length xs))" k] n k by (simp add: rfc_len_def)
  have "unmask ?d 8 k (unat w) = Inl Out_of_bounds"
    by (rule unmask_out) (use n w in \<open>simp_all add: len\<close>)
  then have "frame_body ?d 2 ?h = Inl Out_of_bounds"
    unfolding frame_body_def rl using size mk by simp
  then show ?thesis by (rule decode_loop_fault)
qed

text \<open>The extended length of 8 bytes is read from a buffer that need only hold 6 of them.\<close>

lemma decode_loop_short8:
  "length d = 8 \<Longrightarrow> payload_len (payload h) = 127 \<Longrightarrow> decode_loop d buf 2 h = Inl Out_of_bounds"
  using len8_out [of d 2 8]
  by (simp add: decode_loop.simps [of _ _ _ h] frame_body_def read_len_def payload_flag_defs)

text \<open>A masked frame that lacks up to four of its payload bytes passes the size check.\<close>

lemma decode_loop_truncated:
  assumes n: "0 < unat (payload_len (payload h))" "unat (payload_len (payload h)) < 126"
    and m: "mask_flag (payload h)"
    and len: "unat (payload_len (payload h)) + 2 \<le> length d" "length d < unat (payload_len (payload h)) + 6"
  shows "decode_loop d buf 2 h = Inl Out_of_bounds"
proof -
  let ?n = "unat (payload_len (payload h))"
  have rl: "read_len d 2 h = Inr (Some (of_nat ?n, 2))"
    using n by (simp add: read_len_def payload_flag_defs)
  have size: "\<not> (of_nat (length d) :: 64 word) < of_nat ?n + 2"
    using len n by (intro size_check_plain) auto
  have un: "unat (of_nat ?n :: 64 word) = ?n" using n by (intro unat_64_of_nat) simp
  show ?thesis
  proof (cases "rd_range d 2 4")
    case (Inl e)
    then have "e = Out_of_bounds" by (simp add: rd_range_def split: if_splits)
    with Inl size m show ?thesis
      by (simp add: decode_loop.simps [of _ _ _ h] frame_body_def rl)
  next
    case (Inr k)
    have "unmask d 6 k ?n = Inl Out_of_bounds"
      using len n by (intro unmask_out) simp_all
    with Inr size m un show ?thesis
      by (simp add: decode_loop.simps [of _ _ _ h] frame_body_def rl)
  qed
qed

text \<open>A fragment that ends the buffer: the loop looks for the next header behind it.\<close>

lemma decode_loop_open_end:
  assumes good: "good_frame (mk, xs)" and ne: "xs \<noteq> []" and op: "\<not> f"
    and len: "length buf + length (rfc_frame f op mk xs) < 2 ^ 63" "length (rfc_frame f op mk xs) < 2 ^ 31"
  shows "decode_loop (rfc_frame f op mk xs) buf 2 (rfc_header f op (mk \<noteq> None) (length xs)) = Inl Out_of_bounds"
proof -
  let ?pre = "rfc_prefix f op mk (length xs)"
  have len': "length ([] @ rfc_frame f op mk xs @ []) < 2 ^ 31" using len by simp
  have fb: "frame_body (rfc_frame f op mk xs) 2 (rfc_header f op (mk \<noteq> None) (length xs))
      = Inr (Some (?pre @ xs, length ?pre, length xs))"
    using frame_body_rfc [OF good len']
    by (simp only: append_Nil append_Nil2 list.size add_0)
  have ar: "append_range buf (?pre @ xs) (length ?pre) (length xs) = Inr (buf @ xs)"
    using append_range_mid [of buf xs ?pre "[]"] len by (simp add: rfc_frame_prefix)
  have "read_header (?pre @ xs) (length ?pre + length xs) = Inl Out_of_bounds"
    using rd_end [of "?pre @ xs"] rd_out [of "?pre @ xs"] by (simp add: read_header_def)
  then show ?thesis
    using fb ar ne op by (simp add: decode_loop.simps [of _ _ _ "rfc_header _ _ _ _"])
qed

end
