(* ===== verification/Http_Correct.thy ===== *)
theory Http_Correct
  imports Http_Server Tcp_Correct
begin

text \<open>
  What the request parser accepts: every request in the shape a client sends is parsed into exactly
  its verb, path and header fields, and what happens on other input.
\<close>

section \<open>Requests\<close>

definition CRLF :: bytes where "CRLF = [13, 10]"

definition render_header :: "bytes \<times> bytes \<Rightarrow> bytes" where
  "render_header kv = fst kv @ [58, 32] @ snd kv @ CRLF"

definition render_request :: "bytes \<Rightarrow> bytes \<Rightarrow> bytes \<Rightarrow> (bytes \<times> bytes) list \<Rightarrow> bytes" where
  "render_request verb path version hs =
     verb @ [32] @ path @ [32] @ version @ CRLF @ concat (map render_header hs) @ CRLF"

definition plain :: "bytes \<Rightarrow> bool" where
  "plain w \<longleftrightarrow> 13 \<notin> set w \<and> 10 \<notin> set w"

definition good_header :: "bytes \<times> bytes \<Rightarrow> bool" where
  "good_header kv \<longleftrightarrow> fst kv \<noteq> [] \<and> plain (fst kv) \<and> 58 \<notin> set (fst kv) \<and> snd kv \<noteq> [] \<and> plain (snd kv)"

definition good_word :: "bytes \<Rightarrow> bool" where
  "good_word w \<longleftrightarrow> plain w \<and> 32 \<notin> set w"

lemma plain_simps [simp]:
  "plain []" "plain (b # w) \<longleftrightarrow> b \<noteq> 13 \<and> b \<noteq> 10 \<and> plain w"
  by (auto simp: plain_def)

lemma good_word_simps [simp]:
  "good_word []" "good_word (b # w) \<longleftrightarrow> b \<noteq> 13 \<and> b \<noteq> 10 \<and> b \<noteq> 32 \<and> good_word w"
  by (auto simp: good_word_def)

section \<open>The scanning loops\<close>

lemma rd_second: "rd (pre @ b # b' # post) (Suc (length pre)) = Inr b'"
  using rd_append [of "pre @ [b]" b' post] by simp

lemma in_line_at: "in_line (pre @ b # b' # post) (length pre) = Inr (b \<noteq> 13 \<and> b' \<noteq> 10)"
  by (simp add: in_line_def rd_second)

lemma find_eol_at:
  "plain v \<Longrightarrow> find_eol (pre @ v @ 13 # b # post) (length pre) = Inr (length pre + length v)"
proof (induction v arbitrary: pre)
  case Nil
  show ?case by (simp add: find_eol.simps [of _ "length pre"] in_line_at)
next
  case (Cons c v)
  let ?d = "pre @ (c # v) @ 13 # b # post"
  obtain b' post' where nx: "v @ 13 # b # post = b' # post'" "b' \<noteq> 10"
    using Cons.prems by (cases v) auto
  then have "in_line ?d (length pre) = Inr True"
    using Cons.prems in_line_at [of pre c b' post'] by simp
  then have "find_eol ?d (length pre) = find_eol ?d (Suc (length pre))"
    by (simp add: find_eol.simps [of _ "length pre"])
  moreover have "find_eol ?d (Suc (length pre)) = Inr (Suc (length pre) + length v)"
    using Cons.IH [of "pre @ [c]"] Cons.prems by simp
  ultimately show ?case by simp
qed

lemma find_colon_at:
  "58 \<notin> set k \<Longrightarrow> find_colon (pre @ k @ 58 # post) (length pre) = Inr (length pre + length k)"
proof (induction k arbitrary: pre)
  case Nil
  show ?case by (simp add: find_colon.simps [of _ "length pre"])
next
  case (Cons c k)
  have "find_colon (pre @ (c # k) @ 58 # post) (length pre) = find_colon (pre @ (c # k) @ 58 # post) (Suc (length pre))"
    using Cons.prems by (simp add: find_colon.simps [of _ "length pre"])
  with Cons.IH [of "pre @ [c]"] Cons.prems show ?case by simp
qed

lemma request_line_word:
  "good_word w \<Longrightarrow> c \<noteq> 10 \<Longrightarrow>
   request_line (pre @ w @ c # b # post) (length pre) n i hdr
   = request_line (pre @ w @ c # b # post) (length pre + length w) n i hdr"
proof (induction w arbitrary: pre)
  case Nil
  then show ?case by simp
next
  case (Cons x w)
  let ?d = "pre @ (x # w) @ c # b # post"
  obtain b' post' where nx: "w @ c # b # post = b' # post'" "b' \<noteq> 10"
    using Cons.prems by (cases w) auto
  then have "in_line ?d (length pre) = Inr True"
    using Cons.prems in_line_at [of pre x b' post'] by simp
  then have "request_line ?d (length pre) n i hdr = request_line ?d (Suc (length pre)) n i hdr"
    using Cons.prems by (simp add: request_line.simps [of _ "length pre"])
  with Cons.IH [of "pre @ [x]"] Cons.prems show ?case by simp
qed

lemma request_line_blank:
  "b \<noteq> 10 \<Longrightarrow> request_line (pre @ 32 # b # post) (length pre) n i hdr
   = request_line (pre @ 32 # b # post) (Suc (length pre)) (Suc (length pre)) (Suc i)
      (if i = 0 then emplace (bytes_of ''method'') (substring (pre @ 32 # b # post) n (length pre)) hdr
       else if i = 1 then emplace (bytes_of ''path'') (substring (pre @ 32 # b # post) n (length pre)) hdr
       else hdr)"
  by (subst request_line.simps) (simp add: in_line_at)

lemma request_line_end: "request_line (pre @ 13 # b # post) (length pre) n i hdr = Inr (length pre, hdr)"
  by (subst request_line.simps) (simp add: in_line_at)

lemma substring_mid: "substring (pre @ w @ post) (length pre) (length pre + length w) = w"
  by (simp add: substring_def)

lemma request_line_ok:
  assumes m: "good_word verb" and p: "good_word path" and v: "good_word version"
  shows "request_line (verb @ [32] @ path @ [32] @ version @ CRLF @ rest) 0 0 0 hdr
    = Inr (length (verb @ [32] @ path @ [32] @ version),
           emplace (bytes_of ''path'') path (emplace (bytes_of ''method'') verb hdr))"
proof -
  let ?d = "verb @ [32] @ path @ [32] @ version @ CRLF @ rest"
  obtain b1 r1 where r1: "path @ [32] @ version @ CRLF @ rest = b1 # r1" "b1 \<noteq> 10"
    using p by (cases path) auto
  obtain b2 r2 where r2: "version @ CRLF @ rest = b2 # r2" "b2 \<noteq> 10"
    using v by (cases version) (auto simp: CRLF_def)
  let ?h1 = "emplace (bytes_of ''method'') verb hdr"
  let ?h2 = "emplace (bytes_of ''path'') path ?h1"
  have s1: "substring ?d 0 (length verb) = verb" by (simp add: substring_def)
  have s2: "substring ?d (Suc (length verb)) (Suc (length verb) + length path) = path"
    using substring_mid [of "verb @ [32]" path "[32] @ version @ CRLF @ rest"] by simp
  have "request_line ?d 0 0 0 hdr = request_line ?d (length verb) 0 0 hdr"
    using request_line_word [OF m, of 32 "[]" b1 r1 0 0 hdr] r1 by simp
  also have "\<dots> = request_line ?d (Suc (length verb)) (Suc (length verb)) 1 ?h1"
    using request_line_blank [OF r1(2), of verb r1 0 0 hdr] r1 s1 by simp
  also have "\<dots> = request_line ?d (Suc (length verb) + length path) (Suc (length verb)) 1 ?h1"
    using request_line_word [OF p, of 32 "verb @ [32]" b2 r2 "Suc (length verb)" 1 ?h1] r2 by simp
  also have "\<dots> = request_line ?d (Suc (Suc (length verb) + length path)) (Suc (Suc (length verb) + length path)) (Suc (Suc 0)) ?h2"
    using request_line_blank [OF r2(2), of "verb @ [32] @ path" r2 "Suc (length verb)" 1 ?h1] r2 s2 by simp
  also have "\<dots> = request_line ?d (Suc (Suc (length verb) + length path) + length version)
      (Suc (Suc (length verb) + length path)) (Suc (Suc 0)) ?h2"
    using request_line_word [OF v, of 13 "verb @ [32] @ path @ [32]" 10 rest "Suc (Suc (length verb) + length path)" "Suc (Suc 0)" ?h2]
    by (simp add: CRLF_def)
  also have "\<dots> = Inr (Suc (Suc (length verb) + length path) + length version, ?h2)"
    using request_line_end [of "verb @ [32] @ path @ [32] @ version" 10 rest "Suc (Suc (length verb) + length path)" "Suc (Suc 0)" ?h2]
    by (simp add: CRLF_def add.assoc)
  finally show ?thesis by simp
qed

section \<open>The header lines\<close>

lemma header_line_step:
  assumes "good_header kv"
  shows "header_lines (pre @ render_header kv @ post) (length pre) hdr =
    (let n = length (pre @ render_header kv); hdr' = emplace (fst kv) (snd kv) hdr in
     bnd (rd (pre @ render_header kv @ post) n) (\<lambda>b.
       if b \<noteq> 13 then header_lines (pre @ render_header kv @ post) n hdr'
       else bnd (rd (pre @ render_header kv @ post) (Suc n)) (\<lambda>b'.
         if b' \<noteq> 10 then header_lines (pre @ render_header kv @ post) n hdr' else Inr (True, hdr'))))"
proof -
  obtain k v where kv: "kv = (k, v)" by (cases kv)
  define d where "d = pre @ render_header kv @ post"
  have good: "k \<noteq> []" "58 \<notin> set k" "v \<noteq> []" "plain v" using assms by (simp_all add: good_header_def kv)
  have d: "d = pre @ k @ 58 # 32 # v @ 13 # 10 # post" by (simp add: d_def kv render_header_def CRLF_def)
  have colon: "find_colon d (length pre) = Inr (length pre + length k)"
    unfolding d by (rule find_colon_at [OF good(2)])
  have key: "substring d (length pre) (length pre + length k) = k" unfolding d by (rule substring_mid)
  have start: "length pre + length k + 2 = length (pre @ k @ [58, 32])" by simp
  have d2: "d = (pre @ k @ [58, 32]) @ v @ 13 # 10 # post" by (simp add: d)
  have eol: "find_eol d (length pre + length k + 2) = Inr (length pre + length k + 2 + length v)"
    unfolding d2 start by (rule find_eol_at [OF good(4)])
  have val: "substring d (length pre + length k + 2) (length pre + length k + 2 + length v) = v"
    unfolding d2 start by (rule substring_mid)
  have n: "length (pre @ render_header kv) = length pre + length k + 2 + length v + 2"
    by (simp add: kv render_header_def CRLF_def)
  have n': "length pre + length k + 2 + length v + 3 = Suc (length pre + length k + 2 + length v + 2)" by simp
  show ?thesis
    unfolding d_def [symmetric] n Let_def unfolding kv fst_conv snd_conv
    by (subst header_lines.simps) (simp only: colon key eol val Let_def bnd_simps good if_False n')
qed

text \<open>All fields of the map after the lines: the first value of a repeated key stays.\<close>

definition fields :: "(bytes \<times> bytes) list \<Rightarrow> (bytes \<rightharpoonup> bytes) \<Rightarrow> (bytes \<rightharpoonup> bytes)" where
  "fields hs hdr = fold (\<lambda>(k, v). emplace k v) hs hdr"

lemma header_lines_ok:
  "hs \<noteq> [] \<Longrightarrow> \<forall>kv \<in> set hs. good_header kv
   \<Longrightarrow> header_lines (pre @ concat (map render_header hs) @ CRLF @ post) (length pre) hdr = Inr (True, fields hs hdr)"
proof (induction hs arbitrary: pre hdr)
  case Nil
  then show ?case by simp
next
  case (Cons kv hs)
  have good: "good_header kv" using Cons.prems by simp
  let ?pre' = "pre @ render_header kv" and ?hdr' = "emplace (fst kv) (snd kv) hdr"
  let ?post' = "concat (map render_header hs) @ CRLF @ post"
  have f: "fields (kv # hs) hdr = fields hs ?hdr'" by (simp add: fields_def split_beta)
  have d: "pre @ concat (map render_header (kv # hs)) @ CRLF @ post = pre @ render_header kv @ ?post'" by simp
  show ?case
  proof (cases hs)
    case Nil
    then have p: "?post' = 13 # 10 # post" by (simp add: CRLF_def)
    have "rd (pre @ render_header kv @ 13 # 10 # post) (length ?pre') = Inr 13"
      and "rd (pre @ render_header kv @ 13 # 10 # post) (Suc (length ?pre')) = Inr 10"
      using rd_append [of ?pre' 13 "10 # post"] rd_second [of ?pre' 13 10 post] by simp_all
    then show ?thesis
      unfolding d header_line_step [OF good] p using Nil by (simp add: Let_def fields_def split_beta)
  next
    case (Cons kv' hs')
    have g': "good_header kv'" using Cons.prems(2) Cons by simp
    then obtain b post'' where p: "?post' = b # post''" "b \<noteq> 13"
      using Cons by (cases "fst kv'") (auto simp: good_header_def render_header_def)
    have "rd (pre @ render_header kv @ ?post') (length ?pre') = Inr b"
      unfolding p(1) using rd_append [of ?pre' b post''] by simp
    then have "header_lines (pre @ render_header kv @ ?post') (length pre) hdr
        = header_lines (?pre' @ ?post') (length ?pre') ?hdr'"
      unfolding header_line_step [OF good] using p(2) by (simp add: Let_def)
    also have "\<dots> = Inr (True, fields hs ?hdr')" using Cons.prems Cons by (intro Cons.IH) auto
    finally show ?thesis unfolding d f .
  qed
qed

lemma decode_render_request:
  assumes "good_word verb" and "good_word path" and "good_word version"
    and "hs \<noteq> []" and "\<forall>kv \<in> set hs. good_header kv"
  shows "decode_http_header (render_request verb path version hs @ rest) hdr
    = Inr (True, fields ((bytes_of ''method'', verb) # (bytes_of ''path'', path) # hs) hdr)"
proof -
  let ?l = "verb @ [32] @ path @ [32] @ version"
  have d: "render_request verb path version hs @ rest
      = verb @ [32] @ path @ [32] @ version @ CRLF @ (concat (map render_header hs) @ CRLF @ rest)"
    by (simp add: render_request_def)
  have e: "\<dots> = (?l @ CRLF) @ concat (map render_header hs) @ CRLF @ rest" by simp
  have n: "length ?l + 2 = length (?l @ CRLF)" by (simp add: CRLF_def)
  have "header_lines (render_request verb path version hs @ rest) (length ?l + 2) hdr'
      = Inr (True, fields hs hdr')" for hdr'
    unfolding d e n by (rule header_lines_ok [OF assms(4,5)])
  then show ?thesis
    unfolding decode_http_header_def
    by (subst d, subst request_line_ok [OF assms(1-3)]) (simp add: fields_def)
qed

lemma fields_map_of: "fields kvs Map.empty = map_of kvs"
proof -
  have "fields kvs m = (\<lambda>k. case m k of None \<Rightarrow> map_of kvs k | Some v \<Rightarrow> Some v)" for m
    by (induction kvs arbitrary: m) (auto simp: fields_def emplace_def fun_eq_iff split: option.splits)
  then show ?thesis by simp
qed

section \<open>Other input\<close>

text \<open>Without a line end there is nothing that stops the scan inside the string.\<close>

lemma request_line_open:
  "plain d \<Longrightarrow> m \<le> length d \<Longrightarrow> request_line d m n i hdr = Inl Out_of_bounds"
proof (induction d m n i hdr rule: request_line.induct)
  case (1 d m n i hdr)
  show ?case
  proof (cases "m = length d")
    case True
    then have "in_line d m = Inl Out_of_bounds" by (simp add: in_line_def rd_out)
    then show ?thesis by (simp add: request_line.simps [of d m])
  next
    case False
    with 1(4) have m: "m < length d" by simp
    have b: "d ! m \<noteq> 13" using m 1(3) by (auto simp: plain_def dest: nth_mem)
    have "rd d (m + 1) \<noteq> Inr 10"
      using m 1(3) by (auto simp: rd_def plain_def dest: nth_mem)
    moreover have "\<exists>b'. rd d (m + 1) = Inr b'" using m by (auto simp: rd_def)
    ultimately obtain b' where "rd d (m + 1) = Inr b'" "b' \<noteq> 10" by auto
    with b m have go: "in_line d m = Inr True" by (simp add: in_line_def)
    have d: "rd d m = Inr (d ! m)" using m by simp
    show ?thesis
      using 1(1) [OF go _ d] 1(2) [OF go _ d] 1(3) m go d
      by (simp add: request_line.simps [of d m])
  qed
qed

section \<open>The properties\<close>

text \<open>
  C20: a request in the form clients send, a request line of three words and at least one header
  field, is parsed into its verb, its path and every header field, the first value winning when a
  key is repeated; whatever follows the blank line is ignored. This is the round trip of rendering
  and parsing.
\<close>

theorem decode_http_header_roundtrip:
  assumes "good_word verb" and "good_word path" and "good_word version"
    and "hs \<noteq> []" and "\<forall>kv \<in> set hs. good_header kv"
  shows "decode_http_header (render_request verb path version hs @ rest) Map.empty
    = Inr (True, map_of ((bytes_of ''method'', verb) # (bytes_of ''path'', path) # hs))"
  using decode_render_request [OF assms, of rest Map.empty] by (simp only: fields_map_of)

theorem decode_http_header_roundtrip_witness:
  "\<exists>hdr. decode_http_header (bytes_of ''GET /chat HTTP/1.1'' @ CRLF @ bytes_of ''Upgrade: websocket'' @ CRLF @ CRLF) Map.empty
      = Inr (True, hdr) \<and> hdr (bytes_of ''path'') = Some (bytes_of ''/chat'')
      \<and> hdr (bytes_of ''Upgrade'') = Some (bytes_of ''websocket'')"
proof -
  have "render_request (bytes_of ''GET'') (bytes_of ''/chat'') (bytes_of ''HTTP/1.1'')
      [(bytes_of ''Upgrade'', bytes_of ''websocket'')]
    = bytes_of ''GET /chat HTTP/1.1'' @ CRLF @ bytes_of ''Upgrade: websocket'' @ CRLF @ CRLF"
    by (simp add: render_request_def render_header_def)
  with decode_http_header_roundtrip [of "bytes_of ''GET''" "bytes_of ''/chat''" "bytes_of ''HTTP/1.1''"
      "[(bytes_of ''Upgrade'', bytes_of ''websocket'')]" "[]"]
  show ?thesis by (simp add: good_header_def)
qed

text \<open>
  The parser has no bound on its scans: on a first packet without a carriage return and a line
  feed, whatever else it holds, it reads behind the end of the received string.
\<close>

theorem decode_http_header_overrun:
  assumes "13 \<notin> set d" and "10 \<notin> set d"
  shows "decode_http_header d hdr = Inl Out_of_bounds"
  using assms by (simp add: decode_http_header_def request_line_open plain_def)

theorem decode_http_header_overrun_witness:
  "decode_http_header (bytes_of ''hello'') Map.empty = Inl Out_of_bounds"
  by (rule decode_http_header_overrun) simp_all

end
