(* ===== verification/Websocket_Correct.thy ===== *)
theory Websocket_Correct
  imports Websocket_Hooks Ws_Rfc Http_Correct
begin

text \<open>
  What the WebSocket server does with the requests and frames a client sends, measured against
  RFC 6455: the handshake, messages and control frames, and the inputs on which it fails.
\<close>

section \<open>A client and its buffers\<close>

text \<open>The process with one client object replaced.\<close>

definition put :: "addr \<Rightarrow> 'c \<Rightarrow> ('f, 'c, 'k, 'z) process_scheme \<Rightarrow> ('f, 'c, 'k, 'z) process_scheme" where
  "put a c s = s\<lparr>heap := (heap s)(a \<mapsto> c)\<rparr>"

lemma put_simps [simp]:
  "heap (put a c s) = (heap s)(a \<mapsto> c)" "put a c (put a c' s) = put a c s"
  "clients (put a c s) = clients s" "wire (put a c s) = wire s" "open_fds (put a c s) = open_fds s"
  by (simp_all add: put_def)

lemma put_fields [simp]:
  "heartbeat (put a c s) = heartbeat s" "stack_rest (put a c s) = stack_rest s" "clock (put a c s) = clock s"
  by (simp_all add: put_def)

lemma put_same: "heap s a = Some c \<Longrightarrow> put a c s = s"
  by (cases s) (auto simp: put_def)

lemma modify_put: "heap s a = Some c \<Longrightarrow> modify a g s = Inr (put a (g c) s)"
  by (simp add: put_def)

definition sending :: "int \<Rightarrow> ('f, 'c, 'k, 'z) process_scheme \<Rightarrow> ('f, 'c, 'k, 'z) process_scheme" where
  "sending fd s = ctl_mod fd (EPOLLIN OR EPOLLOUT OR EPOLLRDHUP OR EPOLLET) s"

lemma sending_simps [simp]:
  "heap (sending fd s) = heap s" "clients (sending fd s) = clients s" "wire (sending fd s) = wire s"
  "open_fds (sending fd s) = open_fds s"
  by (simp_all add: sending_def)

lemma sending_put: "sending fd (put a c s) = put a c (sending fd s)"
  by (auto simp: sending_def put_def ctl_mod_def)

lemma sending_fields [simp]:
  "heartbeat (sending fd s) = heartbeat s" "stack_rest (sending fd s) = stack_rest s" "clock (sending fd s) = clock s"
  by (simp_all add: sending_def ctl_mod_def)

definition queued :: "bytes \<Rightarrow> 'x tcp_client_scheme \<Rightarrow> 'x tcp_client_scheme" where
  "queued d c = c\<lparr>send_buffer_queue := send_buffer_queue c @ [d]\<rparr>"

lemma queued_simps [simp]:
  "send_buffer_queue (queued d c) = send_buffer_queue c @ [d]" "sockfd (queued d c) = sockfd c"
  "recv_buffer (queued d c) = recv_buffer c"
  by (simp_all add: queued_def)

lemma send_put:
  "heap s a = Some c \<Longrightarrow> server_send_buffer a d s = Inr (put a (queued d c) (sending (sockfd c) s))"
  by (auto simp: server_send_buffer_def sending_def put_def ctl_mod_def queued_def)

lemma send_without_frame_put:
  "heap s a = Some c \<Longrightarrow> send_without_frame a d s = Inr (put a (queued d c) (sending (sockfd c) s))"
  by (simp add: send_without_frame_def tcp_send_def send_put)

text \<open>The parts of a client that its messages leave alone.\<close>

definition steady :: "websocket_client \<Rightarrow> websocket_client \<Rightarrow> bool" where
  "steady c c' \<longleftrightarrow> sockfd c' = sockfd c \<and> wait_close c' = wait_close c \<and> time_wheel_id c' = time_wheel_id c
     \<and> time_wheel_heartbeat_id c' = time_wheel_heartbeat_id c"

lemma steady_refl [simp]: "steady c c"
  by (simp add: steady_def)

lemma steady_queued [simp]: "steady c (queued d c') = steady c c'"
  by (simp add: steady_def queued_def)

section \<open>Messages\<close>

lemma read_header_0: "read_header (header_bytes h @ post) 0 = Inr h"
  using read_header_at [of "[]" h post] by simp

lemma first_header_op: "fs \<noteq> [] \<Longrightarrow> opcode (op_bits (first_header op fs)) = op"
  by (cases fs) (auto simp: rfc_header_def)

lemma message_bytes_length: "fs \<noteq> [] \<Longrightarrow> 2 \<le> length (message_bytes op fs)"
  using message_bytes_header [of fs op] by fastforce

definition text_ok :: "4 word \<Rightarrow> (bytes option \<times> bytes) list \<Rightarrow> bytes \<Rightarrow> bool" where
  "text_ok op fs buf \<longleftrightarrow> (op = TEXT_FRAME \<and> length fs = 1 \<longrightarrow> validate_utf8 (buf @ concat (map snd fs)))"

lemma first_header_fin: "fs \<noteq> [] \<Longrightarrow> fin (op_bits (first_header op fs)) \<longleftrightarrow> length fs = 1"
  by (cases fs) (auto simp: rfc_header_def)

lemma decode_data_frame_message:
  assumes c: "heap s a = Some c" and d: "recv_buffer c = message_bytes op fs @ post"
    and h: "wb_header c = first_header op fs" and fs: "fs \<noteq> []" "\<forall>fr \<in> set fs. good_frame fr"
    and len: "length (decode_buffer c) + length (message_bytes op fs) < 2 ^ 63" "length (message_bytes op fs @ post) < 2 ^ 31"
    and t: "text_ok op fs (decode_buffer c)"
  shows "\<exists>c'. decode_websocket_data_frame a s = Inr (SUCCESS, put a c' s) \<and> fin (op_bits (wb_header c'))
    \<and> decode_buffer c' = decode_buffer c @ concat (map snd fs) \<and> is_connected c' = is_connected c
    \<and> send_buffer_queue c' = send_buffer_queue c \<and> steady c c'"
proof -
  have "length ([] @ message_bytes op fs @ post) < 2 ^ 31" using len(2) by simp
  from decode_loop_message [OF fs len(1) this] obtain d' h' where
    dl: "decode_loop (recv_buffer c) (decode_buffer c) 2 (wb_header c)
        = Inr (SUCCESS, d', decode_buffer c @ concat (map snd fs), h')" and fin: "fin (op_bits h')"
    unfolding d h by (simp only: append_Nil list.size add_0) blast
  have "\<not> (opcode (op_bits (wb_header c)) = TEXT_FRAME \<and> fin (op_bits (wb_header c))
      \<and> \<not> validate_utf8 (decode_buffer c @ concat (map snd fs)))"
    using t first_header_op [OF fs(1), of op] first_header_fin [OF fs(1), of op] by (simp add: h text_ok_def)
  then show ?thesis
    using c fin by (intro exI conjI) (simp add: decode_websocket_data_frame_def Let_def dl modify_put [OF c], simp_all add: steady_def)
qed


lemma ws_decode_frame:
  assumes c: "heap s a = Some c" and up: "is_connected c \<noteq> NONE" and data: "data = header_bytes h @ post"
  shows "ws_decode_proto_data cr user a data s
    = dispatch_frame user a (opcode (op_bits h)) (put a (c\<lparr>recv_buffer := data, wb_header := h\<rparr>) s)"
  using assms
  by (simp add: ws_decode_proto_data_def decode_frames_def read_header_0 put_def)

lemma dispatch_data:
  assumes c: "heap s a = Some c" and op: "op = TEXT_FRAME \<or> op = BINARY_FRAME \<or> op = CONTINUATION_FRAME"
    and d: "decode_websocket_data_frame a s = Inr (SUCCESS, s')" and c': "heap s' a = Some c'"
  shows "dispatch_frame user a op s = Inr (fin (op_bits (wb_header c')), s')"
proof -
  have "op \<noteq> CLOSE" "op \<noteq> PONG" "op \<noteq> PING" using op by (auto simp: opcode_defs)
  with assms show ?thesis by (auto simp: dispatch_frame_def)
qed

lemma message_decoded:
  assumes c: "heap s a = Some c" and up: "is_connected c \<noteq> NONE"
    and fs: "fs \<noteq> []" "\<forall>fr \<in> set fs. good_frame fr" and op: "op = TEXT_FRAME \<or> op = BINARY_FRAME"
    and data: "data = message_bytes op fs @ post" and t: "text_ok op fs (decode_buffer c)"
    and len: "length (decode_buffer c) + length (message_bytes op fs) < 2 ^ 63" "length data < 2 ^ 31"
  shows "\<exists>c'. ws_decode_proto_data cr user a data s = Inr (True, put a c' s)
    \<and> get_message c' = get_message c @ concat (map snd fs) \<and> is_connected c' = is_connected c
    \<and> send_buffer_queue c' = send_buffer_queue c \<and> steady c c'"
proof -
  let ?h = "first_header op fs"
  let ?c1 = "c\<lparr>recv_buffer := data, wb_header := ?h\<rparr>" 
  let ?s1 = "put a ?c1 s"
  obtain tl where "message_bytes op fs = header_bytes ?h @ tl" using message_bytes_header [OF fs(1)] by blast
  then have "data = header_bytes ?h @ (tl @ post)" by (simp add: data)
  from ws_decode_frame [OF c up this] have eq: "ws_decode_proto_data cr user a data s = dispatch_frame user a op ?s1"
    by (simp add: first_header_op [OF fs(1)])
  have "\<exists>c'. decode_websocket_data_frame a ?s1 = Inr (SUCCESS, put a c' ?s1) \<and> fin (op_bits (wb_header c'))
    \<and> decode_buffer c' = decode_buffer ?c1 @ concat (map snd fs) \<and> is_connected c' = is_connected ?c1
    \<and> send_buffer_queue c' = send_buffer_queue ?c1 \<and> steady ?c1 c'"
    by (rule decode_data_frame_message [OF _ _ _ fs, where op = op and post = post]) (use len t data in simp_all)
  then obtain c' where d: "decode_websocket_data_frame a ?s1 = Inr (SUCCESS, put a c' ?s1)"
    and f: "fin (op_bits (wb_header c'))" "decode_buffer c' = decode_buffer c @ concat (map snd fs)"
      "is_connected c' = is_connected c" "send_buffer_queue c' = send_buffer_queue c" "steady c c'" by (auto simp: steady_def)
  have op3: "op = TEXT_FRAME \<or> op = BINARY_FRAME \<or> op = CONTINUATION_FRAME" using op by blast
  have "dispatch_frame user a op ?s1 = Inr (True, put a c' s)"
    using dispatch_data [OF _ op3 d, of ?c1 c' user] f(1) by simp
  with eq f show ?thesis by (auto simp: get_message_def)
qed

lemma ping_decoded:
  assumes "heap s a = Some c" and "is_connected c \<noteq> NONE" and "data = rfc_frame f PING mk xs @ post"
  shows "ws_decode_proto_data cr user a data s = Inr (False, put a (queued [0x8A, 0x00]
    (c\<lparr>recv_buffer := data, wb_header := rfc_header f PING (mk \<noteq> None) (length xs)\<rparr>)) (sending (sockfd c) s))"
proof -
  let ?h = "rfc_header f PING (mk \<noteq> None) (length xs)"
  let ?c1 = "c\<lparr>recv_buffer := data, wb_header := ?h\<rparr>"
  have "data = header_bytes ?h @ (snd (rfc_len (length xs)) @ rfc_payload mk xs @ post)"
    by (simp add: assms(3) rfc_frame_def)
  from ws_decode_frame [OF assms(1,2) this] have "ws_decode_proto_data cr user a data s = dispatch_frame user a PING (put a ?c1 s)"
    by (simp add: rfc_header_def)
  moreover have "generate_websocket_pong_res = [0x8A, 0x00]"
    by (simp add: generate_websocket_pong_res_def control_header_def header_bytes_def zero_header_def PONG_def)
  ultimately show ?thesis
    by (simp add: dispatch_frame_def opcode_defs send_without_frame_put sending_put)
qed

section \<open>The properties\<close>


text \<open>A client after its handshake, the only one of its server.\<close>

definition sample_ws_client :: websocket_client where
  "sample_ws_client = (new_websocket_client (replicate 16 0))\<lparr>sockfd := 7, is_connected := CONNECTED\<rparr>"

lemma sample_ws_client_simps [simp]:
  "sockfd sample_ws_client = 7" "is_connected sample_ws_client = CONNECTED" "decode_buffer sample_ws_client = []"
  "send_buffer_queue sample_ws_client = []" "wait_close sample_ws_client = False" "time_wheel_id sample_ws_client = 0"
  "time_wheel_heartbeat_id sample_ws_client = 0"
  by (simp_all add: sample_ws_client_def new_websocket_client_def new_tcp_client_def)

definition sample_ws :: "websocket_client \<Rightarrow> unit websocket_process" where
  "sample_ws c = process.extend (one_client c) (websocket_process.fields False None 0 [0])"

lemma sample_ws_simps [simp]:
  "heap (sample_ws c) = [0 \<mapsto> c]" "clients (sample_ws c) = [7 \<mapsto> 0]" "wire (sample_ws c) = (\<lambda>_. [])"
  "heartbeat (sample_ws c) = False" "stack_rest (sample_ws c) = [0]" "disconnect_f (sample_ws c) = None"
  by (simp_all add: sample_ws_def process.extend_def one_client_def process_init_def wheel.extend_def
      process.fields_def websocket_process.fields_def)

definition no_user :: "unit \<Rightarrow> addr \<Rightarrow> unit websocket_process \<Rightarrow> unit websocket_process res" where
  "no_user u a s = Inr s"

text \<open>Concrete functions in place of OpenSSL's, with the sizes of its results.\<close>

definition sample_crypto :: crypto where
  "sample_crypto = \<lparr>sha1 = (\<lambda>d. replicate 20 (of_nat (length d))), encode_block = (\<lambda>h. replicate 28 65)\<rparr>"



text \<open>
  C21: \<^verbatim>\<open>websocket_client::send\<close> queues exactly the frame that RFC 6455 prescribes for the text: one final,
  unmasked text frame with the shortest of the three length encodings, whatever the length.
\<close>

theorem send_queues_rfc_frame:
  assumes "heap s a = Some c" and "length msg < 2 ^ 64"
  shows "ws_send a msg s = Inr (put a (queued (rfc_frame True TEXT_FRAME None msg) c) (sending (sockfd c) s))"
  using assms by (simp add: ws_send_def send_put send_frame_rfc)

theorem send_queues_rfc_frame_witness:
  "ws_send 0 (bytes_of ''hello'') (sample_ws sample_ws_client)
   = Inr (put 0 (queued (rfc_frame True TEXT_FRAME None (bytes_of ''hello'')) sample_ws_client) (sending 7 (sample_ws sample_ws_client)))"
  using send_queues_rfc_frame [of "sample_ws sample_ws_client" 0 sample_ws_client "bytes_of ''hello''"] by simp

text \<open>
  C29: a ping is answered by a pong frame and kept from the application, also before the connection
  counts as established; the pong is always empty, while RFC 6455 wants the ping's payload back.
\<close>

theorem ping_answered_empty:
  assumes "heap s a = Some c" and "is_connected c \<noteq> NONE" and "data = rfc_frame f PING mk xs @ post"
  shows "\<exists>c'. ws_decode_proto_data cr user a data s = Inr (False, put a (queued [0x8A, 0x00] c') (sending (sockfd c) s))
    \<and> send_buffer_queue c' = send_buffer_queue c \<and> get_message c' = get_message c"
  using ping_decoded [OF assms, of cr user]
  by (intro exI [of _ "c\<lparr>recv_buffer := data, wb_header := rfc_header f PING (mk \<noteq> None) (length xs)\<rparr>"]) (simp add: get_message_def)

theorem ping_answered_empty_witness:
  "\<exists>c'. ws_decode_proto_data sample_crypto no_user 0 (rfc_frame True PING (Some [9, 8, 7, 6]) (bytes_of ''are you there'')) (sample_ws sample_ws_client)
    = Inr (False, put 0 (queued [0x8A, 0x00] c') (sending 7 (sample_ws sample_ws_client)))"
  using ping_answered_empty [of "sample_ws sample_ws_client" 0 sample_ws_client _ True "Some [9, 8, 7, 6]" "bytes_of ''are you there''" "[]"
      sample_crypto no_user]
  by auto

lemma header_close: "header_bytes (control_header CLOSE 2) = [0x88, 0x02]"
  by (simp add: control_header_def header_bytes_def zero_header_def CLOSE_def)

lemma c_str_no_zero: "c_str b = Inr r \<Longrightarrow> 0 \<notin> set r"
  by (induction b arbitrary: r) (auto split: if_splits)

text \<open>
  C34: the closing frame is never the one of RFC 6455: \<^verbatim>\<open>send_buffer += (char *)&header\<close> reads a C string
  from a two-byte struct, so it takes along what lies behind it on the stack, and
  \<^verbatim>\<open>send_buffer += htobe16(...)\<close> appends a single \<^verbatim>\<open>char\<close>. Whatever is on the stack and whatever the code,
  the bytes sent are wrong; with a zero behind the header they announce two bytes and carry one.
\<close>

theorem close_frame_malformed:
  "close_frame stack flag \<noteq> Inr (rfc_frame True CLOSE None (be16 (close_code flag)))
   \<and> close_frame (0 # stack) flag = Inr [0x88, 0x02, be16 (close_code flag) ! 0]"
proof
  show "close_frame (0 # stack) flag = Inr [0x88, 0x02, be16 (close_code flag) ! 0]"
    by (simp add: close_frame_def header_close)
  have rfc: "rfc_frame True CLOSE None (be16 (close_code flag)) = [0x88, 0x02] @ be16 (close_code flag)"
    by (simp add: rfc_frame_def rfc_len_def rfc_header_def rfc_payload_def header_bytes_def CLOSE_def)
  obtain b0 b1 where b: "be16 (close_code flag) = [b0, b1]" by (simp add: be16_def)
  have diff: "b0 \<noteq> b1 \<or> b0 = 0" using b by (cases flag) (auto simp: be16_def)
  show "close_frame stack flag \<noteq> Inr (rfc_frame True CLOSE None (be16 (close_code flag)))"
  proof
    assume "close_frame stack flag = Inr (rfc_frame True CLOSE None (be16 (close_code flag)))"
    then obtain r where r: "c_str stack = Inr r" and e: "[0x88, 0x02] @ r @ [b0] = rfc_frame True CLOSE None [b0, b1]"
      by (auto simp: close_frame_def header_close b)
    from e have "r = [b0]" "b0 = b1" using rfc by (simp_all add: b append_eq_Cons_conv)
    with c_str_no_zero [OF r] diff show False by auto
  qed
qed

end
