(* ===== verification/Echo_Main.thy ===== *)
theory Echo_Main
  imports Websocket_Correct
begin

text \<open>
  \<^verbatim>\<open>websocket_decoder/main.cpp\<close>: the application, an echo server that greets everybody when somebody
  connects. Its three lambdas are the constructors of \<open>main_callback\<close>, its set of clients a list
  without repetitions in the order in which the set is walked, and it never starts the timer.
\<close>

section \<open>The program\<close>

datatype main_callback = On_connected | On_recv | On_disconnect

record main_process = "main_callback websocket_process" +
  wb_clients :: "addr list"

fun greet_all :: "addr list \<Rightarrow> 'z main_process_scheme \<Rightarrow> 'z main_process_scheme res" where
  "greet_all [] s = Inr s"
| "greet_all (v # vs) s = bnd (ws_send v (bytes_of ''hello world'') s) (greet_all vs)"

definition main_user :: "main_callback \<Rightarrow> addr \<Rightarrow> 'z main_process_scheme \<Rightarrow> 'z main_process_scheme res" where
  "main_user u a s = (case u of
       On_connected \<Rightarrow>
         bnd (deref a s) (\<lambda>c.
         let s1 = s\<lparr>wb_clients := (if a \<in> set (wb_clients s) then wb_clients s else a # wb_clients s)\<rparr>
         in greet_all (wb_clients s1) s1)
     | On_recv \<Rightarrow> bnd (deref a s) (\<lambda>c. ws_send a (get_message c) s)
     | On_disconnect \<Rightarrow> bnd (deref a s) (\<lambda>c. Inr (s\<lparr>wb_clients := removeAll a (wb_clients s)\<rparr>)))"

text \<open>\<^verbatim>\<open>main\<close> up to \<^verbatim>\<open>start\<close>, on the results of the system calls of the constructor.\<close>

definition main_setup :: "int \<Rightarrow> int \<Rightarrow> int \<Rightarrow> 'z main_process_scheme \<Rightarrow> 'z main_process_scheme res" where
  "main_setup fd bind_ret efd s =
     bnd (websocket_server_init (bytes_of ''0.0.0.0'') 8192 False fd bind_ret efd s) (\<lambda>s1.
     let s2 = s1\<lparr>wb_clients := []\<rparr>;
         s3 = ws_register_connected_callback (Some On_connected) s2;
         s4 = ws_register_recv_callback (Some On_recv) s3
     in Inr (register_disconnect_callback (Some (User On_disconnect)) s4))"

definition main_hooks :: "crypto \<Rightarrow> (websocket_client, main_callback closure, 'z main_process_scheme) hooks" where
  "main_hooks cr = ws_hooks cr main_user"

definition main_start :: "crypto \<Rightarrow> int \<Rightarrow> int \<Rightarrow> int \<Rightarrow> int \<Rightarrow> event list option list
    \<Rightarrow> 'z main_process_scheme \<Rightarrow> 'z main_process_scheme res" where
  "main_start cr fd bind_ret efd listen_ret ws s =
     bnd (main_setup fd bind_ret efd s) (start (main_hooks cr) listen_ret ws)"

text \<open>
  The states between two events: the one that \<^verbatim>\<open>main\<close> starts the loop with, from a process without
  objects, and what an event makes of one. Meanwhile the clock goes on.
\<close>

inductive main_run :: "crypto \<Rightarrow> 'z main_process_scheme \<Rightarrow> bool" for cr where
  started_up: "heap s0 = Map.empty \<Longrightarrow> main_setup fd bind_ret efd s0 = Inr s \<Longrightarrow> main_run cr s"
| event: "main_run cr s \<Longrightarrow> fresh_fd e s \<Longrightarrow> handle_event (main_hooks cr) e s = Inr s' \<Longrightarrow> main_run cr s'"
| time_passes: "main_run cr s \<Longrightarrow> main_run cr (s\<lparr>clock := t\<rparr>)"

inductive_cases main_run_cases: "main_run cr s"

section \<open>Its contract with the server\<close>

text \<open>
  The application's clients are live and have not been reported as gone, and the server still has the
  callbacks that \<^verbatim>\<open>main\<close> registered.
\<close>

definition echo_knows :: "bool \<Rightarrow> addr set \<Rightarrow> 'z main_process_scheme \<Rightarrow> bool" where
  "echo_knows hb D s \<longleftrightarrow>
     (\<forall>v \<in> set (wb_clients s). heap s v \<noteq> None \<and> v \<notin> D) \<and> distinct (wb_clients s)
     \<and> disconnect_f s = Some (User On_disconnect) \<and> connected_f s = None \<and> recv_f s = Some (Recv_wrapper (Some On_recv))
     \<and> sent_f s = Some (Sent_wrapper None) \<and> wb_connected_f s = Some On_connected \<and> heartbeat s = hb"

text \<open>\<^verbatim>\<open>main\<close> itself switches the heartbeat off.\<close>

abbreviation main_knows :: "addr set \<Rightarrow> 'z main_process_scheme \<Rightarrow> bool" where
  "main_knows \<equiv> echo_knows False"

lemmas main_knows_def = echo_knows_def [of False, simplified simp_thms]

lemma wb_clients_more: "process.more s' = process.more s \<Longrightarrow> wb_clients s' = wb_clients s"
  by (cases s; cases s') simp

lemma server_more:
  "process.more s' = process.more s \<Longrightarrow> wb_connected_f s' = wb_connected_f s \<and> heartbeat s' = heartbeat s"
  for s s' :: "('u, 'z) websocket_process_scheme"
  by (cases s; cases s') simp

lemma main_knows_frame: "echo_knows hb D s \<Longrightarrow> same_app s s' \<Longrightarrow> echo_knows hb D s'"
  using wb_clients_more [of s' s] server_more [of s' s] by (auto simp: echo_knows_def same_app_def)

lemma main_knows_delete: "echo_knows hb {a} s \<Longrightarrow> echo_knows hb {} (s\<lparr>heap := (heap s)(a := None)\<rparr>)"
  by (auto simp: echo_knows_def)

lemma server_send_same: "server_send_buffer a d s = Inr s' \<Longrightarrow> same_app s s'"
  by (auto simp: server_send_buffer_def dest!: modify_InrD intro!: same_app_trans [OF same_app_simps(7) same_app_simps(3)])

interpretation main_frame: app_frame "echo_knows hb D" for hb and D :: "addr set"
  by unfold_locales (rule main_knows_frame)

lemma greet_all_safe:
  "live (echo_knows hb {}) {} a s \<Longrightarrow> set vs \<subseteq> set (wb_clients s) \<Longrightarrow> safe (greet_all vs s) (live (echo_knows hb {}) {} a)"
proof (induction vs arbitrary: s)
  case Nil
  then show ?case by simp
next
  case (Cons v vs)
  have lv: "live (echo_knows hb {}) {} v s" using Cons.prems by (auto simp: live_def echo_knows_def)
  have "safe (greet_all vs s1) (live (echo_knows hb {}) {} a)"
    if r: "ws_send v (bytes_of ''hello world'') s = Inr s1" for s1
  proof -
    from r have same: "same_app s s1" by (auto simp: ws_send_def intro: server_send_same)
    moreover have "live (echo_knows hb {}) {} v s1" using main_frame.ws_send_safe [OF lv] r by (metis safe_simps(2))
    ultimately have "live (echo_knows hb {}) {} a s1" "wb_clients s1 = wb_clients s"
      using Cons.prems(1) wb_clients_more [of s1 s] by (auto simp: live_def same_app_def)
    then show ?thesis using Cons.prems(2) by (intro Cons.IH) auto
  qed
  moreover have "ws_send v (bytes_of ''hello world'') s \<noteq> Inl Use_after_free"
    using main_frame.ws_send_safe [OF lv] by (metis safe_simps(1))
  ultimately show ?case unfolding greet_all.simps by (intro safe_bndI)
qed

interpretation echo: ws_app cr main_user "echo_knows hb" for cr hb
proof
  fix D a u and s s' :: "'z main_process_scheme"
  show "echo_knows hb D s \<Longrightarrow> same_app s s' \<Longrightarrow> echo_knows hb D s'" by (rule main_knows_frame)
  show "echo_knows hb {a} s \<Longrightarrow> echo_knows hb {} (s\<lparr>heap := (heap s)(a := None)\<rparr>)" by (rule main_knows_delete)
  show "safe (main_user u a s) (live (echo_knows hb {}) {} a)" if l: "live (echo_knows hb {}) {} a s"
  proof -
    from l obtain c where c: "heap s a = Some c" by (auto simp: live_def)
    let ?s1 = "s\<lparr>wb_clients := (if a \<in> set (wb_clients s) then wb_clients s else a # wb_clients s)\<rparr>"
    have "live (echo_knows hb {}) {} a ?s1"
      using l by (auto simp: live_def echo_knows_def server_inv_def)
    from greet_all_safe [OF this, of "wb_clients ?s1"]
    have "safe (greet_all (wb_clients ?s1) ?s1) (live (echo_knows hb {}) {} a)" by simp
    moreover have "safe (main_user On_disconnect a s) (live (echo_knows hb {}) {} a)"
      using l c by (auto simp: main_user_def live_def echo_knows_def server_inv_def distinct_removeAll)
    ultimately show ?thesis
      using c main_frame.ws_send_safe [OF l] by (cases u) (auto simp: main_user_def Let_def simp del: greet_all.simps)
  qed
  show "safe (call_opt (ws_objects main_user) (disconnect_f s) a s) (live (echo_knows hb {a}) {a} a)"
    if l: "live (echo_knows hb {}) {a} a s"
  proof -
    from l obtain c where c: "heap s a = Some c" by (auto simp: live_def)
    then show ?thesis
      using l by (auto simp: call_opt_def ws_objects_def ws_call_def main_user_def live_def echo_knows_def server_inv_def distinct_removeAll)
  qed
qed


section \<open>Every run of the program\<close>

lemma main_ready: "client_objects.ready main_knows s \<longleftrightarrow> server_ok s \<and> main_knows {} s"
  by (simp add: client_objects.ready_def [OF echo.ws_objects_ok])

lemma main_setup_ready:
  assumes h: "heap s0 = Map.empty" and r: "main_setup fd bind_ret efd s0 = Inr s"
  shows "client_objects.ready main_knows s"
  using r h
  by (auto simp: main_ready main_setup_def websocket_server_init_def tcp_server_init_def init_tcp_server_def
      init_epoll_def ctl_add_def Let_def ws_register_sent_callback_def ws_register_connected_callback_def
      ws_register_recv_callback_def register_sent_callback_def register_recv_callback_def
      register_disconnect_callback_def server_inv_def main_knows_def split: if_splits)

lemma main_run_ready: "main_run cr s \<Longrightarrow> client_objects.ready main_knows s"
proof (induction rule: main_run.induct)
  case (started_up s0 fd bind_ret efd s)
  then show ?case by (rule main_setup_ready)
next
  case (event s e s')
  then show ?case using echo.handle_event_inv [OF event.IH event.hyps(2), of cr] by (auto simp: main_hooks_def ok_def)
next
  case (time_passes s t)
  then show ?case unfolding main_ready by (simp add: main_knows_def server_inv_def)
qed

text \<open>
  C6: in every state the program reaches, whatever the network does, the table of clients and the
  client objects describe each other (every entry is a live object with that entry's descriptor,
  every object has its entry), and the application's own set holds live clients only.
\<close>

theorem main_run_in_order:
  assumes "main_run cr s"
  shows "server_ok s \<and> set (wb_clients s) \<subseteq> dom (heap s)"
  using main_run_ready [OF assms] by (auto simp: main_ready main_knows_def)

text \<open>A process in which \<^verbatim>\<open>main\<close> has set the server up.\<close>

definition main_init :: main_process where
  "main_init = websocket_process.extend
     (process.extend process_init (websocket_process.fields False None 0 [0])) (main_process.fields [])"

definition main_started :: main_process where
  "main_started = projr (main_setup 3 0 4 main_init)"

lemma main_started: "main_setup 3 0 4 main_init = Inr main_started"
  by (simp add: main_started_def main_setup_def websocket_server_init_def tcp_server_init_def init_tcp_server_def
      init_epoll_def Let_def)

lemma main_init_heap: "heap main_init = Map.empty"
  by (simp add: main_init_def process_init_def websocket_process.extend_def process.extend_def wheel.extend_def
      process.fields_def)

lemma main_run_started: "main_run cr main_started"
  by (rule main_run.started_up [OF main_init_heap main_started])

theorem main_run_in_order_witness: "server_ok main_started \<and> set (wb_clients main_started) \<subseteq> dom (heap main_started)"
  by (rule main_run_in_order [OF main_run_started [of sample_crypto]])

text \<open>
  C5: the only way for the program to touch a deleted client is through the two flaws of the loop
  itself: an event whose \<^verbatim>\<open>recv\<close> calls do not find the end of the stream behind data and whose \<^verbatim>\<open>send\<close>
  calls do not fail never does, in any reachable state and whatever bytes arrive.
\<close>

theorem main_event_safe:
  assumes "main_run cr s" and "fresh_fd e s" and "polite e"
  shows "handle_event (main_hooks cr) e s \<noteq> Inl Use_after_free"
  using echo.handle_event_safe [OF main_run_ready [OF assms(1)] assms(2,3), of cr]
  by (auto simp: main_hooks_def safe_def)

theorem main_event_safe_witness:
  "handle_event (main_hooks sample_crypto) \<lparr>ev_fd = 3, ev_events = EPOLLIN,
      accepts = Some (7, \<lparr>sin_port = (0, 80), sin_addr = (127, 0, 0, 1)\<rparr>, []), recvs = [], sends = []\<rparr> main_started
   \<noteq> Inl Use_after_free"
proof (rule main_event_safe [OF main_run_started])
  have "open_fds main_started = {0, 1, 2, 3, 4}"
    by (auto simp: main_started_def main_init_def main_setup_def websocket_server_init_def tcp_server_init_def init_tcp_server_def
      init_epoll_def ctl_add_def Let_def ws_register_sent_callback_def ws_register_connected_callback_def
      ws_register_recv_callback_def register_sent_callback_def register_recv_callback_def
      register_disconnect_callback_def process_init_def websocket_process.extend_def process.extend_def wheel.extend_def
      process.fields_def)
  then show "fresh_fd \<lparr>ev_fd = 3, ev_events = EPOLLIN,
      accepts = Some (7, \<lparr>sin_port = (0, 80), sin_addr = (127, 0, 0, 1)\<rparr>, []), recvs = [], sends = []\<rparr> main_started"
    by (simp add: fresh_fd_def)
qed (simp add: polite_def)

end
