(* ===== verification/Websocket_Handshake.thy ===== *)
theory Websocket_Handshake
  imports Websocket_Correct
begin

text \<open>
  The opening handshake: which first messages upgrade a connection, what they are answered with, and
  what happens to the others.
\<close>

declare modify_live [simp del] modify_put [simp]

section \<open>The request\<close>

text \<open>What OpenSSL documents: a SHA-1 digest has 20 bytes, and their base64 text 28 characters.\<close>

definition openssl_sizes :: "crypto \<Rightarrow> bool" where
  "openssl_sizes cr \<longleftrightarrow> (\<forall>d. length (sha1 cr d) = 20)
     \<and> (\<forall>h. length h = 20 \<longrightarrow> length (encode_block cr h) = 28 \<and> 0 \<notin> set (encode_block cr h))"

definition accept_value :: "crypto \<Rightarrow> bytes \<Rightarrow> bytes" where
  "accept_value cr k = encode_block cr (sha1 cr (k @ bytes_of ''258EAFA5-E914-47DA-95CA-C5AB0DC85B11''))"

lemma accept_key_value: "openssl_sizes cr \<Longrightarrow> websocket_accept_key cr k = Inr (accept_value cr k)"
  by (simp add: openssl_sizes_def websocket_accept_key_def accept_value_def Let_def c_str_zero)

text \<open>The fields RFC 6455 asks for, as the code compares them.\<close>

definition upgrades :: "(bytes \<rightharpoonup> bytes) \<Rightarrow> bytes \<Rightarrow> bool" where
  "upgrades hdr k \<longleftrightarrow> hdr (bytes_of ''Upgrade'') = Some (bytes_of ''websocket'')
     \<and> hdr (bytes_of ''Connection'') = Some (bytes_of ''Upgrade'')
     \<and> hdr (bytes_of ''Sec-WebSocket-Key'') = Some k"

lemma shake_hands_upgrades:
  assumes "heap s a = Some c" and "upgrades (http_header c) k" and "openssl_sizes cr"
  shows "websocket_shake_hands cr a s = Inr (True,
    put a ((queued (generate_websocket_shake_hands_res (accept_value cr k)) c)\<lparr>is_connected := WAIT_SHAKE\<rparr>) (sending (sockfd c) s))"
  using assms accept_key_value [OF assms(3), of k]
  by (simp add: websocket_shake_hands_def upgrades_def send_without_frame_put)

lemma shake_hands_refuses:
  assumes "heap s a = Some c" and "\<nexists>k. upgrades (http_header c) k"
  shows "websocket_shake_hands cr a s = bnd (close_websocket_client a PROTOCOL_ERROR s) (\<lambda>s1. Inr (False, s1))"
  using assms by (auto simp: websocket_shake_hands_def upgrades_def Let_def split: option.splits)

lemma handshake_request:
  assumes c: "heap s a = Some c" and state: "is_connected c = NONE"
    and parsed: "decode_http_header data (http_header c) = Inr (True, hdr)"
  shows "ws_decode_proto_data cr user a data s =
    bnd (websocket_shake_hands cr a (put a (c\<lparr>http_header := hdr, recv_buffer := data\<rparr>) s)) (\<lambda>(shaken, s2).
       if shaken \<and> heartbeat s2
       then bnd (add_to_time_wheel_heartbeat a s2) (\<lambda>s3. Inr (False, s3))
       else Inr (False, s2))"
proof -
  have "http_decode_proto_data a data (put a (c\<lparr>recv_buffer := data\<rparr>) s)
      = Inr (True, put a (c\<lparr>http_header := hdr, recv_buffer := data\<rparr>) s)"
    using parsed by (simp add: http_decode_proto_data_def tcp_decode_proto_data_def)
  then show ?thesis
    using c state by (simp add: ws_decode_proto_data_def decode_handshake_def)
qed

text \<open>A request of the form clients send, its header fields, and what it leaves in the map.\<close>

definition good_request :: "bytes \<Rightarrow> bytes \<Rightarrow> bytes \<Rightarrow> (bytes \<times> bytes) list \<Rightarrow> bool" where
  "good_request verb path version hs \<longleftrightarrow> good_word verb \<and> good_word path \<and> good_word version
     \<and> hs \<noteq> [] \<and> (\<forall>kv \<in> set hs. good_header kv)"

definition request_fields :: "bytes \<Rightarrow> bytes \<Rightarrow> (bytes \<times> bytes) list \<Rightarrow> (bytes \<rightharpoonup> bytes)" where
  "request_fields verb path hs = map_of ((bytes_of ''method'', verb) # (bytes_of ''path'', path) # hs)"

lemma request_parsed:
  "good_request verb path version hs \<Longrightarrow>
   decode_http_header (render_request verb path version hs @ rest) Map.empty = Inr (True, request_fields verb path hs)"
  using decode_render_request [of verb path version hs rest Map.empty]
  unfolding good_request_def request_fields_def fields_map_of by blast

lemma upgrades_request: "upgrades (request_fields verb path hs) k = upgrades (map_of hs) k"
  by (simp add: upgrades_def request_fields_def)

section \<open>The properties\<close>


lemma sample_openssl_sizes: "openssl_sizes sample_crypto"
  by (simp add: openssl_sizes_def sample_crypto_def)

text \<open>A client that has just been accepted, and the example of RFC 6455.\<close>

definition new_sample_client :: websocket_client where
  "new_sample_client = (new_websocket_client (replicate 16 0))\<lparr>sockfd := 7\<rparr>"

lemma new_sample_client_simps [simp]:
  "sockfd new_sample_client = 7" "is_connected new_sample_client = NONE" "http_header new_sample_client = Map.empty"
  "time_wheel_heartbeat_id new_sample_client = 0" "send_buffer_queue new_sample_client = []"
  by (simp_all add: new_sample_client_def new_websocket_client_def new_tcp_client_def)

definition sample_fields :: "(bytes \<times> bytes) list" where
  "sample_fields = [(bytes_of ''Upgrade'', bytes_of ''websocket''), (bytes_of ''Connection'', bytes_of ''Upgrade''),
     (bytes_of ''Sec-WebSocket-Key'', bytes_of ''dGhlIHNhbXBsZSBub25jZQ=='')]"

lemma sample_request: "good_request (bytes_of ''GET'') (bytes_of ''/chat'') (bytes_of ''HTTP/1.1'') sample_fields"
  by (simp add: good_request_def sample_fields_def good_header_def)


end
