(* ===== verification/Websocket_Limits.thy ===== *)
theory Websocket_Limits
  imports Websocket_Handshake
begin

text \<open>
  The frames the server does not handle: valid ones that it refuses or on which it leaves its buffer,
  incomplete ones, and texts that are not UTF-8.
\<close>

section \<open>One frame, refused or faulty\<close>

text \<open>A data frame on an upgraded connection, up to the loop over the frames.\<close>

definition holding :: "bytes \<Rightarrow> websocket_header \<Rightarrow> websocket_client \<Rightarrow> websocket_client" where
  "holding data h c = c\<lparr>recv_buffer := data, wb_header := h\<rparr>"

lemma holding_simps [simp]:
  "recv_buffer (holding data h c) = data" "wb_header (holding data h c) = h" "sockfd (holding data h c) = sockfd c"
  "decode_buffer (holding data h c) = decode_buffer c" "send_buffer_queue (holding data h c) = send_buffer_queue c"
  "is_streaming (holding data h c) = is_streaming c" "time_wheel_heartbeat_id (holding data h c) = time_wheel_heartbeat_id c"
  "is_connected (holding data h c) = is_connected c"
  by (simp_all add: holding_def)

definition data_op :: "4 word \<Rightarrow> bool" where
  "data_op op \<longleftrightarrow> op = TEXT_FRAME \<or> op = BINARY_FRAME \<or> op = CONTINUATION_FRAME"

lemma rfc_frame_header: "\<exists>tl. rfc_frame f op mk xs = header_bytes (rfc_header f op (mk \<noteq> None) (length xs)) @ tl"
  by (simp add: rfc_frame_def)

lemma data_frame_start:
  assumes c: "heap s a = Some c" and up: "is_connected c \<noteq> NONE" and op: "data_op (opcode (op_bits h))"
    and data: "data = header_bytes h @ post"
  shows "ws_decode_proto_data cr user a data s =
    bnd (decode_websocket_data_frame a (put a (holding data h c) s)) (\<lambda>(ret, s1).
      if ret \<noteq> SUCCESS then proto_err a ret s1 else bnd (deref a s1) (\<lambda>c1. Inr (fin (op_bits (wb_header c1)), s1)))"
proof -
  have "opcode (op_bits h) \<noteq> CLOSE" "opcode (op_bits h) \<noteq> PONG" "opcode (op_bits h) \<noteq> PING"
    using op by (auto simp: data_op_def opcode_defs)
  then show ?thesis
    using ws_decode_frame [OF c up data, of cr user] op c
    by (simp add: dispatch_frame_def data_op_def holding_def [symmetric])
qed

lemma data_frame_fault:
  assumes "heap s a = Some c" and "is_connected c \<noteq> NONE" and "data_op (opcode (op_bits h))"
    and "data = header_bytes h @ post" and "decode_loop data (decode_buffer c) 2 h = Inl e"
  shows "ws_decode_proto_data cr user a data s = Inl e"
  using data_frame_start [OF assms(1-4), of cr user] assms(5)
  by (simp add: decode_websocket_data_frame_def)

text \<open>The answer to a protocol error, on a client without a heartbeat task.\<close>

lemma proto_err_put:
  assumes "heap s a = Some c" and "\<not> heartbeat s \<or> time_wheel_heartbeat_id c = 0"
    and "close_frame (stack_rest s) flag = Inr frame"
  shows "proto_err a flag s = Inr (False, put a (queued frame c) (sending (sockfd c) s))"
  using assms by (auto simp: proto_err_def close_websocket_client_def send_without_frame_put queued_def)

lemma data_frame_refused:
  assumes c: "heap s a = Some c" and up: "is_connected c \<noteq> NONE" and op: "data_op (opcode (op_bits h))"
    and data: "data = header_bytes h @ post"
    and loop: "decode_loop data (decode_buffer c) 2 h = Inr (flag, data', buf, h')" "flag \<noteq> SUCCESS"
    and server: "\<not> heartbeat s \<or> time_wheel_heartbeat_id c = 0" "close_frame (stack_rest s) flag = Inr frame"
  shows "\<exists>c'. ws_decode_proto_data cr user a data s = Inr (False, put a c' (sending (sockfd c) s))
    \<and> get_message c' = buf \<and> send_buffer_queue c' = send_buffer_queue c @ [frame] \<and> is_connected c' = is_connected c"
proof -
  let ?c1 = "(holding data h c)\<lparr>is_streaming := is_streaming c \<or> \<not> fin (op_bits h), recv_buffer := data', decode_buffer := buf\<rparr>"
  have "decode_websocket_data_frame a (put a (holding data h c) s) = Inr (flag, put a ?c1 s)"
    using loop by (simp add: decode_websocket_data_frame_def Let_def)
  then have "ws_decode_proto_data cr user a data s = proto_err a flag (put a ?c1 s)"
    using data_frame_start [OF c up op data, of cr user] loop(2) by simp
  also have "\<dots> = Inr (False, put a (queued frame ?c1) (sending (sockfd c) s))"
    using proto_err_put [of "put a ?c1 s" a ?c1 flag frame] server by (simp add: sending_put)
  finally show ?thesis by (intro exI [of _ "queued frame ?c1"]) (simp add: get_message_def queued_def)
qed

lemma text_frame_invalid:
  assumes c: "heap s a = Some c" and up: "is_connected c \<noteq> NONE"
    and good: "good_frame (mk, xs)" and data: "data = rfc_frame True TEXT_FRAME mk xs"
    and len: "length (decode_buffer c) + length data < 2 ^ 63" "length data < 2 ^ 31"
    and invalid: "\<not> validate_utf8 (decode_buffer c @ xs)"
    and server: "\<not> heartbeat s \<or> time_wheel_heartbeat_id c = 0" "close_frame (stack_rest s) INTERNAL_UTF8 = Inr frame"
  shows "\<exists>c'. ws_decode_proto_data cr user a data s = Inr (False, put a c' (sending (sockfd c) s))
    \<and> get_message c' = get_message c @ xs \<and> send_buffer_queue c' = send_buffer_queue c @ [frame]
    \<and> is_connected c' = is_connected c \<and> steady c c'"
proof -
  let ?h = "rfc_header True TEXT_FRAME (mk \<noteq> None) (length xs)"
  have "\<exists>d' h'. decode_loop ([] @ message_bytes TEXT_FRAME [(mk, xs)] @ []) (decode_buffer c) (length ([] :: bytes) + 2) (first_header TEXT_FRAME [(mk, xs)])
      = Inr (SUCCESS, d', decode_buffer c @ concat (map snd [(mk, xs)]), h') \<and> fin (op_bits h')"
    by (rule decode_loop_message) (use good len data in simp_all)
  then obtain d' h' where loop: "decode_loop data (decode_buffer c) 2 ?h = Inr (SUCCESS, d', decode_buffer c @ xs, h')"
    by (auto simp: data numeral_2_eq_2)
  let ?c1 = "(holding data ?h c)\<lparr>is_streaming := is_streaming c, recv_buffer := d', decode_buffer := decode_buffer c @ xs\<rparr>"
  have "steady c ?c1" by (simp add: steady_def holding_def)
  note kept = this
  obtain tl where "data = header_bytes ?h @ tl" using rfc_frame_header data by blast
  moreover have "decode_websocket_data_frame a (put a (holding data ?h c) s) = Inr (INTERNAL_UTF8, put a ?c1 s)"
    using loop invalid by (simp add: decode_websocket_data_frame_def Let_def)
  ultimately have "ws_decode_proto_data cr user a data s = proto_err a INTERNAL_UTF8 (put a ?c1 s)"
    using data_frame_start [OF c up, of ?h data tl cr user] by (simp add: data_op_def)
  also have "\<dots> = Inr (False, put a (queued frame ?c1) (sending (sockfd c) s))"
    using proto_err_put [of "put a ?c1 s" a ?c1 INTERNAL_UTF8 frame] server by (simp add: sending_put)
  finally show ?thesis using kept
    by (intro exI [of _ "queued frame ?c1"]) (simp add: get_message_def, simp add: queued_def)
qed

section \<open>The properties\<close>



text \<open>
  A frame whose length takes two bytes, the lower between \<open>0x80\<close> and \<open>0xFD\<close>, is refused although it is
  well formed: the bytes are read as signed \<^verbatim>\<open>char\<close>, so the length becomes a huge number. The client gets a
  closing frame and its message is lost.
\<close>

theorem valid_frame_refused:
  assumes "heap s a = Some c" and "is_connected c \<noteq> NONE" and "data_op op" and "good_key mk"
    and "126 \<le> length xs" and "length xs < 65536" and "128 \<le> length xs mod 256" and "length xs mod 256 < 254"
    and "\<not> heartbeat s \<or> time_wheel_heartbeat_id c = 0" and "close_frame (stack_rest s) PROTOCOL_ERROR = Inr frame"
  shows "\<exists>c'. ws_decode_proto_data cr user a (rfc_frame f op mk xs) s = Inr (False, put a c' (sending (sockfd c) s))
    \<and> send_buffer_queue c' = send_buffer_queue c @ [frame] \<and> get_message c' = get_message c"
proof -
  let ?h = "rfc_header f op (mk \<noteq> None) (length xs)"
  obtain tl where "rfc_frame f op mk xs = header_bytes ?h @ tl" using rfc_frame_header by blast
  from data_frame_refused [OF assms(1,2) _ this decode_loop_sign_refused [OF assms(5-8,4)] _ assms(9,10), of cr user] assms(3)
  show ?thesis by (auto simp: get_message_def)
qed

theorem valid_frame_refused_witness:
  "\<exists>c'. ws_decode_proto_data sample_crypto no_user 0 (rfc_frame True TEXT_FRAME (Some [1, 2, 3, 4]) (replicate 200 65)) (sample_ws sample_ws_client)
      = Inr (False, put 0 c' (sending 7 (sample_ws sample_ws_client)))
    \<and> send_buffer_queue c' = [[0x88, 0x02, 0x03]] \<and> get_message c' = []"
proof -
  have "close_frame [0] PROTOCOL_ERROR = Inr [0x88, 0x02, 0x03]"
    by (simp add: close_frame_def header_close be16_def)
  with valid_frame_refused [of "sample_ws sample_ws_client" 0 sample_ws_client TEXT_FRAME "Some [1, 2, 3, 4]" "replicate 200 65" _ sample_crypto no_user True]
  show ?thesis by (auto simp: data_op_def good_key_def get_message_def)
qed

text \<open>
  C31: where the lower byte is \<open>0xFE\<close> or \<open>0xFF\<close>, the sum in the size check wraps as well: a well-formed masked
  frame makes the server write beyond its receive buffer.
\<close>

theorem valid_frame_overruns:
  assumes "heap s a = Some c" and "is_connected c \<noteq> NONE" and "data_op op" and "length k = 4"
    and "126 \<le> length xs" and "length xs < 65536" and "254 \<le> length xs mod 256"
  shows "ws_decode_proto_data cr user a (rfc_frame f op (Some k) xs) s = Inl Out_of_bounds"
proof -
  obtain tl where "rfc_frame f op (Some k) xs = header_bytes (rfc_header f op True (length xs)) @ tl"
    using rfc_frame_header [of f op "Some k" xs] by auto
  from data_frame_fault [OF assms(1,2) _ this] decode_loop_sign_overrun [OF assms(5-7,4)] assms(3)
  show ?thesis by simp
qed

theorem valid_frame_overruns_witness:
  "ws_decode_proto_data sample_crypto no_user 0 (rfc_frame True TEXT_FRAME (Some [1, 2, 3, 4]) (replicate 254 65)) (sample_ws sample_ws_client)
   = Inl Out_of_bounds"
  by (rule valid_frame_overruns [of _ _ sample_ws_client]) (simp_all add: data_op_def)

text \<open>
  C32: frames that arrive in pieces are not put together, they make the server leave its buffer: the first
  fragment of a message in a packet of its own, and a short masked frame of which up to four bytes are
  still to come.
\<close>

theorem incomplete_frame_overruns:
  assumes c: "heap s a = Some c" and up: "is_connected c \<noteq> NONE" and op: "data_op op" and xs: "xs \<noteq> []"
    and data: "(\<exists>mk. data = rfc_frame False op mk xs \<and> good_frame (mk, xs) \<and> length data < 2 ^ 31
          \<and> length (decode_buffer c) + length data < 2 ^ 63)
      \<or> (\<exists>f k n. data = take n (rfc_frame f op (Some k) xs) \<and> length k = 4 \<and> length xs < 126
          \<and> length xs + 2 \<le> n \<and> n < length xs + 6)"
  shows "ws_decode_proto_data cr user a data s = Inl Out_of_bounds"
  using data
proof (elim disjE exE conjE)
  fix mk
  assume d: "data = rfc_frame False op mk xs" and good: "good_frame (mk, xs)" and len: "length data < 2 ^ 31"
    "length (decode_buffer c) + length data < 2 ^ 63"
  obtain tl where tl: "data = header_bytes (rfc_header False op (mk \<noteq> None) (length xs)) @ tl"
    using rfc_frame_header d by blast
  have "decode_loop data (decode_buffer c) 2 (rfc_header False op (mk \<noteq> None) (length xs)) = Inl Out_of_bounds"
    using decode_loop_open_end [OF good xs, of False "decode_buffer c" op] len by (simp add: d)
  with data_frame_fault [OF c up _ tl] op show ?thesis by simp
next
  fix f k n
  assume d: "data = take n (rfc_frame f op (Some k) xs)" and k: "length k = 4" and n: "length xs < 126"
    "length xs + 2 \<le> n" "n < length xs + 6"
  let ?h = "rfc_header f op True (length xs)"
  have l: "unat (payload_len (payload ?h)) = length xs"
    using n(1) unat_7_of_nat [of "length xs"] by (simp add: rfc_header_def rfc_len_def)
  have full: "length (rfc_frame f op (Some k) xs) = length xs + 6"
    using n(1) k by (simp add: rfc_frame_def rfc_payload_def rfc_len_def)
  have tl: "data = header_bytes ?h @ take (n - 2) (drop 2 (rfc_frame f op (Some k) xs))"
    using n(2) by (simp add: d rfc_frame_def)
  have "decode_loop data (decode_buffer c) 2 ?h = Inl Out_of_bounds"
    by (rule decode_loop_truncated) (use l n full xs d in simp_all)
  with data_frame_fault [OF c up _ tl] op show ?thesis by simp
qed

theorem incomplete_frame_overruns_witness:
  "ws_decode_proto_data sample_crypto no_user 0 (rfc_frame False TEXT_FRAME None [65]) (sample_ws sample_ws_client) = Inl Out_of_bounds"
proof (rule incomplete_frame_overruns [of _ _ sample_ws_client TEXT_FRAME "[65]"])
  have "good_frame (None, [65])" by (simp add: good_frame_def plain_len_def rfc_len_def good_key_def)
  moreover have "length (rfc_frame False TEXT_FRAME None [65]) = 3"
    by (simp add: rfc_frame_def rfc_len_def rfc_payload_def)
  ultimately show "(\<exists>mk. rfc_frame False TEXT_FRAME None [65] = rfc_frame False TEXT_FRAME mk [65] \<and> good_frame (mk, [65])
        \<and> length (rfc_frame False TEXT_FRAME None [65]) < 2 ^ 31
        \<and> length (decode_buffer sample_ws_client) + length (rfc_frame False TEXT_FRAME None [65]) < 2 ^ 63)
      \<or> (\<exists>f k n. rfc_frame False TEXT_FRAME None [65] = take n (rfc_frame f TEXT_FRAME (Some k) [65]) \<and> length k = 4
        \<and> length [65 :: byte] < 126 \<and> length [65 :: byte] + 2 \<le> n \<and> n < length [65 :: byte] + 6)"
    by (intro disjI1 exI [of _ None]) simp
qed (simp_all add: data_op_def)

end
