(* ===== verification/Websocket_Timer.thy ===== *)
theory Websocket_Timer
  imports Websocket_Limits
begin

text \<open>
  The timer with the server's tasks in it: the heartbeat pings every client whose turn has come and goes
  on, and the task that should close a silent client fails when it runs.
\<close>

section \<open>Sending does not touch the timer\<close>

lemma put_wheel [simp]:
  "wheel_ok (put a c s) = wheel_ok s" "keys (put a c s) = keys s" "current (put a c s) = current s"
  "locked (put a c s) = locked s" "ids_ok P (put a c s) = ids_ok P s"
  by (simp_all add: put_def wheel_ok_def keys_def nodes_def ids_ok_def)

lemma sending_wheel [simp]:
  "wheel_ok (sending fd s) = wheel_ok s" "keys (sending fd s) = keys s" "current (sending fd s) = current s"
  "locked (sending fd s) = locked s"
  by (simp_all add: sending_def ctl_mod_def wheel_ok_def keys_def nodes_def)

lemma more_heap: "wheel.more s' = wheel.more s \<Longrightarrow> heap s' = heap s"
  by (cases s; cases s') simp

lemma more_disconnect: "wheel.more s' = wheel.more s \<Longrightarrow> disconnect_f s' = disconnect_f s"
  by (cases s; cases s') simp

lemma run_heartbeat:
  "heap s a = Some c \<Longrightarrow> ws_run_task (Heartbeat_task a) d i s
     = Inr (put a (queued generate_websocket_ping_res c) (sending (sockfd c) s))"
  by (simp add: send_without_frame_put)

lemma ws_run_task_InrE:
  assumes "ws_run_task f d i s = Inr s'"
  obtains a c where "f = Heartbeat_task a" and "heap s a = Some c"
    and "s' = put a (queued generate_websocket_ping_res c) (sending (sockfd c) s)"
proof (cases f)
  case (Heartbeat_task a)
  with assms obtain c where "heap s a = Some c"
    by (cases "heap s a") (auto simp: send_without_frame_def tcp_send_def server_send_buffer_def modify_def)
  with that Heartbeat_task assms run_heartbeat show thesis by fastforce
qed (use assms in simp)

interpretation ws_timer: wheel_tasks ws_run_task
proof
  fix f d i and s s' :: "('u, 'z) websocket_process_scheme"
  show "ws_run_task f d i s = Inr s' \<Longrightarrow> current s' = current s"
    by (erule ws_run_task_InrE) simp
  show "ws_run_task f d i s = Inr s' \<Longrightarrow> wheel_ok s \<Longrightarrow> wheel_ok s'"
    by (erule ws_run_task_InrE) simp
  show "ws_run_task f d i s \<noteq> Inl Script_end"
    by (cases f) (auto simp: send_without_frame_def tcp_send_def server_send_buffer_def modify_def bnd_eq_Inl_iff)
qed

section \<open>A list of heartbeat tasks\<close>

text \<open>How often a client is pinged by a list of tasks, and the clients with their pings in the queue.\<close>

definition pings :: "addr \<Rightarrow> task time_node multiset \<Rightarrow> nat" where
  "pings a M = size (filter_mset (\<lambda>v. task_fn v = Heartbeat_task a) M)"

definition pinged :: "(addr \<Rightarrow> nat) \<Rightarrow> (addr \<rightharpoonup> websocket_client) \<Rightarrow> (addr \<rightharpoonup> websocket_client)" where
  "pinged n h = (\<lambda>a. map_option (\<lambda>c. c\<lparr>send_buffer_queue := send_buffer_queue c
     @ replicate (n a) generate_websocket_ping_res\<rparr>) (h a))"

definition beats :: "addr set \<Rightarrow> task time_node \<Rightarrow> bool" where
  "beats A v \<longleftrightarrow> circle_count v = FULL_CIRCLE \<and> (\<exists>a \<in> A. task_fn v = Heartbeat_task a)"

lemma pinged_none [simp]: "pinged (\<lambda>_. 0) h = h"
proof
  fix a
  show "pinged (\<lambda>_. 0) h a = h a" by (cases "h a") (simp_all add: pinged_def)
qed

lemma pinged_dom [simp]: "dom (pinged n h) = dom h"
  by (auto simp: pinged_def)

lemma pinged_queued:
  "h a = Some c \<Longrightarrow> pinged n (h(a \<mapsto> queued generate_websocket_ping_res c)) = pinged (n(a := Suc (n a))) h"
  by (auto simp: pinged_def queued_def fun_eq_iff)

lemma run_beats:
  assumes "wheel_ok s" and "\<not> locked s" and "0 \<le> now" "now \<le> 2 ^ 61"
    and "\<forall>v \<in> set vs. 0 \<le> interval v \<and> interval v \<le> 2 ^ 60 \<and> beats (dom (heap s)) v"
  shows "\<exists>s'. run_nodes ws_run_task now vs s = Inr s' \<and> wheel_ok s' \<and> current s' = current s \<and> \<not> locked s'
    \<and> keys s' = keys s + image_mset (rearm now (current s)) (mset (map key vs))
    \<and> heap s' = pinged (\<lambda>a. pings a (mset vs)) (heap s)"
  using assms
proof (induction vs arbitrary: s)
  case Nil
  then show ?case by (simp add: pings_def)
next
  case (Cons v vs)
  then have v: "0 \<le> interval v" "interval v \<le> 2 ^ 60" and b: "beats (dom (heap s)) v" by simp_all
  from b obtain a c where a: "task_fn v = Heartbeat_task a" "heap s a = Some c" and full: "circle_count v = FULL_CIRCLE"
    by (auto simp: beats_def)
  let ?w = "v\<lparr>expire := now + interval v\<rparr>"
  have "in_range (current s) ?w" "0 \<le> interval ?w" "interval ?w \<le> 2 ^ 60"
    using Cons.prems v by (auto simp: in_range_def wheel_ok_def)
  from add_node_keys [OF Cons.prems(1,2) this] obtain s1 where s1: "add_node ?w s = Inr s1" "wheel_ok s1"
    "current s1 = current s" "\<not> locked s1" "wheel.more s1 = wheel.more s"
    "keys s1 = keys s + {#key (?w\<lparr>expire := min (expire ?w) (2 ^ 32 - 1 + current s)\<rparr>)#}" by blast
  have k1: "keys s1 = keys s + {#rearm now (current s) (key v)#}"
    unfolding s1(6) using full by (simp add: rearm_def key_def)
  have heap1: "heap s1 = heap s" by (rule more_heap [OF s1(5)])
  define s2 where "s2 = put a (queued generate_websocket_ping_res c) (sending (sockfd c) s1)"
  have s2: "wheel_ok s2" "\<not> locked s2" "current s2 = current s" "keys s2 = keys s + {#rearm now (current s) (key v)#}"
    "heap s2 = (heap s)(a \<mapsto> queued generate_websocket_ping_res c)"
    using s1(2-4) k1 heap1 by (simp_all add: s2_def)
  have node: "run_node ws_run_task now v s = Inr s2"
    using s1(1) full run_heartbeat [of s1 a c] a heap1 by (simp add: run_node_def Let_def s2_def)
  have "dom (heap s2) = dom (heap s)" using a(2) by (auto simp: s2(5))
  then have "\<forall>v \<in> set vs. 0 \<le> interval v \<and> interval v \<le> 2 ^ 60 \<and> beats (dom (heap s2)) v"
    using Cons.prems(5) by simp
  from Cons.IH [OF s2(1,2) Cons.prems(3,4) this] obtain s' where
    s': "run_nodes ws_run_task now vs s2 = Inr s'" "wheel_ok s'" "current s' = current s2" "\<not> locked s'"
    "keys s' = keys s2 + image_mset (rearm now (current s2)) (mset (map key vs))"
    "heap s' = pinged (\<lambda>a. pings a (mset vs)) (heap s2)"
    by blast
  have "(\<lambda>b. pings b (mset vs))(a := Suc (pings a (mset vs))) = (\<lambda>b. pings b (mset (v # vs)))"
    using a(1) by (auto simp: pings_def fun_eq_iff)
  then have "heap s' = pinged (\<lambda>b. pings b (mset (v # vs))) (heap s)"
    unfolding s'(6) s2(5) pinged_queued [of "heap s" a c, OF a(2)] by simp
  with s' node s2 show ?case by simp
qed

lemma pings_key [simp]: "pings a (image_mset key M) = pings a M"
  by (simp add: pings_def filter_mset_image_mset)

lemma beats_key [simp]: "beats A (key v) = beats A v"
  by (simp add: beats_def)

lemma tick_beats:
  assumes ok: "wheel_ok s" and free: "\<not> locked s" and now: "current s \<le> now" "now < 2 ^ 61"
    and due: "\<forall>v \<in># due (current s) (keys s). beats (dom (heap s)) v"
  shows "\<exists>s'. tick ws_run_task now s = Inr s' \<and> wheel_ok s' \<and> \<not> locked s' \<and> current s' = current s + 1
    \<and> heap s' = pinged (\<lambda>a. pings a (due (current s) (keys s))) (heap s)
    \<and> keys s' = later (current s) (keys s) + image_mset (rearm now (current s + 1)) (due (current s) (keys s))"
proof -
  have small: "current s < 2 ^ 61" using now by simp
  obtain temp s1 where td: "take_due s = Inr (temp, s1)" and s1: "current s1 = current s + 1" "wheel_ok s1" "\<not> locked s1"
    and temp: "mset (map key temp) = due (current s) (keys s)" and rest: "keys s1 = later (current s) (keys s)"
    unfolding due_def later_def by (rule take_due_exact [OF ok free small])
  have heap1: "heap s1 = heap s" by (rule more_heap [OF take_due_more [OF td]])
  have "\<forall>v \<in> set temp. 0 \<le> interval v \<and> interval v \<le> 2 ^ 60 \<and> beats (dom (heap s1)) v"
  proof
    fix v assume "v \<in> set temp"
    then have "key v \<in># mset (map key temp)" by simp
    then have v: "key v \<in># due (current s) (keys s)" unfolding temp .
    then have "key v \<in># keys s" by (simp add: due_def)
    with ok intervals_keys [of s "\<lambda>x. 0 \<le> x \<and> x \<le> 2 ^ 60"] bspec [OF due v] heap1
    show "0 \<le> interval v \<and> interval v \<le> 2 ^ 60 \<and> beats (dom (heap s1)) v"
      by (auto simp: wheel_ok_def)
  qed
  moreover have "0 \<le> now" "now \<le> 2 ^ 61" using ok now by (auto simp: wheel_ok_def)
  ultimately obtain s' where s': "run_nodes ws_run_task now temp s1 = Inr s'" "wheel_ok s'" "current s' = current s1" "\<not> locked s'"
    "keys s' = keys s1 + image_mset (rearm now (current s1)) (mset (map key temp))"
    "heap s' = pinged (\<lambda>a. pings a (mset temp)) (heap s1)"
    using run_beats [OF s1(2,3)] by blast
  have "pings a (mset temp) = pings a (due (current s) (keys s))" for a
    by (metis pings_key temp mset_map)
  then have "heap s' = pinged (\<lambda>a. pings a (due (current s) (keys s))) (heap s)"
    by (simp add: s'(6) heap1)
  moreover have "keys s' = later (current s) (keys s) + image_mset (rearm now (current s + 1)) (due (current s) (keys s))"
    using s'(5) by (simp only: temp rest s1(1))
  moreover have "tick ws_run_task now s = Inr s'" by (simp add: tick_def td s'(1))
  ultimately show ?thesis using s'(2-4) s1(1) by auto
qed

text \<open>All turns up to \<open>now\<close>: one ping for each task that is due.\<close>

lemma pinged_pinged: "pinged n (pinged m h) = pinged (\<lambda>a. m a + n a) h"
  by (simp add: pinged_def fun_eq_iff option.map_comp comp_def replicate_add)

lemma pings_union [simp]: "pings a (M + N) = pings a M + pings a N" "pings a {#} = 0"
  by (simp_all add: pings_def)

lemma beats_rearms: "beats A v \<Longrightarrow> rearms v"
  by (simp add: beats_def rearms_def)

lemma beats_again: "beats A v \<Longrightarrow> beats A (again now v)"
  by (simp add: beats_def again_def)

lemma check_loop_beats:
  "wheel_ok s \<Longrightarrow> \<not> locked s \<Longrightarrow> now < 2 ^ 61 \<Longrightarrow> current s + int k = now + 1 \<Longrightarrow> patient now (current s) (keys s)
   \<Longrightarrow> \<forall>v \<in># keys s. beats (dom (heap s)) v
   \<Longrightarrow> \<exists>s'. check_loop k ws_run_task now s = Inr s' \<and> current s' = now + 1
     \<and> keys s' = (if k = 0 then keys s else caught_up now (keys s))
     \<and> heap s' = pinged (\<lambda>a. if k = 0 then 0 else pings a (due now (keys s))) (heap s)"
proof (induction k arbitrary: s)
  case (Suc k)
  have le: "current s \<le> now" using Suc.prems by simp
  have all: "filter_mset rearms (due (current s) (keys s)) = due (current s) (keys s)"
    unfolding filter_mset_eq_conv using Suc.prems(6) beats_rearms by (auto simp: due_def)
  obtain s1 where t: "tick ws_run_task now s = Inr s1" "wheel_ok s1" "\<not> locked s1" "current s1 = current s + 1"
    and h1: "heap s1 = pinged (\<lambda>a. pings a (due (current s) (keys s))) (heap s)"
    and k1: "keys s1 = turn now (current s) (keys s)"
    unfolding turn_def all using tick_beats [OF Suc.prems(1,2) le Suc.prems(3)] Suc.prems(6) by (auto simp: due_def)
  note up = turn_caught_up [OF Suc.prems(5) le, folded k1]
  have cur: "current s1 + int k = now + 1" using t(4) Suc.prems(4) by simp
  have "\<forall>v \<in># keys s1. beats (dom (heap s)) v"
    using Suc.prems(6) unfolding k1 turn_again [OF Suc.prems(5)] by (auto simp: later_def due_def beats_again)
  then have "\<forall>v \<in># keys s1. beats (dom (heap s1)) v" by (simp add: h1)
  with Suc.IH [OF t(2,3) Suc.prems(3) cur] up(3) t(4) obtain s' where
    r: "check_loop k ws_run_task now s1 = Inr s'" "current s' = now + 1"
      "keys s' = (if k = 0 then keys s1 else caught_up now (keys s1))"
      "heap s' = pinged (\<lambda>a. if k = 0 then 0 else pings a (due now (keys s1))) (heap s1)" by auto
  have "keys s' = caught_up now (keys s) \<and> heap s' = pinged (\<lambda>a. pings a (due now (keys s))) (heap s)"
  proof (cases "k = 0")
    case True
    with cur t(4) have "current s = now" by simp
    with True r(3,4) h1 k1 turn_last Suc.prems(5) show ?thesis by simp
  next
    case False
    with r(3,4) up(1,2) h1 show ?thesis by (simp add: pinged_pinged)
  qed
  moreover have "check_loop (Suc k) ws_run_task now s = Inr s'" using le t(1) r(1) by simp
  ultimately show ?case using r(2) by (intro exI [of _ s']) simp
qed simp

section \<open>The properties\<close>

text \<open>A server with one client whose timer is at tick 1000 and has been given one task.\<close>

definition sample_timed :: "unit websocket_process" where
  "sample_timed = (sample_ws sample_ws_client)\<lparr>current := 1000\<rparr>"

lemma sample_timed_ok: "wheel_ok sample_timed" "\<not> locked sample_timed" "keys sample_timed = {#}" "current sample_timed = 1000"
  "fst (get_id sample_timed) = 1" "heap sample_timed = [0 \<mapsto> sample_ws_client]"
  "disconnect_f sample_timed = None"
proof -
  show "wheel_ok sample_timed"
    by (auto simp: wheel_ok_def sample_timed_def sample_ws_def process.extend_def one_client_def process_init_def
        wheel_init_def wheel.extend_def slots_ok_def nodes_def OFFSET_def)
qed (simp_all add: sample_timed_def sample_ws_def process.extend_def one_client_def process_init_def
        wheel_init_def wheel.extend_def keys_def nodes_def get_id_def process.fields_def)

lemma sample_timed_task:
  assumes "0 \<le> expiry" and "expiry \<le> 2 ^ 32 - 1"
  obtains s where "add_task 1000 f expiry cnt False 0 sample_timed = Inr (1, s)" and "wheel_ok s"
    and "\<not> locked s" and "current s = 1000" and "heap s = [0 \<mapsto> sample_ws_client]"
    and "keys s = {#\<lparr>task_fn = f, expire = 1000 + expiry, interval = expiry, circle_count = cnt, slot = 0, node_id = 1\<rparr>#}"
    and "disconnect_f s = None"
proof -
  from add_task_keys [OF sample_timed_ok(1,2), of 1000 expiry 0 f cnt False] assms obtain s
    where r: "add_task 1000 f expiry cnt False 0 sample_timed = Inr (1, s)"
      "wheel_ok s" "\<not> locked s" "current s = 1000" "wheel.more s = wheel.more sample_timed"
      "keys s = {#\<lparr>task_fn = f, expire = 1000 + expiry, interval = expiry, circle_count = cnt, slot = 0, node_id = 1\<rparr>#}"
    using sample_timed_ok(3-5) by (auto simp: min_def)
  moreover have "heap s = heap sample_timed" by (rule more_heap [OF r(5)])
  moreover have "disconnect_f s = disconnect_f sample_timed" by (rule more_disconnect [OF r(5)])
  ultimately show thesis using sample_timed_ok(6,7) by (intro that) simp_all
qed



end
