(* ===== verification/Websocket_Closing.thy ===== *)
theory Websocket_Closing
  imports Websocket_Timer
begin

text \<open>
  The closing of connections: what the server does with a closing frame of the peer.
\<close>

section \<open>Closing frames\<close>

lemma put_server [simp]:
  "disconnect_f (put a c s) = disconnect_f s" "disconnect_f (sending fd s) = disconnect_f s"
  "stack_rest (detach fd s) = stack_rest s"
  by (simp_all add: put_def sending_def ctl_mod_def detach_def ctl_del_def sys_close_def)

lemma close_websocket_client_put:
  assumes "heap s a = Some c" and "\<not> heartbeat s \<or> time_wheel_heartbeat_id c = 0"
    and "close_frame (stack_rest s) flag = Inr frame"
  shows "close_websocket_client a flag s = Inr (put a (queued frame c) (sending (sockfd c) s))"
  using assms by (auto simp: close_websocket_client_def send_without_frame_put queued_def)

lemma ws_destructor_plain:
  "heap s a = Some c \<Longrightarrow> time_wheel_id c = 0 \<Longrightarrow> time_wheel_heartbeat_id c = 0 \<Longrightarrow> ws_destructor a s = Inr s"
  by (simp add: ws_destructor_def)

text \<open>An application whose \<^verbatim>\<open>disconnect\<close> callback leaves the server alone.\<close>

definition quiet_disconnect ::
    "('u \<Rightarrow> addr \<Rightarrow> ('u, 'z) websocket_process_scheme \<Rightarrow> ('u, 'z) websocket_process_scheme res)
     \<Rightarrow> 'u closure option \<Rightarrow> addr \<Rightarrow> bool" where
  "quiet_disconnect user f a \<longleftrightarrow> (\<forall>t. heap t a \<noteq> None \<longrightarrow> (\<exists>t'. call_opt (ws_objects user) f a t = Inr t'
     \<and> heap t' = heap t \<and> clients t' = clients t \<and> wire t' = wire t \<and> open_fds t' = open_fds t))"

lemma close_client_quiet:
  assumes c: "heap s a = Some c" "time_wheel_id c = 0" "time_wheel_heartbeat_id c = 0"
    and app: "quiet_disconnect user (disconnect_f s) a"
  shows "\<exists>s'. close_client (ws_objects user) a s = Inr s' \<and> heap s' = (heap s)(a := None)
    \<and> clients s' = (clients s)(sockfd c := None) \<and> wire s' = wire s \<and> open_fds s' = open_fds s - {sockfd c}"
proof -
  obtain t where t: "call_opt (ws_objects user) (disconnect_f s) a (detach (sockfd c) s) = Inr t"
    "heap t = heap s" "clients t = (clients s)(sockfd c := None)" "wire t = wire s" "open_fds t = open_fds s - {sockfd c}"
    using app c(1) unfolding quiet_disconnect_def by (metis detach_simps option.discI)
  have "delete_client (ws_objects user) a t = Inr (t\<lparr>heap := (heap t)(a := None)\<rparr>)"
    using c ws_destructor_plain [of t a c] t(2) by (simp add: delete_client_def ws_objects_def)
  with t c(1) show ?thesis by (simp add: close_client_live)
qed

section \<open>The properties\<close>

text \<open>
  C33: a closing frame ends the connection at once: the descriptor is closed, the entry and the object go,
  the application is told. The server's own closing frame is put into the queue of the object that is
  deleted next, so nothing of it is ever written to the connection.
\<close>

theorem passive_close_unanswered:
  assumes c: "heap s a = Some c" and up: "is_connected c \<noteq> NONE" and wait: "\<not> wait_close c"
    and ids: "time_wheel_id c = 0" "time_wheel_heartbeat_id c = 0" and st: "stack_rest s = 0 # stack"
    and app: "quiet_disconnect user (disconnect_f s) a" and data: "data = rfc_frame f CLOSE mk xs @ post"
  shows "\<exists>s'. ws_decode_proto_data cr user a data s = Inr (False, s') \<and> heap s' = (heap s)(a := None)
    \<and> clients s' = (clients s)(sockfd c := None) \<and> open_fds s' = open_fds s - {sockfd c} \<and> wire s' = wire s"
proof -
  let ?h = "rfc_header f CLOSE (mk \<noteq> None) (length xs)"
  let ?c1 = "holding data ?h c"
  obtain tl where "data = header_bytes ?h @ tl" using data by (auto simp: rfc_frame_def)
  from ws_decode_frame [OF c up this, of cr user]
  have start: "ws_decode_proto_data cr user a data s = dispatch_frame user a CLOSE (put a ?c1 s)"
    by (simp add: holding_def)
  obtain frame where f: "close_frame (stack_rest s) NORMAL_CLOSE = Inr frame"
    by (simp add: close_frame_def st header_close)
  let ?s2 = "put a (queued frame ?c1) (sending (sockfd c) s)"
  have "close_websocket_client a NORMAL_CLOSE (put a ?c1 s) = Inr ?s2"
    using close_websocket_client_put [of "put a ?c1 s" a ?c1 NORMAL_CLOSE frame] f ids by (simp add: sending_put)
  then have "on_close_frame user a (put a ?c1 s) = close_client (ws_objects user) a ?s2"
    using wait ids by (simp add: on_close_frame_def holding_def)
  moreover obtain s' where "close_client (ws_objects user) a ?s2 = Inr s'" "heap s' = (heap ?s2)(a := None)"
    "clients s' = (clients ?s2)(sockfd c := None)" "wire s' = wire ?s2" "open_fds s' = open_fds ?s2 - {sockfd c}"
    using close_client_quiet [of ?s2 a "queued frame ?c1" user] ids app by (auto simp: holding_def queued_def)
  ultimately show ?thesis using start by (simp add: dispatch_frame_def)
qed

theorem passive_close_unanswered_witness:
  "\<exists>s'. ws_decode_proto_data sample_crypto no_user 0 (rfc_frame True CLOSE None (be16 1000)) (sample_ws sample_ws_client) = Inr (False, s')
    \<and> heap s' = Map.empty \<and> clients s' = Map.empty \<and> wire s' 7 = []"
proof -
  have "quiet_disconnect no_user (disconnect_f (sample_ws sample_ws_client)) 0"
    by (simp add: quiet_disconnect_def call_opt_def)
  from passive_close_unanswered [OF _ _ _ _ _ _ this, of sample_ws_client "[]" _ True None "be16 1000" "[]" sample_crypto]
  show ?thesis by (auto simp: fun_eq_iff)
qed

end
