(* ===== verification/Echo_Session.thy ===== *)
theory Echo_Session
  imports Echo_Main Websocket_Closing
begin

text \<open>
  The echo server as a whole, seen from the network: what a connection gets back for its request and for
  its messages, through the event loop, the decoder, the application's callbacks and the send queue.
\<close>

declare modify_live [simp del] modify_put [simp]

section \<open>Events\<close>

text \<open>The bytes of a read event, however they are split, and a write event.\<close>

definition reading :: "event \<Rightarrow> bytes \<Rightarrow> bool" where
  "reading e data \<longleftrightarrow> ev_events e = EPOLLIN \<and> accepts e = None
     \<and> (\<exists>ds rs. recvs e = map Received ds @ Recv_again # rs \<and> concat ds = data)"

definition writing :: "event \<Rightarrow> nat \<Rightarrow> bool" where
  "writing e n \<longleftrightarrow> ev_events e = EPOLLOUT \<and> accepts e = None \<and> accepting (sends e) \<and> n \<le> length (sends e)"

lemma recv_loop_data: "recv_loop h fd (map Received ds @ Recv_again # rs) m s = Inr (m @ concat ds, s)"
  by (induction ds arbitrary: m) simp_all

lemma handle_reading:
  assumes "reading e data" and "ev_fd e \<noteq> listen_fd s" and "clients s (ev_fd e) = Some a"
  shows "handle_event h e s = deliver h (ev_fd e) data s"
proof -
  have "EPOLLIN AND (EPOLLHUP OR EPOLLRDHUP OR EPOLLERR) = 0" "EPOLLIN AND EPOLLIN \<noteq> 0"
    by (simp_all add: epoll_defs)
  with assms show ?thesis
    by (auto simp: handle_event_def reading_def on_readable_def recv_loop_data)
qed

lemma handle_writing: "writing e n \<Longrightarrow> handle_event h e s = on_writable h e s"
proof -
  have "EPOLLOUT AND (EPOLLHUP OR EPOLLRDHUP OR EPOLLERR) = 0" "EPOLLOUT AND EPOLLIN = 0" "EPOLLOUT AND EPOLLOUT \<noteq> 0"
    by (simp_all add: epoll_defs)
  then show "writing e n \<Longrightarrow> ?thesis" by (simp add: handle_event_def writing_def)
qed

lemma main_hooks_simps [simp]:
  "call (main_hooks cr) = ws_call main_user"
  "decode_proto_data (main_hooks cr) = ws_decode_proto_data cr main_user"
  "allocate_client (main_hooks cr) = new_websocket_client"
  by (simp_all add: main_hooks_def ws_hooks_def objects.extend_def hooks.fields_def ws_objects_def)

lemma main_run_knows: "main_run cr s \<Longrightarrow> main_knows {} s \<and> server_ok s"
  using main_run_ready [of cr s] by (simp add: main_ready)

lemma main_run_server: "main_run cr s \<Longrightarrow> server_ok s" "main_run cr s \<Longrightarrow> main_knows {} s"
  using main_run_knows [of cr s] by simp_all

text \<open>Changes to a client object leave the callbacks alone.\<close>

lemma put_callbacks [simp]:
  "recv_f (put a c s) = recv_f s" "sent_f (put a c s) = sent_f s" "connected_f (put a c s) = connected_f s"
  "wb_connected_f (put a c s) = wb_connected_f s" "wb_clients (put a c s) = wb_clients s"
  "recv_f (sending fd s) = recv_f s" "sent_f (sending fd s) = sent_f s" "connected_f (sending fd s) = connected_f s"
  "wb_connected_f (sending fd s) = wb_connected_f s" "wb_clients (sending fd s) = wb_clients s"
  "listen_fd (put a c s) = listen_fd s" "listen_fd (sending fd s) = listen_fd s"
  by (simp_all add: put_def sending_def ctl_mod_def)

lemma rfc_frame_nonempty [simp]: "rfc_frame f op mk xs \<noteq> []" "[] \<noteq> rfc_frame f op mk xs"
  by (simp_all add: rfc_frame_def header_bytes_def)

text \<open>A write event that flushes the queue of an established connection.\<close>

lemma flush_connected:
  assumes w: "writing e (length (concat (send_buffer_queue c)))" and cl: "clients s (ev_fd e) = Some a"
    and c: "heap s a = Some c" "sockfd c = ev_fd e" "is_connected c = CONNECTED" "[] \<notin> set (send_buffer_queue c)"
    and sent: "sent_f s = Some (Sent_wrapper None)"
  shows "\<exists>s'. handle_event (main_hooks cr) e s = Inr s' \<and> same_app s s'
    \<and> wire s' = (wire s)(ev_fd e := wire s (ev_fd e) @ concat (send_buffer_queue c))
    \<and> heap s' = (heap s)(a \<mapsto> c\<lparr>send_buffer_queue := []\<rparr>) \<and> clients s' = clients s"
proof -
  have a: "accepting (sends e)" "length (concat (send_buffer_queue c)) \<le> length (sends e)"
    using w by (simp_all add: writing_def)
  from on_writable_flush [OF cl c(1,2,4) a, of "main_hooks cr"] obtain s'
    where "on_writable (main_hooks cr) e s = call_opt (main_hooks cr) (sent_f s) a s'"
      "wire s' = (wire s)(ev_fd e := wire s (ev_fd e) @ concat (send_buffer_queue c))"
      "heap s' = (heap s)(a \<mapsto> c\<lparr>send_buffer_queue := []\<rparr>)" "clients s' = clients s" "same_app s s'" by blast
  moreover from this(3) c(3) have "ws_call main_user (Sent_wrapper None) a s' = Inr s'" by (simp add: ws_call_def)
  ultimately show ?thesis using sent handle_writing [OF w, of "main_hooks cr" s] by (simp add: call_opt_def)
qed

section \<open>Messages\<close>

lemma message_queued:
  assumes run: "main_run cr s" and r: "reading e data" and fd: "ev_fd e \<noteq> listen_fd s" "clients s (ev_fd e) = Some a"
    and c: "heap s a = Some c" "is_connected c = CONNECTED" "decode_buffer c = []"
    and fs: "fs \<noteq> []" "\<forall>fr \<in> set fs. good_frame fr" and op: "op = TEXT_FRAME \<or> op = BINARY_FRAME"
    and data: "data = message_bytes op fs @ post" and t: "text_ok op fs []" and len: "length data < 2 ^ 31"
  shows "\<exists>c'. handle_event (main_hooks cr) e s = Inr (put a c' (sending (sockfd c) s))
    \<and> send_buffer_queue c' = send_buffer_queue c @ [rfc_frame True TEXT_FRAME None (concat (map snd fs))]
    \<and> is_connected c' = CONNECTED \<and> decode_buffer c' = [] \<and> sockfd c' = sockfd c"
proof -
  let ?m = "concat (map snd fs)"
  have up: "is_connected c \<noteq> NONE" and t': "text_ok op fs (decode_buffer c)" using c t by simp_all
  have len': "length (decode_buffer c) + length (message_bytes op fs) < 2 ^ 63" using len c(3) by (simp add: data)
  from message_decoded [OF c(1) up fs op data t' len' len, of cr main_user] obtain c1
    where d: "ws_decode_proto_data cr main_user a data s = Inr (True, put a c1 s)"
      and c1: "get_message c1 = ?m" "is_connected c1 = CONNECTED" "send_buffer_queue c1 = send_buffer_queue c" "sockfd c1 = sockfd c"
    using c(2,3) by (auto simp: get_message_def steady_def)
  have small: "length ?m < 2 ^ 64"
  proof -
    have "length (concat (map snd gs)) \<le> length (message_bytes op' gs)" for op' gs
      by (induction op' gs rule: message_bytes.induct) (auto simp: rfc_frame_prefix)
    from this [of fs op] len show ?thesis by (simp add: data)
  qed
  have "data \<noteq> []" using message_bytes_length [OF fs(1), of op] data by auto
  then have "handle_event (main_hooks cr) e s = ws_call main_user (Recv_wrapper (Some On_recv)) a (put a c1 s)"
    using handle_reading [OF r fd, of "main_hooks cr"] fd d main_run_knows [OF run]
    by (simp add: deliver_def main_knows_def)
  also have "\<dots> = Inr (put a ((queued (rfc_frame True TEXT_FRAME None ?m) c1)\<lparr>decode_buffer := []\<rparr>) (sending (sockfd c) s))"
    using c1 small by (simp add: ws_call_def main_user_def ws_send_def send_frame_rfc send_put sending_put)
  finally show ?thesis using c1
    by (intro exI [of _ "(queued (rfc_frame True TEXT_FRAME None ?m) c1)\<lparr>decode_buffer := []\<rparr>"]) (simp add: queued_def)
qed

section \<open>Greeting\<close>

text \<open>What \<^verbatim>\<open>connected\<close> does to the clients of the set: each gets one more frame.\<close>

definition greeted :: "addr set \<Rightarrow> (addr \<rightharpoonup> websocket_client) \<Rightarrow> (addr \<rightharpoonup> websocket_client)" where
  "greeted A h = (\<lambda>v. if v \<in> A then map_option (queued (rfc_frame True TEXT_FRAME None (bytes_of ''hello world''))) (h v) else h v)"

lemma greet_all_greets:
  "set vs \<subseteq> dom (heap s) \<Longrightarrow> distinct vs \<Longrightarrow>
   \<exists>s'. greet_all vs s = Inr s' \<and> heap s' = greeted (set vs) (heap s) \<and> wire s' = wire s \<and> clients s' = clients s
     \<and> wb_clients s' = wb_clients s \<and> listen_fd s' = listen_fd s"
proof (induction vs arbitrary: s)
  case Nil
  then show ?case by (simp add: greeted_def)
next
  case (Cons v vs)
  then obtain c where c: "heap s v = Some c" by auto
  let ?g = "queued (rfc_frame True TEXT_FRAME None (bytes_of ''hello world''))"
  let ?s1 = "put v (?g c) (sending (sockfd c) s)"
  have s1: "ws_send v (bytes_of ''hello world'') s = Inr ?s1"
    by (simp add: ws_send_def send_frame_rfc send_put [OF c])
  have "set vs \<subseteq> dom (heap ?s1)" "distinct vs" using Cons.prems c by auto
  from Cons.IH [OF this] obtain s' where s': "greet_all vs ?s1 = Inr s'" "heap s' = greeted (set vs) (heap ?s1)"
    "wire s' = wire ?s1" "clients s' = clients ?s1" "wb_clients s' = wb_clients ?s1" "listen_fd s' = listen_fd ?s1" by blast
  have "greeted (set vs) (heap ?s1) = greeted (set (v # vs)) (heap s)"
    using c Cons.prems(2) by (auto simp: greeted_def fun_eq_iff)
  with s' s1 show ?case by (simp del: bytes_of_simps)
qed

section \<open>Opening a connection\<close>

text \<open>The listening socket becomes readable and \<^verbatim>\<open>accept\<close> returns \<open>fd\<close>.\<close>

definition arriving :: "event \<Rightarrow> int \<Rightarrow> 'z main_process_scheme \<Rightarrow> bool" where
  "arriving e fd s \<longleftrightarrow> ev_events e = EPOLLIN \<and> ev_fd e = listen_fd s
     \<and> (\<exists>peer rand. accepts e = Some (fd, peer, rand)) \<and> fd \<notin> open_fds s \<and> fd \<noteq> listen_fd s"

lemma arrival_state:
  assumes inv: "server_ok s" "echo_knows hb {} s" and e: "arriving e fd s" and a: "accepts e = Some (fd, peer, rand)"
  shows "handle_event (main_hooks cr) e s = Inr (ctl_add fd (EPOLLIN OR EPOLLET) (accepted (main_hooks cr) fd peer rand s))"
proof -
  have f: "connected_f s = None" and new: "fd \<notin> open_fds s" using inv(2) e by (simp_all add: echo_knows_def arriving_def)
  have "EPOLLIN AND (EPOLLHUP OR EPOLLRDHUP OR EPOLLERR) = 0" "EPOLLIN AND EPOLLIN \<noteq> 0"
    by (simp_all add: epoll_defs)
  then show ?thesis
    using e f on_accept_accepted [OF a accept_ok(1) [OF inv(1) new], of "main_hooks cr"]
    by (simp add: handle_event_def arriving_def call_opt_def)
qed

lemma arrival_accepted:
  assumes run: "main_run cr s" and e: "arriving e fd s"
  shows "\<exists>s' c. handle_event (main_hooks cr) e s = Inr s' \<and> main_run cr s'
    \<and> heap s' = (heap s)(next_addr s \<mapsto> c) \<and> sockfd c = fd \<and> is_connected c = NONE \<and> http_header c = Map.empty
    \<and> send_buffer_queue c = [] \<and> decode_buffer c = []
    \<and> clients s' = (clients s)(fd \<mapsto> next_addr s) \<and> wire s' = wire s \<and> wb_clients s' = wb_clients s \<and> listen_fd s' = listen_fd s"
proof -
  from e obtain peer rand where a: "accepts e = Some (fd, peer, rand)" and new: "fd \<notin> open_fds s"
    by (auto simp: arriving_def)
  let ?s = "ctl_add fd (EPOLLIN OR EPOLLET) (accepted (main_hooks cr) fd peer rand s)"
  note r = arrival_state [OF main_run_server(1) [OF run] main_run_server(2) [OF run] e a]
  have "fresh_fd e s" using a new by (simp add: fresh_fd_def)
  then have "main_run cr ?s" by (rule main_run.event [OF run _ r])
  then show ?thesis using r
    by (intro exI [of _ ?s] exI [of _ "(new_websocket_client rand)\<lparr>sockfd := fd, ip := inet_ntop (sin_addr peer), port := int (ntohs (sin_port peer))\<rparr>"])
      (simp add: accepted_def ctl_add_def new_websocket_client_def new_tcp_client_def)
qed

lemma request_answered:
  assumes run: "main_run cr s" and sizes: "openssl_sizes cr"
    and r: "reading e data" and fd: "ev_fd e \<noteq> listen_fd s" "clients s (ev_fd e) = Some a"
    and c: "heap s a = Some c" "is_connected c = NONE" "http_header c = Map.empty"
    and req: "good_request verb path version hs" "data = render_request verb path version hs @ rest" "upgrades (map_of hs) k"
  shows "\<exists>c'. handle_event (main_hooks cr) e s = Inr (put a c' (sending (sockfd c) s))
    \<and> send_buffer_queue c' = send_buffer_queue c @ [generate_websocket_shake_hands_res (accept_value cr k)]
    \<and> is_connected c' = WAIT_SHAKE \<and> get_path c' = path \<and> steady c c' \<and> decode_buffer c' = decode_buffer c"
proof -
  let ?c1 = "c\<lparr>http_header := request_fields verb path hs, recv_buffer := data\<rparr>"
  let ?c2 = "(queued (generate_websocket_shake_hands_res (accept_value cr k)) ?c1)\<lparr>is_connected := WAIT_SHAKE\<rparr>"
  have parsed: "decode_http_header data (http_header c) = Inr (True, request_fields verb path hs)"
    using request_parsed [OF req(1)] by (simp add: req(2) c)
  have "websocket_shake_hands cr a (put a ?c1 s) = Inr (True, put a ?c2 (sending (sockfd c) s))"
    using shake_hands_upgrades [of "put a ?c1 s" a ?c1 k cr] req(3) sizes by (simp add: sending_put upgrades_request)
  with handshake_request [OF c(1,2) parsed, of cr main_user] main_run_knows [OF run]
  have "ws_decode_proto_data cr main_user a data s = Inr (False, put a ?c2 (sending (sockfd c) s))"
    by (simp add: main_knows_def)
  moreover have "data \<noteq> []" by (simp add: req(2) render_request_def)
  ultimately have "handle_event (main_hooks cr) e s = Inr (put a ?c2 (sending (sockfd c) s))"
    using handle_reading [OF r fd, of "main_hooks cr"] fd by (simp add: deliver_def)
  then show ?thesis by (intro exI [of _ ?c2]) (simp add: queued_def get_path_def request_fields_def steady_def)
qed

text \<open>The write event that takes the answer off the queue: the connection is established and announced.\<close>

lemma answer_state_of:
  assumes run: "main_run cr s"
    and h: "handle_event (main_hooks cr) e s = call_opt (main_hooks cr) (sent_f s) a (drained (ev_fd e) a d s)"
    and c: "heap s a = Some c" "is_connected c = WAIT_SHAKE" and new: "a \<notin> set (wb_clients s)"
  shows "handle_event (main_hooks cr) e s = greet_all (a # wb_clients s)
    ((put a (c\<lparr>send_buffer_queue := [], is_connected := CONNECTED\<rparr>) (drained (ev_fd e) a d s))\<lparr>wb_clients := a # wb_clients s\<rparr>)"
proof -
  have inv: "main_knows {} s" using main_run_knows [OF run] by simp
  let ?s1 = "drained (ev_fd e) a d s"
  have k1: "main_knows {} ?s1" by (rule main_knows_frame [OF inv drained_same])
  have wb: "wb_clients ?s1 = wb_clients s" using wb_clients_more [of ?s1 s] drained_same [of s "ev_fd e"] by (simp add: same_app_def)
  have "call_opt (main_hooks cr) (sent_f s) a ?s1 = greet_all (a # wb_clients s)
      ((put a (c\<lparr>send_buffer_queue := [], is_connected := CONNECTED\<rparr>) ?s1)\<lparr>wb_clients := a # wb_clients s\<rparr>)"
    using inv k1 c new
    by (simp add: call_opt_def main_knows_def ws_call_def main_user_def wb Let_def bnd_return del: greet_all.simps)
  with h show ?thesis by (simp del: greet_all.simps)
qed

lemma answer_state:
  assumes run: "main_run cr s" and w: "writing e (length (concat (send_buffer_queue c)))"
    and cl: "clients s (ev_fd e) = Some a"
    and c: "heap s a = Some c" "is_connected c = WAIT_SHAKE" "[] \<notin> set (send_buffer_queue c)" and new: "a \<notin> set (wb_clients s)"
  shows "handle_event (main_hooks cr) e s = greet_all (a # wb_clients s)
    ((put a (c\<lparr>send_buffer_queue := [], is_connected := CONNECTED\<rparr>)
       (drained (ev_fd e) a (concat (send_buffer_queue c)) s))\<lparr>wb_clients := a # wb_clients s\<rparr>)"
proof -
  have fd: "sockfd c = ev_fd e" using server_inv_client [OF main_run_server(1) [OF run] cl] c(1) by auto
  have a: "accepting (sends e)" "length (concat (send_buffer_queue c)) \<le> length (sends e)"
    using w by (simp_all add: writing_def)
  from on_writable_drained [OF cl c(1) fd c(3) a, of "main_hooks cr"] handle_writing [OF w, of "main_hooks cr" s]
  show ?thesis by (intro answer_state_of [OF run _ c(1,2) new]) simp
qed

lemma answer_sent:
  assumes run: "main_run cr s" and w: "writing e (length (concat (send_buffer_queue c)))"
    and cl: "clients s (ev_fd e) = Some a"
    and c: "heap s a = Some c" "is_connected c = WAIT_SHAKE" "[] \<notin> set (send_buffer_queue c)" and new: "a \<notin> set (wb_clients s)"
  shows "\<exists>s'. handle_event (main_hooks cr) e s = Inr s'
    \<and> wire s' = (wire s)(ev_fd e := wire s (ev_fd e) @ concat (send_buffer_queue c)) \<and> clients s' = clients s
    \<and> heap s' = greeted (insert a (set (wb_clients s))) ((heap s)(a \<mapsto> c\<lparr>send_buffer_queue := [], is_connected := CONNECTED\<rparr>))
    \<and> wb_clients s' = a # wb_clients s \<and> listen_fd s' = listen_fd s"
proof -
  have inv: "main_knows {} s" using main_run_knows [OF run] by simp
  let ?s2 = "(put a (c\<lparr>send_buffer_queue := [], is_connected := CONNECTED\<rparr>)
       (drained (ev_fd e) a (concat (send_buffer_queue c)) s))\<lparr>wb_clients := a # wb_clients s\<rparr>"
  have "set (a # wb_clients s) \<subseteq> dom (heap ?s2)" "distinct (a # wb_clients s)"
    using inv new by (auto simp: main_knows_def)
  from greet_all_greets [OF this] answer_state [OF assms] show ?thesis by (auto simp del: greet_all.simps bytes_of_simps)
qed

lemma main_run_next: "main_run cr s \<Longrightarrow> accepts e = None \<Longrightarrow> handle_event (main_hooks cr) e s = Inr s' \<Longrightarrow> main_run cr s'"
  by (rule main_run.event [where e = e]) (simp_all add: fresh_fd_def)

abbreviation hello :: bytes where
  "hello \<equiv> rfc_frame True TEXT_FRAME None (bytes_of ''hello world'')"

lemma connection_opens:
  assumes run: "main_run cr s" and sizes: "openssl_sizes cr"
    and e1: "arriving e1 fd s" and e2: "reading e2 data" "ev_fd e2 = fd"
    and req: "good_request verb path version hs" "data = render_request verb path version hs @ rest" "upgrades (map_of hs) k"
    and e3: "writing e3 (length (generate_websocket_shake_hands_res (accept_value cr k)))" "ev_fd e3 = fd"
  shows "\<exists>s' c. handle_events (main_hooks cr) [e1, e2, e3] s = Inr s' \<and> main_run cr s'
    \<and> wire s' = (wire s)(fd := wire s fd @ generate_websocket_shake_hands_res (accept_value cr k))
    \<and> clients s' = (clients s)(fd \<mapsto> next_addr s) \<and> heap s' (next_addr s) = Some c
    \<and> (\<forall>v. v \<noteq> next_addr s \<longrightarrow> heap s' v = greeted (set (wb_clients s)) (heap s) v)
    \<and> is_connected c = CONNECTED \<and> get_path c = path \<and> send_buffer_queue c = [hello] \<and> decode_buffer c = []
    \<and> wb_clients s' = next_addr s # wb_clients s \<and> listen_fd s' = listen_fd s"
proof -
  let ?a = "next_addr s" and ?res = "generate_websocket_shake_hands_res (accept_value cr k)"
  have fd: "fd \<noteq> listen_fd s" using e1 by (simp add: arriving_def)
  have "heap s ?a = None"
    using main_run_knows [OF run] by (cases "heap s ?a") (auto simp: server_inv_def)
  then have old: "?a \<notin> set (wb_clients s)"
    using main_run_knows [OF run] by (auto simp: main_knows_def)
  obtain s1 c0 where s1: "handle_event (main_hooks cr) e1 s = Inr s1" "main_run cr s1"
    "heap s1 = (heap s)(?a \<mapsto> c0)" "sockfd c0 = fd" "is_connected c0 = NONE" "http_header c0 = Map.empty"
    "send_buffer_queue c0 = []" "decode_buffer c0 = []"
    "clients s1 = (clients s)(fd \<mapsto> ?a)" "wire s1 = wire s" "wb_clients s1 = wb_clients s" "listen_fd s1 = listen_fd s"
    using arrival_accepted [OF run e1] by blast
  have at: "ev_fd e2 \<noteq> listen_fd s1" "clients s1 (ev_fd e2) = Some ?a" "heap s1 ?a = Some c0" using e2(2) fd s1 by simp_all
  from request_answered [OF s1(2) sizes e2(1) at s1(5,6) req] obtain c2
    where s2: "handle_event (main_hooks cr) e2 s1 = Inr (put ?a c2 (sending fd s1))"
      and c2: "send_buffer_queue c2 = [?res]" "is_connected c2 = WAIT_SHAKE" "get_path c2 = path" "sockfd c2 = fd" "decode_buffer c2 = []"
    using s1(4,7,8) by (auto simp: steady_def)
  let ?s2 = "put ?a c2 (sending fd s1)"
  have run2: "main_run cr ?s2" using main_run_next [OF s1(2) _ s2] e2(1) by (simp add: reading_def)
  have w: "writing e3 (length (concat (send_buffer_queue c2)))" using e3(1) c2(1) by simp
  have at3: "clients ?s2 (ev_fd e3) = Some ?a" "heap ?s2 ?a = Some c2" "[] \<notin> set (send_buffer_queue c2)" "?a \<notin> set (wb_clients ?s2)"
    using e3(2) s1 c2(1) old by (simp_all add: generate_websocket_shake_hands_res_def)
  from answer_sent [OF run2 w at3(1,2) c2(2) at3(3,4)] obtain s3
    where s3: "handle_event (main_hooks cr) e3 ?s2 = Inr s3"
      "wire s3 = (wire ?s2)(ev_fd e3 := wire ?s2 (ev_fd e3) @ concat (send_buffer_queue c2))" "clients s3 = clients ?s2"
      "heap s3 = greeted (insert ?a (set (wb_clients ?s2))) ((heap ?s2)(?a \<mapsto> c2\<lparr>send_buffer_queue := [], is_connected := CONNECTED\<rparr>))"
      "wb_clients s3 = ?a # wb_clients ?s2" "listen_fd s3 = listen_fd ?s2" by blast
  have "main_run cr s3" using main_run_next [OF run2 _ s3(1)] e3(1) by (simp add: writing_def)
  moreover have "handle_events (main_hooks cr) [e1, e2, e3] s = Inr s3" using s1(1) s2 s3(1) by simp
  moreover have "heap s3 ?a = Some (queued hello (c2\<lparr>send_buffer_queue := [], is_connected := CONNECTED\<rparr>))"
    unfolding s3(4) by (simp add: greeted_def)
  moreover have "heap s3 v = greeted (set (wb_clients s)) (heap s) v" if "v \<noteq> ?a" for v
    using that s1(3,11) unfolding s3(4) by (simp add: greeted_def)
  ultimately show ?thesis using s3(2,3,5,6) s1 c2 e3(2)
    by (intro exI [of _ s3] exI [of _ "queued hello (c2\<lparr>send_buffer_queue := [], is_connected := CONNECTED\<rparr>)"])
      (simp add: get_path_def queued_def)
qed

section \<open>The properties\<close>

text \<open>
  C2: a connection to the running program: accepted, it sends its request, in any number of pieces; the next
  write event puts exactly the 101 response on the wire, the connection is established, enters the application's
  set, and a greeting is queued for it and for every other client of the set, while all other objects stay as
  they were.
\<close>

theorem connection_opened:
  assumes "main_run cr s" and "openssl_sizes cr"
    and "arriving e1 fd s" and "reading e2 data" "ev_fd e2 = fd"
    and "good_request verb path version hs" "data = render_request verb path version hs @ rest" "upgrades (map_of hs) k"
    and "writing e3 (length (generate_websocket_shake_hands_res (accept_value cr k)))" "ev_fd e3 = fd"
  shows "\<exists>s' c. handle_events (main_hooks cr) [e1, e2, e3] s = Inr s'
    \<and> wire s' = (wire s)(fd := wire s fd @ generate_websocket_shake_hands_res (accept_value cr k))
    \<and> clients s' = (clients s)(fd \<mapsto> next_addr s) \<and> heap s' (next_addr s) = Some c
    \<and> (\<forall>v. v \<noteq> next_addr s \<longrightarrow> heap s' v = greeted (set (wb_clients s)) (heap s) v)
    \<and> is_connected c = CONNECTED \<and> get_path c = path \<and> send_buffer_queue c = [hello]
    \<and> wb_clients s' = next_addr s # wb_clients s"
  using connection_opens [OF assms] by blast

text \<open>Events on descriptor 7, and a server that has just been started.\<close>

definition sample_arrival :: event where
  "sample_arrival = \<lparr>ev_fd = 3, ev_events = EPOLLIN,
     accepts = Some (7, \<lparr>sin_port = (0, 80), sin_addr = (127, 0, 0, 1)\<rparr>, []), recvs = [], sends = []\<rparr>"

definition sample_reading :: "bytes list \<Rightarrow> event" where
  "sample_reading ds = \<lparr>ev_fd = 7, ev_events = EPOLLIN, accepts = None, recvs = map Received ds @ [Recv_again], sends = []\<rparr>"

definition sample_writing :: "nat \<Rightarrow> event" where
  "sample_writing n = \<lparr>ev_fd = 7, ev_events = EPOLLOUT, accepts = None, recvs = [], sends = replicate n (Sent 1)\<rparr>"

lemma sample_events [simp]:
  "ev_fd (sample_reading ds) = 7" "reading (sample_reading ds) (concat ds)"
  "ev_fd (sample_writing n) = 7" "writing (sample_writing n) n" "accepts (sample_reading ds) = None" "accepts (sample_writing n) = None"
  by (auto simp: sample_reading_def reading_def sample_writing_def writing_def accepting_def)

lemma main_started_simps [simp]:
  "open_fds main_started = {0, 1, 2, 3, 4}" "listen_fd main_started = 3" "next_addr main_started = 0"
  "wire main_started = (\<lambda>_. [])"
  by (auto simp: main_started_def main_init_def main_setup_def websocket_server_init_def tcp_server_init_def init_tcp_server_def
      init_epoll_def ctl_add_def Let_def ws_register_sent_callback_def ws_register_connected_callback_def
      ws_register_recv_callback_def register_sent_callback_def register_recv_callback_def
      register_disconnect_callback_def process_init_def websocket_process.extend_def process.extend_def wheel.extend_def
      process.fields_def)

lemma sample_arriving: "arriving sample_arrival 7 main_started"
  by (simp add: arriving_def sample_arrival_def)

abbreviation sample_get :: bytes where
  "sample_get \<equiv> render_request (bytes_of ''GET'') (bytes_of ''/chat'') (bytes_of ''HTTP/1.1'') sample_fields"

lemma sample_upgrades: "upgrades (map_of sample_fields) (bytes_of ''dGhlIHNhbXBsZSBub25jZQ=='')"
  by (simp add: upgrades_def sample_fields_def)

lemma sample_get_rest: "sample_get = sample_get @ []"
  by (simp only: append_Nil2)

abbreviation sample_answer :: bytes where
  "sample_answer \<equiv> generate_websocket_shake_hands_res (accept_value sample_crypto (bytes_of ''dGhlIHNhbXBsZSBub25jZQ==''))"

theorem connection_opened_witness:
  "\<exists>s' c. handle_events (main_hooks sample_crypto)
      [sample_arrival, sample_reading [take 10 sample_get, drop 10 sample_get], sample_writing (length sample_answer)] main_started = Inr s'
    \<and> wire s' 7 = sample_answer \<and> heap s' 0 = Some c \<and> is_connected c = CONNECTED \<and> wb_clients s' = 0 # wb_clients main_started"
proof -
  have "reading (sample_reading [take 10 sample_get, drop 10 sample_get]) sample_get"
    using sample_events(2) [of "[take 10 sample_get, drop 10 sample_get]"] by (simp del: sample_events)
  from connection_opened [OF main_run_started sample_openssl_sizes sample_arriving this sample_events(1) sample_request
      sample_get_rest sample_upgrades sample_events(4,3)]
  obtain s' c where "handle_events (main_hooks sample_crypto)
      [sample_arrival, sample_reading [take 10 sample_get, drop 10 sample_get], sample_writing (length sample_answer)] main_started = Inr s'"
    "wire s' = (wire main_started)(7 := wire main_started 7 @ sample_answer)" "heap s' (next_addr main_started) = Some c"
    "is_connected c = CONNECTED" "wb_clients s' = next_addr main_started # wb_clients main_started"
    by blast
  then show ?thesis by (intro exI [of _ s'] exI [of _ c]) (simp only: main_started_simps fun_upd_same append_Nil simp_thms)
qed

text \<open>A message that arrives on an established, idle connection, and its echo.\<close>

lemma echo_round:
  assumes "main_run cr s" and "reading e1 data" and "ev_fd e1 \<noteq> listen_fd s" and "clients s (ev_fd e1) = Some a"
    and "heap s a = Some c" and "is_connected c = CONNECTED" and "decode_buffer c = []" and "send_buffer_queue c = []"
    and "fs \<noteq> []" and "\<forall>fr \<in> set fs. good_frame fr" and "op = TEXT_FRAME \<or> op = BINARY_FRAME"
    and "data = message_bytes op fs @ post" and "text_ok op fs []" and "length data < 2 ^ 31"
    and "ev_fd e2 = ev_fd e1" and "writing e2 (length (rfc_frame True TEXT_FRAME None (concat (map snd fs))))"
  shows "\<exists>s' c'. handle_events (main_hooks cr) [e1, e2] s = Inr s'
    \<and> wire s' = (wire s)(ev_fd e1 := wire s (ev_fd e1) @ rfc_frame True TEXT_FRAME None (concat (map snd fs)))
    \<and> heap s' = (heap s)(a \<mapsto> c') \<and> is_connected c' = CONNECTED \<and> decode_buffer c' = [] \<and> send_buffer_queue c' = []
    \<and> clients s' = clients s \<and> main_run cr s' \<and> listen_fd s' = listen_fd s"
proof -
  from message_queued [OF assms(1-7,9-14)] obtain c1
    where e1: "handle_event (main_hooks cr) e1 s = Inr (put a c1 (sending (sockfd c) s))"
      and c1: "send_buffer_queue c1 = [rfc_frame True TEXT_FRAME None (concat (map snd fs))]" "is_connected c1 = CONNECTED"
        "decode_buffer c1 = []" "sockfd c1 = sockfd c"
    using assms(8) by auto
  let ?s1 = "put a c1 (sending (sockfd c) s)"
  have fd: "sockfd c = ev_fd e2"
    using main_run_knows [OF assms(1)] server_inv_client [of "{}" s, OF _ assms(4)] assms(5,15) by auto
  from main_run_knows [OF assms(1)] have sent: "sent_f ?s1 = Some (Sent_wrapper None)" by (simp add: main_knows_def)
  have w: "writing e2 (length (concat (send_buffer_queue c1)))" using assms(16) c1 by simp
  have "clients ?s1 (ev_fd e2) = Some a" "heap ?s1 a = Some c1" "sockfd c1 = ev_fd e2" "[] \<notin> set (send_buffer_queue c1)"
    using assms(4,15) fd c1 by simp_all
  from flush_connected [OF w this(1,2,3) c1(2) this(4) sent, of cr] obtain s'
    where e2: "handle_event (main_hooks cr) e2 ?s1 = Inr s'" and same: "same_app ?s1 s'" and
      "wire s' = (wire s)(ev_fd e2 := wire s (ev_fd e2) @ concat (send_buffer_queue c1))"
      "heap s' = (heap s)(a \<mapsto> c1\<lparr>send_buffer_queue := []\<rparr>)" "clients s' = clients s" by auto
  moreover have "main_run cr ?s1" using main_run_next [OF assms(1) _ e1] assms(2) by (simp add: reading_def)
  then have "main_run cr s'" using main_run_next [OF _ _ e2] w by (simp add: writing_def)
  moreover have "listen_fd s' = listen_fd s" using same by (simp add: same_app_def)
  ultimately show ?thesis using e1 e2 c1 assms(15) by (intro exI [of _ s'] exI [of _ "c1\<lparr>send_buffer_queue := []\<rparr>"]) simp
qed


text \<open>The connection of the example, after the greeting.\<close>

lemma sample_established:
  "\<exists>(s :: main_process) c. main_run sample_crypto s \<and> listen_fd s = 3 \<and> clients s 7 = Some 0 \<and> heap s 0 = Some c
    \<and> is_connected c = CONNECTED \<and> decode_buffer c = [] \<and> send_buffer_queue c = []"
proof -
  have get: "reading (sample_reading [sample_get]) sample_get"
    using sample_events(2) [of "[sample_get]"] by (simp del: sample_events)
  from connection_opens [OF main_run_started sample_openssl_sizes sample_arriving get sample_events(1) sample_request
      sample_get_rest sample_upgrades sample_events(4,3)]
  obtain s :: main_process and c where s0: "main_run sample_crypto s" "clients s = (clients main_started)(7 \<mapsto> next_addr main_started)"
    "heap s (next_addr main_started) = Some c" "listen_fd s = listen_fd main_started"
    and c: "is_connected c = CONNECTED" "send_buffer_queue c = [hello]" "decode_buffer c = []"
    by blast
  then have s: "main_run sample_crypto s" "clients s 7 = Some 0" "heap s 0 = Some c" "listen_fd s = 3"
    by (simp_all only: main_started_simps fun_upd_same)
  let ?e = "sample_writing (length hello)"
  have fd: "sockfd c = 7" using main_run_knows [OF s(1)] server_inv_client [of "{}" s, OF _ s(2)] s(3) by auto
  have "writing ?e (length (concat (send_buffer_queue c)))" by (simp add: c(2) del: bytes_of_simps)
  from flush_connected [OF this _ s(3) _ c(1), of sample_crypto] s c fd main_run_knows [OF s(1)] obtain s'
    where s': "handle_event (main_hooks sample_crypto) ?e s = Inr s'" "same_app s s'" "clients s' = clients s"
      "heap s' = (heap s)(0 \<mapsto> c\<lparr>send_buffer_queue := []\<rparr>)"
    by (auto simp: main_knows_def simp del: bytes_of_simps)
  have "main_run sample_crypto s'" by (rule main_run_next [OF s(1) _ s'(1)]) simp
  with s s' c show ?thesis by (intro exI [of _ s'] exI [of _ "c\<lparr>send_buffer_queue := []\<rparr>"]) (simp add: same_app_def)
qed


end
