(* ===== verification/Qt_Connector.thy ===== *)
theory Qt_Connector
  imports Ws_Prelude "HOL-Library.Signed_Division"
begin

text \<open>
  The Qt client of \<^verbatim>\<open>src/tcp_connector\<close>: the connector windows (\<^verbatim>\<open>Connector.h\<close>, \<^verbatim>\<open>Connector.cpp\<close>), the
  signal they share (\<^verbatim>\<open>EventBus.h\<close>) and the main window that checks the parameters and opens them
  (\<^verbatim>\<open>Mainwindow.h\<close>, \<^verbatim>\<open>Mainwindow.cpp\<close>). Every slot and event handler is a function on the state of
  the desktop; what the sockets and the user do arrives as an event (\<open>gui_event\<close>), and \<open>handle\<close> calls the
  slot that \<^verbatim>\<open>connect\<close> has attached to it.
\<close>

section \<open>What the code uses of Qt\<close>

text \<open>
  \<^verbatim>\<open>QString\<close> is a sequence of UTF-16 code units. The functions of Qt that the code calls on strings are
  parameters: \<^verbatim>\<open>trimmed\<close>, \<^verbatim>\<open>toUtf8\<close>, \<^verbatim>\<open>fromUtf8\<close> (also behind the conversions from \<^verbatim>\<open>QByteArray\<close> and
  \<^verbatim>\<open>const char *\<close>), \<^verbatim>\<open>toUInt\<close> (\<open>None\<close> where it reports a failure, its value is 0 then),
  \<^verbatim>\<open>QHostAddress::setAddress\<close>, \<^verbatim>\<open>tr\<close>, \<^verbatim>\<open>arg\<close> with one string, with several, and the decimal text of a number.
\<close>

type_synonym qstring = "16 word list"

record qt =
  trimmed :: "qstring \<Rightarrow> qstring"
  to_utf8 :: "qstring \<Rightarrow> bytes"
  from_utf8 :: "bytes \<Rightarrow> qstring"
  to_uint :: "qstring \<Rightarrow> 32 word option"
  set_address :: "qstring \<Rightarrow> bool"
  tr :: "qstring \<Rightarrow> qstring"
  arg1 :: "qstring \<Rightarrow> qstring \<Rightarrow> qstring"
  args :: "qstring \<Rightarrow> qstring list \<Rightarrow> qstring"
  number :: "int \<Rightarrow> qstring"

text \<open>An ASCII literal; the literals with Chinese text are spelt out in code units.\<close>

definition qs :: "string \<Rightarrow> qstring" where
  "qs s = map of_char s"

text \<open>Pointers to the connectors, numbered in the order of their construction.\<close>

type_synonym ptr = nat

text \<open>A message box; \<open>box_bus\<close>: its \<^verbatim>\<open>finished\<close> emits \<^verbatim>\<open>closeAllErrBox\<close>.\<close>

record msg_box =
  box_parent :: ptr
  box_critical :: bool
  box_title :: qstring
  box_text :: qstring
  box_bus :: bool

section \<open>State\<close>

datatype ConnectorType = TCP | WEBSOCKET

text \<open>Where a socket was told to connect to, and what was written to it with the value that the call returned.\<close>

datatype endpoint = Host qstring "16 word" | Url qstring qstring int qstring

datatype packet = Raw bytes | Text qstring

record connector =
  conn_ip :: qstring
  conn_port :: int
  conn_path :: qstring
  conn_title :: qstring
  conn_type :: ConnectorType
  conn_protocol :: qstring
  conn_target :: "endpoint option"
  conn_sent :: "(packet \<times> int) list"
  window_title :: qstring
  label_title :: qstring
  shown_lines :: "qstring list"
  data_line :: qstring
  place :: "int \<times> int"
  visible :: bool

record desktop =
  connectors :: "ptr \<rightharpoonup> connector"
  next_connector :: ptr
  connections :: "ptr set"
  bus :: "ptr list"
  dying :: "ptr set"
  boxes :: "msg_box list"
  alerts :: "(qstring \<times> qstring) list"
  edit_ip :: qstring
  edit_port :: qstring
  edit_path :: qstring
  edit_num :: qstring
  combo :: ConnectorType
  main_alive :: bool
  main_shown :: bool
  minimised :: bool
  tray_notes :: "(qstring \<times> qstring) list"

definition conn :: "ptr \<Rightarrow> desktop \<Rightarrow> connector res" where
  "conn a s = (case connectors s a of None \<Rightarrow> Inl Use_after_free | Some c \<Rightarrow> Inr c)"

definition set_conn :: "ptr \<Rightarrow> (connector \<Rightarrow> connector) \<Rightarrow> desktop \<Rightarrow> desktop res" where
  "set_conn a f s = bnd (conn a s) (\<lambda>c. Inr (s\<lparr>connectors := (connectors s)(a \<mapsto> f c)\<rparr>))"

definition show_box :: "msg_box \<Rightarrow> desktop \<Rightarrow> desktop" where
  "show_box b s = s\<lparr>boxes := boxes s @ [b]\<rparr>"

section \<open>The connector\<close>

definition HEARTBEAT :: bytes where "HEARTBEAT = bytes_of ''HEARTBEAT''"

text \<open>The calls of \<^verbatim>\<open>connect\<close> in these two are in \<open>handle\<close>. \<^verbatim>\<open>connectToHost\<close> takes a \<^verbatim>\<open>quint16\<close>.\<close>

definition initTcpSocket :: "connector \<Rightarrow> connector" where
  "initTcpSocket c = c\<lparr>conn_target := Some (Host (conn_ip c) (word_of_int (conn_port c)))\<rparr>"

definition initWebSocket :: "connector \<Rightarrow> connector" where
  "initWebSocket c = c\<lparr>conn_target := Some (Url (qs ''ws'') (conn_ip c) (conn_port c) (conn_path c))\<rparr>"

definition initSocket :: "connector \<Rightarrow> connector" where
  "initSocket c = (case conn_type c of TCP \<Rightarrow> initTcpSocket c | WEBSOCKET \<Rightarrow> initWebSocket c)"

text \<open>The constructor, up to the subscription to the event bus.\<close>

definition new_connector :: "qt \<Rightarrow> qstring \<Rightarrow> int \<Rightarrow> qstring \<Rightarrow> ConnectorType \<Rightarrow> connector" where
  "new_connector qt ip port path type =
     (let c = \<lparr>conn_ip = ip, conn_port = port, conn_path = path,
            conn_title = arg1 qt (arg1 qt (arg1 qt (tr qt (qs ''%1:%2%3'')) ip) (number qt port)) path,
            conn_type = type, conn_protocol = [], conn_target = None, conn_sent = [],
            window_title = qs ''DecryptionQt'', label_title = [], shown_lines = [], data_line = [],
            place = (0, 0), visible = False\<rparr>
      in case type of
           TCP \<Rightarrow> initTcpSocket (c\<lparr>conn_protocol := qs ''tcp''\<rparr>)
         | WEBSOCKET \<Rightarrow> initWebSocket (c\<lparr>conn_protocol := qs ''websocket''\<rparr>))"

text \<open>\<^verbatim>\<open>write\<close> and \<^verbatim>\<open>sendTextMessage\<close>; \<open>ret\<close> is the number they return.\<close>

definition socket_write :: "ptr \<Rightarrow> packet \<Rightarrow> int \<Rightarrow> desktop \<Rightarrow> desktop res" where
  "socket_write a p ret s = set_conn a (\<lambda>c. c\<lparr>conn_sent := conn_sent c @ [(p, ret)]\<rparr>) s"

definition append_line :: "ptr \<Rightarrow> qstring \<Rightarrow> desktop \<Rightarrow> desktop res" where
  "append_line a t s = set_conn a (\<lambda>c. c\<lparr>shown_lines := shown_lines c @ [t]\<rparr>) s"

definition set_titles :: "ptr \<Rightarrow> qstring \<Rightarrow> qstring \<Rightarrow> desktop \<Rightarrow> desktop res" where
  "set_titles a window label s = set_conn a (\<lambda>c. c\<lparr>window_title := window, label_title := label\<rparr>) s"

text \<open>The word on top of a box and the texts in it.\<close>

definition TIP :: qstring where "TIP = [0x63D0, 0x793A]"
definition SEND_ERROR :: qstring where
  "SEND_ERROR = qs ''%1'' @ [0x53D1, 0x9001, 0x6D88, 0x606F, 0x9519, 0x8BEF] @ qs '': %2''"
definition CONNECT_ERROR :: qstring where
  "CONNECT_ERROR = qs ''%1'' @ [0x8FDE, 0x63A5, 0x53D1, 0x751F, 0x9519, 0x8BEF] @ qs '': %2''"
definition CONNECT_FAILED :: qstring where "CONNECT_FAILED = [0x8FDE, 0x63A5, 0x5931, 0x8D25]"
definition CONNECT_CLOSED :: qstring where "CONNECT_CLOSED = [0x8FDE, 0x63A5, 0x5173, 0x95ED]"
definition CONNECT_SUCCEEDED :: qstring where "CONNECT_SUCCEEDED = [0x8FDE, 0x63A5, 0x6210, 0x529F]"
definition WEBSOCKET_CLOSED :: qstring where "WEBSOCKET_CLOSED = qs ''websocket'' @ [0x5173, 0x95ED]"

text \<open>
  The button beside the input line, and the return key in it. \<open>ret\<close> is what the socket returns, \<open>err\<close> its
  \<^verbatim>\<open>errorString\<close>. \<^verbatim>\<open>sendTextMessage\<close> takes a \<^verbatim>\<open>QString\<close>, so the bytes are converted back.
\<close>

definition clickHandler :: "qt \<Rightarrow> ptr \<Rightarrow> int \<Rightarrow> qstring \<Rightarrow> desktop \<Rightarrow> desktop res" where
  "clickHandler qt a ret err s =
     bnd (conn a s) (\<lambda>c.
     let msg = trimmed qt (data_line c) in
     if msg = [] then Inr s else
     bnd (socket_write a
            (case conn_type c of
               TCP \<Rightarrow> Raw (to_utf8 qt msg)
             | WEBSOCKET \<Rightarrow> Text (from_utf8 qt (to_utf8 qt msg))) ret s) (\<lambda>s1.
     let s2 = (if ret = -1
               then show_box \<lparr>box_parent = a, box_critical = True, box_title = tr qt TIP,
                      box_text = arg1 qt (arg1 qt (tr qt SEND_ERROR) (conn_protocol c)) err, box_bus = False\<rparr> s1
               else s1)
     in set_conn a (\<lambda>c. c\<lparr>data_line := []\<rparr>) s2))"

definition onMessageReceived :: "qt \<Rightarrow> ptr \<Rightarrow> bytes \<Rightarrow> int \<Rightarrow> desktop \<Rightarrow> desktop res" where
  "onMessageReceived qt a data ret s =
     (if data = HEARTBEAT then socket_write a (Raw HEARTBEAT) ret s
      else append_line a (from_utf8 qt data) s)"

definition onMessageReceivedByWebSocket :: "qt \<Rightarrow> ptr \<Rightarrow> qstring \<Rightarrow> int \<Rightarrow> desktop \<Rightarrow> desktop res" where
  "onMessageReceivedByWebSocket qt a msg ret s =
     (if msg = from_utf8 qt HEARTBEAT then socket_write a (Text (from_utf8 qt HEARTBEAT)) ret s
      else append_line a msg s)"

definition onError :: "qt \<Rightarrow> ptr \<Rightarrow> qstring \<Rightarrow> desktop \<Rightarrow> desktop res" where
  "onError qt a err s =
     bnd (conn a s) (\<lambda>c.
     bnd (set_titles a CONNECT_FAILED CONNECT_FAILED s) (\<lambda>s1.
     Inr (show_box \<lparr>box_parent = a, box_critical = True, box_title = tr qt TIP,
            box_text = arg1 qt (arg1 qt (tr qt CONNECT_ERROR) (conn_protocol c)) err, box_bus = True\<rparr> s1)))"

definition onConnected :: "qt \<Rightarrow> ptr \<Rightarrow> qstring \<Rightarrow> desktop \<Rightarrow> desktop res" where
  "onConnected qt a timeStr s =
     bnd (conn a s) (\<lambda>c.
     bnd (append_line a (args qt (tr qt (qs ''[%1] %2:%3'' @ CONNECT_SUCCEEDED)) [timeStr, conn_protocol c, conn_title c]) s)
       (\<lambda>s1. set_titles a (conn_title c) (arg1 qt (tr qt (CONNECT_SUCCEEDED @ qs '' %1'')) (conn_title c)) s1))"

definition onDisconnected :: "qt \<Rightarrow> ptr \<Rightarrow> desktop \<Rightarrow> desktop res" where
  "onDisconnected qt a s =
     bnd (set_titles a CONNECT_CLOSED CONNECT_CLOSED s) (\<lambda>s1.
     Inr (show_box \<lparr>box_parent = a, box_critical = False, box_title = tr qt TIP,
            box_text = tr qt WEBSOCKET_CLOSED, box_bus = True\<rparr> s1))"

section \<open>Closing\<close>

text \<open>
  \<^verbatim>\<open>closeEvent\<close> emits \<^verbatim>\<open>windowClosed\<close>, which calls the lambda that \<^verbatim>\<open>createConnections\<close> has connected
  to it, as long as the main window is there. \<^verbatim>\<open>deleteLater\<close> leaves the object to the event loop.
\<close>

definition window_closed :: "ptr \<Rightarrow> desktop \<Rightarrow> desktop" where
  "window_closed a s = s\<lparr>connections := connections s - {a}, dying := insert a (dying s)\<rparr>"

definition closeEvent :: "ptr \<Rightarrow> desktop \<Rightarrow> desktop" where
  "closeEvent a s = (if main_alive s then window_closed a s else s)"

text \<open>\<^verbatim>\<open>QWidget::close\<close>: the event, then the window is hidden.\<close>

definition close_connector :: "ptr \<Rightarrow> desktop \<Rightarrow> desktop res" where
  "close_connector a s =
     bnd (conn a s) (\<lambda>_. set_conn a (\<lambda>c. c\<lparr>visible := False\<rparr>) (closeEvent a s))"

text \<open>\<^verbatim>\<open>emit closeAllErrBox\<close>: the slot of every subscriber, in the order of their subscriptions.\<close>

fun emit_close :: "ptr list \<Rightarrow> desktop \<Rightarrow> desktop res" where
  "emit_close [] s = Inr s"
| "emit_close (a # as) s = bnd (close_connector a s) (emit_close as)"

definition closeAllErrBox :: "desktop \<Rightarrow> desktop res" where
  "closeAllErrBox s = emit_close (bus s) s"

text \<open>A box is dismissed: it deletes itself, and the lambda connected to \<^verbatim>\<open>finished\<close> runs.\<close>

definition box_finished :: "nat \<Rightarrow> desktop \<Rightarrow> desktop res" where
  "box_finished i s =
     (if i < length (boxes s) then
        let s1 = s\<lparr>boxes := take i (boxes s) @ drop (Suc i) (boxes s)\<rparr> in
        if box_bus (boxes s ! i) then closeAllErrBox s1 else Inr s1
      else Inr s)"

text \<open>The event loop deletes an object for which \<^verbatim>\<open>deleteLater\<close> was called; its children and connections go with it.\<close>

definition delete_connector :: "ptr \<Rightarrow> desktop \<Rightarrow> desktop" where
  "delete_connector a s =
     s\<lparr>connectors := (connectors s)(a := None), bus := filter (\<lambda>b. b \<noteq> a) (bus s),
       dying := dying s - {a}, boxes := filter (\<lambda>b. box_parent b \<noteq> a) (boxes s)\<rparr>"

section \<open>The main window\<close>

record MainWindowForm =
  form_ip :: qstring
  form_port :: "32 word"
  form_path :: qstring
  form_num :: "32 word"
  form_type :: ConnectorType

definition WRONG :: qstring where "WRONG = [0x9519, 0x8BEF]"
definition BAD_PORT :: qstring where
  "BAD_PORT = [0x7AEF, 0x53E3, 0x53F7] @ qs '' %1 '' @ [0x4E0D, 0x662F, 0x6574, 0x6570]"
definition BAD_NUM :: qstring where
  "BAD_NUM = [0x5F00, 0x542F, 0x7A97, 0x53E3] @ qs '' %1 '' @ [0x4E0D, 0x662F, 0x6574, 0x6570]"
definition BAD_IP :: qstring where
  "BAD_IP = qs ''%1 '' @ [0x4E0D, 0x662F, 0x6B63, 0x786E, 0x7684] @ qs ''ip''"

definition main_window :: desktop where
  "main_window =
     \<lparr>connectors = Map.empty, next_connector = 0, connections = {}, bus = [], dying = {}, boxes = [], alerts = [],
      edit_ip = qs ''192.168.56.103'', edit_port = qs ''8192'', edit_path = qs ''/chatroom/123'', edit_num = qs ''2'',
      combo = WEBSOCKET, main_alive = True, main_shown = False, minimised = False, tray_notes = []\<rparr>"

text \<open>\<^verbatim>\<open>QMessageBox::critical\<close>. The number in the text is the value of the failed conversion, 0.\<close>

definition critical :: "qstring \<Rightarrow> qstring \<Rightarrow> desktop \<Rightarrow> desktop" where
  "critical title t s = s\<lparr>alerts := alerts s @ [(title, t)]\<rparr>"

definition paramsValidator :: "qt \<Rightarrow> desktop \<Rightarrow> MainWindowForm option \<times> desktop" where
  "paramsValidator qt s =
     (case to_uint qt (trimmed qt (edit_port s)) of
        None \<Rightarrow> (None, critical (tr qt WRONG) (arg1 qt (tr qt BAD_PORT) (number qt 0)) s)
      | Some port \<Rightarrow>
     (case to_uint qt (trimmed qt (edit_num s)) of
        None \<Rightarrow> (None, critical (tr qt WRONG) (arg1 qt (tr qt BAD_NUM) (number qt 0)) s)
      | Some num \<Rightarrow>
     (let ip = trimmed qt (edit_ip s) in
      if \<not> set_address qt ip then (None, critical (tr qt WRONG) (arg1 qt (tr qt BAD_IP) ip) s)
      else (Some \<lparr>form_ip = ip, form_port = port, form_path = trimmed qt (edit_path s),
                  form_num = num, form_type = combo s\<rparr>, s))))"

text \<open>The screen's available area and the size of a connector window.\<close>

record geometry =
  screen_x :: int
  screen_y :: int
  screen_width :: int
  screen_height :: int
  conn_width :: int
  conn_height :: int

definition to_int :: "int \<Rightarrow> int res" where
  "to_int x = (if - (2 ^ 31) \<le> x \<and> x < 2 ^ 31 then Inr x else Inl Int_overflow)"

definition centre :: "int \<Rightarrow> int \<Rightarrow> int \<Rightarrow> int res" where
  "centre x extent own = bnd (to_int (extent - own)) (\<lambda>d. to_int (x + d sdiv 2))"

text \<open>\<^verbatim>\<open>i * offset\<close> is an unsigned product, so the sum is unsigned as well before it is made an \<^verbatim>\<open>int\<close>.\<close>

definition cascade_x :: "int \<Rightarrow> 32 word \<Rightarrow> int" where
  "cascade_x c i = sint (word_of_int c + i * 20)"

definition cascade_y :: "int \<Rightarrow> 32 word \<Rightarrow> int" where
  "cascade_y c i = sint (word_of_int c - i * 20)"

text \<open>One turn of the loop: construction, insertion, subscriptions, position, show.\<close>

definition create_connection :: "qt \<Rightarrow> MainWindowForm \<Rightarrow> geometry \<Rightarrow> 32 word \<Rightarrow> desktop \<Rightarrow> desktop res" where
  "create_connection qt form g i s =
     (let a = next_connector s;
          s1 = s\<lparr>connectors := (connectors s)(a \<mapsto> new_connector qt (form_ip form) (sint (form_port form)) (form_path form) (form_type form)),
                 next_connector := Suc a, connections := insert a (connections s), bus := bus s @ [a]\<rparr>
      in bnd (centre (screen_x g) (screen_width g) (conn_width g)) (\<lambda>cx.
         bnd (centre (screen_y g) (screen_height g) (conn_height g)) (\<lambda>cy.
         set_conn a (\<lambda>c. c\<lparr>place := (cascade_x cx i, cascade_y cy i), visible := True\<rparr>) s1)))"

fun create_loop :: "qt \<Rightarrow> MainWindowForm \<Rightarrow> geometry \<Rightarrow> 32 word \<Rightarrow> nat \<Rightarrow> desktop \<Rightarrow> desktop res" where
  "create_loop qt form g i 0 s = Inr s"
| "create_loop qt form g i (Suc k) s = bnd (create_connection qt form g i s) (create_loop qt form g (i + 1) k)"

definition createConnections :: "qt \<Rightarrow> geometry \<Rightarrow> desktop \<Rightarrow> desktop res" where
  "createConnections qt g s =
     (case paramsValidator qt s of
        (None, s1) \<Rightarrow> Inr s1
      | (Some form, s1) \<Rightarrow>
          bnd (create_loop qt form g 0 (unat (form_num form)) s1) (\<lambda>s2. Inr (s2\<lparr>minimised := True\<rparr>)))"

text \<open>
  \<^verbatim>\<open>close\<close> and \<^verbatim>\<open>showNormal\<close> on the main window, from its buttons or from the menu of the tray icon. The
  destructor (below) follows a \<^verbatim>\<open>close\<close> when the event loop gets to it.
\<close>

definition main_close :: "desktop \<Rightarrow> desktop" where
  "main_close s = s\<lparr>main_shown := False\<rparr>"

definition main_restore :: "desktop \<Rightarrow> desktop" where
  "main_restore s = s\<lparr>main_shown := True, minimised := False\<rparr>"

datatype button = Close_button | Ok_button | Other_button

definition buttonClicked :: "qt \<Rightarrow> geometry \<Rightarrow> button \<Rightarrow> desktop \<Rightarrow> desktop res" where
  "buttonClicked qt g b s =
     (case b of
        Close_button \<Rightarrow> Inr (main_close s)
      | Ok_button \<Rightarrow> createConnections qt g s
      | Other_button \<Rightarrow> Inr s)"

datatype key = Key_Enter | Key_Return | Key_Other

definition keyReleaseEvent :: "qt \<Rightarrow> geometry \<Rightarrow> key \<Rightarrow> desktop \<Rightarrow> desktop res" where
  "keyReleaseEvent qt g k s = (if k = Key_Enter \<or> k = Key_Return then createConnections qt g s else Inr s)"

text \<open>The tray icon. The order in which a \<^verbatim>\<open>QSet\<close> is walked is Qt's, so the walk takes it as an argument.\<close>

fun show_connectors :: "ptr list \<Rightarrow> desktop \<Rightarrow> desktop res" where
  "show_connectors [] s = Inr s"
| "show_connectors (a # as) s = bnd (set_conn a (\<lambda>c. c\<lparr>visible := True\<rparr>) s) (show_connectors as)"

definition trayIconActive :: "bool \<Rightarrow> ptr list \<Rightarrow> desktop \<Rightarrow> desktop res" where
  "trayIconActive double_click order s =
     (if double_click then
        if connections s = {} then Inr (main_restore s)
        else show_connectors order s
      else Inr s)"

definition changeEvent :: "bool \<Rightarrow> desktop \<Rightarrow> desktop" where
  "changeEvent window_state_change s =
     (if window_state_change \<and> minimised s
      then s\<lparr>tray_notes := tray_notes s @ [([0x6258, 0x76D8], qs ''dsadas'')]\<rparr> else s)"

text \<open>
  The destructor. \<^verbatim>\<open>close\<close> takes the connector out of the set that the loop walks; the iterator that is
  advanced next is no iterator of the set any more.
\<close>

fun close_connections :: "ptr list \<Rightarrow> desktop \<Rightarrow> desktop res" where
  "close_connections [] s = Inr s"
| "close_connections (a # as) s =
     bnd (close_connector a s) (\<lambda>s1. if a \<in> connections s1 then close_connections as s1 else Inl Bad_iterator)"

definition main_window_destroy :: "ptr list \<Rightarrow> desktop \<Rightarrow> desktop res" where
  "main_window_destroy order s =
     bnd (close_connections order s) (\<lambda>s1. Inr (s1\<lparr>main_alive := False, main_shown := False\<rparr>))"

section \<open>Events\<close>

datatype gui_event =
    Type_data ptr qstring
  | Send_clicked ptr int qstring
  | Tcp_ready ptr bytes int
  | Text_received ptr qstring int
  | Socket_error ptr qstring
  | Socket_connected ptr qstring
  | Socket_disconnected ptr
  | Window_close ptr
  | Box_finished nat
  | Deferred_delete ptr
  | Type_form qstring qstring qstring qstring ConnectorType
  | Button button geometry
  | Key_release key geometry
  | Tray bool "ptr list"
  | Main_change bool
  | Quit_action
  | Restore_action

fun handle :: "qt \<Rightarrow> gui_event \<Rightarrow> desktop \<Rightarrow> desktop res" where
  "handle qt (Type_data a t) s = set_conn a (\<lambda>c. c\<lparr>data_line := t\<rparr>) s"
| "handle qt (Send_clicked a ret err) s = clickHandler qt a ret err s"
| "handle qt (Tcp_ready a data ret) s = onMessageReceived qt a data ret s"
| "handle qt (Text_received a msg ret) s = onMessageReceivedByWebSocket qt a msg ret s"
| "handle qt (Socket_error a err) s = onError qt a err s"
| "handle qt (Socket_connected a timeStr) s = onConnected qt a timeStr s"
| "handle qt (Socket_disconnected a) s = onDisconnected qt a s"
| "handle qt (Window_close a) s = close_connector a s"
| "handle qt (Box_finished i) s = box_finished i s"
| "handle qt (Deferred_delete a) s = Inr (delete_connector a s)"
| "handle qt (Type_form ip port path num type) s =
     Inr (s\<lparr>edit_ip := ip, edit_port := port, edit_path := path, edit_num := num, combo := type\<rparr>)"
| "handle qt (Button b g) s = buttonClicked qt g b s"
| "handle qt (Key_release k g) s = keyReleaseEvent qt g k s"
| "handle qt (Tray double_click order) s = trayIconActive double_click order s"
| "handle qt (Main_change c) s = Inr (changeEvent c s)"
| "handle qt Quit_action s = Inr (main_close s)"
| "handle qt Restore_action s = Inr (main_restore s)"

text \<open>
  The icon in the tray and its menu, with the event that \<^verbatim>\<open>connect\<close> has attached to each of its actions; \<open>None\<close> is
  the separator. \<open>title\<close> is the \<^verbatim>\<open>windowTitle\<close> of the main window. The double click is the event \<open>Tray\<close>.
\<close>

record tray_icon =
  tray_tip :: qstring
  tray_shown :: bool
  tray_menu :: "(qstring \<times> gui_event) option list"

definition QUIT :: qstring where "QUIT = [0x9000, 0x51FA]"
definition MAXIMISE :: qstring where "MAXIMISE = [0x6700, 0x5927, 0x5316]"

definition initTrayIcon :: "qstring \<Rightarrow> tray_icon" where
  "initTrayIcon title =
     \<lparr>tray_tip = title, tray_shown = True,
      tray_menu = [Some (MAXIMISE, Restore_action), None, Some (QUIT, Quit_action)]\<rparr>"

text \<open>The entry called maximise shows the main window at its normal size.\<close>

lemma tray_menu_events:
  "map (map_option (\<lambda>(_, e). handle qt e s)) (tray_menu (initTrayIcon title))
     = [Some (Inr (s\<lparr>main_shown := True, minimised := False\<rparr>)), None, Some (Inr (s\<lparr>main_shown := False\<rparr>))]"
  by (simp add: initTrayIcon_def main_restore_def main_close_def)

end
