(* ===== verification/Qt_Correct.thy ===== *)
theory Qt_Correct
  imports Qt_Connector
begin

text \<open>
  The connector application: the connection table, the event bus and the objects agree in every state the
  application can reach, and what the operations of the windows do.
\<close>

section \<open>One connector\<close>

lemma conn_eq_Inr [simp]: "conn a s = Inr c \<longleftrightarrow> connectors s a = Some c"
  by (auto simp: conn_def split: option.split)

lemma conn_live [simp]: "connectors s a = Some c \<Longrightarrow> conn a s = Inr c"
  by simp

lemma set_conn_live [simp]:
  "connectors s a = Some c \<Longrightarrow> set_conn a f s = Inr (s\<lparr>connectors := (connectors s)(a \<mapsto> f c)\<rparr>)"
  by (simp add: set_conn_def)

lemmas connector_ops = clickHandler_def onMessageReceived_def onMessageReceivedByWebSocket_def onError_def
  onConnected_def onDisconnected_def socket_write_def append_line_def set_titles_def show_box_def Let_def

section \<open>The order of the desktop\<close>

text \<open>
  Every connector is either in the table of the main window or waiting for its deletion, every connector
  and nothing else subscribes to the event bus, and every box belongs to a connector that exists.
\<close>

definition desk_ok :: "desktop \<Rightarrow> bool" where
  "desk_ok s \<longleftrightarrow> main_alive s \<and> connections s = dom (connectors s) - dying s \<and> dying s \<subseteq> dom (connectors s)
     \<and> set (bus s) = dom (connectors s) \<and> distinct (bus s) \<and> (\<forall>a \<in> dom (connectors s). a < next_connector s)
     \<and> (\<forall>b \<in> set (boxes s). box_parent b \<in> dom (connectors s))"

lemma desk_ok_dom:
  assumes "desk_ok s" and "dom (connectors s') = dom (connectors s)" and "main_alive s' = main_alive s"
    and "connections s' = connections s" and "dying s' = dying s" and "bus s' = bus s" and "next_connector s' = next_connector s"
    and "\<forall>b \<in> set (boxes s'). b \<in> set (boxes s) \<or> box_parent b \<in> dom (connectors s)"
  shows "desk_ok s'"
  using assms by (auto simp: desk_ok_def)

lemma desk_ok_frame [simp]:
  "desk_ok (s\<lparr>minimised := m\<rparr>) = desk_ok s" "desk_ok (s\<lparr>main_shown := m\<rparr>) = desk_ok s"
  "desk_ok (s\<lparr>alerts := al\<rparr>) = desk_ok s" "desk_ok (s\<lparr>tray_notes := al\<rparr>) = desk_ok s"
  "desk_ok (s\<lparr>edit_ip := t\<rparr>) = desk_ok s" "desk_ok (s\<lparr>edit_port := t\<rparr>) = desk_ok s"
  "desk_ok (s\<lparr>edit_path := t\<rparr>) = desk_ok s" "desk_ok (s\<lparr>edit_num := t\<rparr>) = desk_ok s"
  "desk_ok (s\<lparr>combo := ty\<rparr>) = desk_ok s"
  by (simp_all add: desk_ok_def)

lemma desk_ok_put [simp]:
  "connectors s a \<noteq> None \<Longrightarrow> desk_ok (s\<lparr>connectors := (connectors s)(a \<mapsto> c)\<rparr>) = desk_ok s"
  "connectors s a \<noteq> None \<Longrightarrow>
    desk_ok (s\<lparr>boxes := bs, connectors := (connectors s)(a \<mapsto> c)\<rparr>) = desk_ok (s\<lparr>boxes := bs\<rparr>)"
  by (simp_all add: desk_ok_def insert_absorb domIff)

lemma desk_ok_box [simp]:
  "connectors s (box_parent b) \<noteq> None \<Longrightarrow> desk_ok (s\<lparr>boxes := boxes s @ [b]\<rparr>) = desk_ok s"
  "connectors s (box_parent b) \<noteq> None \<Longrightarrow>
    desk_ok (s\<lparr>connectors := (connectors s)(a \<mapsto> c), boxes := boxes s @ [b]\<rparr>) = desk_ok (s\<lparr>connectors := (connectors s)(a \<mapsto> c)\<rparr>)"
  by (auto simp: desk_ok_def domIff)

section \<open>Closing\<close>

definition closed :: "ptr set \<Rightarrow> desktop \<Rightarrow> desktop" where
  "closed A s = s\<lparr>connectors := (\<lambda>a. if a \<in> A then map_option (\<lambda>c. c\<lparr>visible := False\<rparr>) (connectors s a) else connectors s a),
     connections := connections s - A, dying := A \<union> dying s\<rparr>"

lemma closed_simps [simp]:
  "dom (connectors (closed A s)) = dom (connectors s)" "connections (closed A s) = connections s - A"
  "dying (closed A s) = A \<union> dying s" "bus (closed A s) = bus s" "boxes (closed A s) = boxes s"
  "main_alive (closed A s) = main_alive s" "next_connector (closed A s) = next_connector s"
  by (auto simp: closed_def split: if_splits)

lemma closed_empty [simp]: "closed {} s = s"
  by (simp add: closed_def)

lemma close_connector_live:
  "main_alive s \<Longrightarrow> a \<in> dom (connectors s) \<Longrightarrow> close_connector a s = Inr (closed {a} s)"
  by (auto simp: close_connector_def closeEvent_def window_closed_def closed_def fun_eq_iff intro!: desktop.equality)

lemma closed_closed: "closed A (closed B s) = closed (A \<union> B) s"
  by (auto simp: closed_def fun_eq_iff option.map_comp comp_def Un_assoc intro!: desktop.equality)

lemma emit_close_live:
  "main_alive s \<Longrightarrow> set as \<subseteq> dom (connectors s) \<Longrightarrow> emit_close as s = Inr (closed (set as) s)"
proof (induction as arbitrary: s)
  case (Cons a as)
  have "emit_close as (closed {a} s) = Inr (closed (set as) (closed {a} s))"
    using Cons.prems by (intro Cons.IH) simp_all
  moreover have "closed (set as) (closed {a} s) = closed (set (a # as)) s"
    by (simp add: closed_closed)
  ultimately show ?case
    using Cons.prems by (simp add: close_connector_live)
qed simp

lemma desk_ok_closed: "desk_ok s \<Longrightarrow> A \<subseteq> dom (connectors s) \<Longrightarrow> desk_ok (closed A s)"
  by (auto simp: desk_ok_def)

lemma closeAllErrBox_ok: "desk_ok s \<Longrightarrow> closeAllErrBox s = Inr (closed (dom (connectors s)) s)"
  by (simp add: closeAllErrBox_def desk_ok_def emit_close_live)

section \<open>Opening\<close>

definition sane_geometry :: "geometry \<Rightarrow> bool" where
  "sane_geometry g \<longleftrightarrow> \<bar>screen_x g\<bar> < 2 ^ 29 \<and> \<bar>screen_y g\<bar> < 2 ^ 29 \<and> \<bar>screen_width g\<bar> < 2 ^ 28
     \<and> \<bar>screen_height g\<bar> < 2 ^ 28 \<and> \<bar>conn_width g\<bar> < 2 ^ 28 \<and> \<bar>conn_height g\<bar> < 2 ^ 28"

definition mid :: "int \<Rightarrow> int \<Rightarrow> int \<Rightarrow> int" where
  "mid x extent own = x + (extent - own) sdiv 2"

lemma sdiv_2_abs: "\<bar>d sdiv 2\<bar> \<le> \<bar>d :: int\<bar>"
  by (auto simp: signed_divide_int_def sgn_if abs_mult)

lemma centre_sane:
  assumes "\<bar>x\<bar> < 2 ^ 29" and "\<bar>extent\<bar> < 2 ^ 28" and "\<bar>own\<bar> < 2 ^ 28"
  shows "centre x extent own = Inr (mid x extent own)" "\<bar>mid x extent own\<bar> < 2 ^ 30"
  using assms sdiv_2_abs [of "extent - own"] by (auto simp: centre_def to_int_def mid_def)

definition opened :: "qt \<Rightarrow> MainWindowForm \<Rightarrow> geometry \<Rightarrow> 32 word \<Rightarrow> connector" where
  "opened qt form g i = (new_connector qt (form_ip form) (sint (form_port form)) (form_path form) (form_type form))
     \<lparr>place := (cascade_x (mid (screen_x g) (screen_width g) (conn_width g)) i,
                cascade_y (mid (screen_y g) (screen_height g) (conn_height g)) i), visible := True\<rparr>"

definition with_new :: "qt \<Rightarrow> MainWindowForm \<Rightarrow> geometry \<Rightarrow> 32 word \<Rightarrow> nat \<Rightarrow> desktop \<Rightarrow> desktop" where
  "with_new qt form g i k s = s
     \<lparr>connectors := (\<lambda>a. if next_connector s \<le> a \<and> a < next_connector s + k
        then Some (opened qt form g (i + of_nat (a - next_connector s))) else connectors s a),
      next_connector := next_connector s + k, connections := connections s \<union> {next_connector s ..< next_connector s + k},
      bus := bus s @ [next_connector s ..< next_connector s + k]\<rparr>"

lemma with_new_simps [simp]:
  "next_connector (with_new qt form g i k s) = next_connector s + k"
  "connections (with_new qt form g i k s) = connections s \<union> {next_connector s ..< next_connector s + k}"
  "bus (with_new qt form g i k s) = bus s @ [next_connector s ..< next_connector s + k]"
  "dying (with_new qt form g i k s) = dying s" "boxes (with_new qt form g i k s) = boxes s"
  "main_alive (with_new qt form g i k s) = main_alive s"
  by (simp_all add: with_new_def)

lemma with_new_connectors:
  "connectors (with_new qt form g i k s) a = (if next_connector s \<le> a \<and> a < next_connector s + k
     then Some (opened qt form g (i + of_nat (a - next_connector s))) else connectors s a)"
  by (simp add: with_new_def)

lemma dom_with_new:
  "dom (connectors (with_new qt form g i k s)) = dom (connectors s) \<union> {next_connector s ..< next_connector s + k}"
  by (auto simp: with_new_connectors split: if_splits)

lemma create_connection_sane:
  "sane_geometry g \<Longrightarrow> create_connection qt form g i s = Inr (with_new qt form g i (Suc 0) s)"
  by (auto simp: create_connection_def Let_def sane_geometry_def centre_sane with_new_def opened_def fun_eq_iff
      intro!: desktop.equality)

lemma with_new_Suc: "with_new qt form g (i + 1) k (with_new qt form g i (Suc 0) s) = with_new qt form g i (Suc k) s"
    (is "?l = ?r")
proof -
  let ?n = "next_connector s"
  have c: "connectors ?l a = connectors ?r a" for a
  proof (cases "?n < a")
    case True
    then have "a - ?n = Suc (a - Suc ?n)" by simp
    then have "i + 1 + of_nat (a - Suc ?n) = i + of_nat (a - ?n)" by (simp add: algebra_simps)
    with True show ?thesis by (simp add: with_new_connectors)
  qed (auto simp: with_new_connectors dest: le_antisym)
  have "[?n ..< ?n + Suc k] = [?n] @ [Suc ?n ..< Suc ?n + k]"
    using upt_add_eq_append [of ?n "Suc ?n" k] by simp
  then have "bus ?l = bus ?r" by simp
  moreover have "connections ?l = connections ?r" by auto
  ultimately have "with_new qt form g (i + 1) k (with_new qt form g i (Suc 0) s)
      = s\<lparr>connectors := connectors ?r, next_connector := next_connector ?r, connections := connections ?r, bus := bus ?r\<rparr>"
    using c by (simp only: with_new_def) (simp add: ext)
  then show ?thesis by (simp add: with_new_def)
qed

lemma create_loop_sane:
  "sane_geometry g \<Longrightarrow> create_loop qt form g i k s = Inr (with_new qt form g i k s)"
proof (induction k arbitrary: i s)
  case 0
  then show ?case by (auto simp: with_new_def fun_eq_iff intro!: desktop.equality)
next
  case (Suc k)
  then show ?case by (simp add: create_connection_sane with_new_Suc)
qed

lemma desk_ok_with_new:
  assumes "desk_ok s" shows "desk_ok (with_new qt form g i k s)"
proof -
  let ?N = "{next_connector s ..< next_connector s + k}"
  have old: "\<forall>a \<in> dom (connectors s). a < next_connector s" and sub: "dying s \<subseteq> dom (connectors s)"
    using assms by (simp_all add: desk_ok_def)
  have new: "dom (connectors s) \<inter> ?N = {}" using old unfolding disjoint_iff atLeastLessThan_iff by (meson leD)
  have fresh: "\<forall>a \<in> dom (connectors s) \<union> ?N. a < next_connector s + k" using old by (metis Un_iff atLeastLessThan_iff trans_less_add1)
  have "connections s \<union> ?N = dom (connectors s) \<union> ?N - dying s"
    using assms new sub unfolding desk_ok_def by blast
  moreover have "\<forall>b \<in> set (boxes s). box_parent b \<in> dom (connectors s) \<union> ?N" "main_alive s"
    "set (bus s) = dom (connectors s)" "distinct (bus s)"
    using assms by (simp_all add: desk_ok_def)
  ultimately show ?thesis
    using new fresh sub unfolding desk_ok_def with_new_simps dom_with_new
    by (simp del: Un_iff add: le_supI1)
qed

lemma paramsValidator_state: "paramsValidator qt s = (r, s') \<Longrightarrow> \<exists>al. s' = s\<lparr>alerts := al\<rparr>"
  by (auto simp: paramsValidator_def critical_def Let_def split: option.splits if_splits intro: exI [of _ "alerts s"])

lemma createConnections_ok:
  assumes "desk_ok s" and "sane_geometry g"
  shows "\<exists>s'. createConnections qt g s = Inr s' \<and> desk_ok s'"
proof -
  obtain r s1 where v: "paramsValidator qt s = (r, s1)" by (cases "paramsValidator qt s")
  then have "desk_ok s1" using assms(1) paramsValidator_state [OF v] by auto
  then have "desk_ok (with_new qt form g 0 k s1)" for form k by (rule desk_ok_with_new)
  then show ?thesis
    using v assms(2) \<open>desk_ok s1\<close> by (cases r) (simp_all add: createConnections_def create_loop_sane)
qed

text \<open>The positions as plain numbers, and what the two types of connector connect to.\<close>

lemma sint_small: "\<bar>k\<bar> < 2 ^ 31 \<Longrightarrow> sint (word_of_int k :: 32 word) = k"
  by (simp add: sint_sbintrunc' signed_take_bit_int_eq_self)

lemma cascade_small:
  assumes "\<bar>c\<bar> < 2 ^ 30" and "j < 2 ^ 25"
  shows "cascade_x c (of_nat j) = c + 20 * int j" "cascade_y c (of_nat j) = c - 20 * int j"
proof -
  have "\<bar>c + 20 * int j\<bar> < 2 ^ 31" "\<bar>c - 20 * int j\<bar> < 2 ^ 31" using assms by simp_all
  moreover have "word_of_int c + of_nat j * 20 = (word_of_int (c + 20 * int j) :: 32 word)"
    "word_of_int c - of_nat j * 20 = (word_of_int (c - 20 * int j) :: 32 word)"
    by (simp_all add: wi_hom_syms)
  ultimately show "cascade_x c (of_nat j) = c + 20 * int j" "cascade_y c (of_nat j) = c - 20 * int j"
    by (simp_all only: cascade_x_def cascade_y_def sint_small)
qed

lemma low_port: "(scast (w :: 32 word) :: 16 word) = ucast w"
  by (rule bit_word_eqI) (auto simp: bit_simps)

lemma new_connector_target:
  "conn_target (new_connector qt ip (sint (w :: 32 word)) path type) = Some (case type of
     TCP \<Rightarrow> Host ip (ucast w) | WEBSOCKET \<Rightarrow> Url (qs ''ws'') ip (sint w) path)"
  by (cases type) (simp_all add: new_connector_def initTcpSocket_def initWebSocket_def low_port)

section \<open>Runs of the application\<close>

text \<open>
  What can happen in a state: events reach objects that exist, sockets signal what their type has been
  connected to, the event loop deletes what \<^verbatim>\<open>deleteLater\<close> has marked, the walk over the table visits its
  elements, and screens are of a reasonable size.
\<close>

fun arises :: "gui_event \<Rightarrow> desktop \<Rightarrow> bool" where
  "arises (Type_data a t) s \<longleftrightarrow> connectors s a \<noteq> None"
| "arises (Send_clicked a ret err) s \<longleftrightarrow> connectors s a \<noteq> None"
| "arises (Tcp_ready a data ret) s \<longleftrightarrow> map_option conn_type (connectors s a) = Some TCP"
| "arises (Text_received a msg ret) s \<longleftrightarrow> map_option conn_type (connectors s a) = Some WEBSOCKET"
| "arises (Socket_error a err) s \<longleftrightarrow> connectors s a \<noteq> None"
| "arises (Socket_connected a t) s \<longleftrightarrow> connectors s a \<noteq> None"
| "arises (Socket_disconnected a) s \<longleftrightarrow> connectors s a \<noteq> None"
| "arises (Window_close a) s \<longleftrightarrow> connectors s a \<noteq> None"
| "arises (Box_finished i) s \<longleftrightarrow> i < length (boxes s)"
| "arises (Deferred_delete a) s \<longleftrightarrow> a \<in> dying s"
| "arises (Button b g) s \<longleftrightarrow> sane_geometry g"
| "arises (Key_release k g) s \<longleftrightarrow> sane_geometry g"
| "arises (Tray d order) s \<longleftrightarrow> set order = connections s"
| "arises _ s \<longleftrightarrow> True"

inductive desk_run :: "qt \<Rightarrow> desktop \<Rightarrow> bool" for qt where
  desk_start: "desk_run qt (main_window\<lparr>main_shown := True\<rparr>)"
| desk_step: "desk_run qt s \<Longrightarrow> arises e s \<Longrightarrow> handle qt e s = Inr s' \<Longrightarrow> desk_run qt s'"

lemma desk_ok_start: "desk_ok (main_window\<lparr>main_shown := True\<rparr>)"
  by (simp add: main_window_def desk_ok_def)

lemma desk_ok_set_conn:
  "desk_ok s \<Longrightarrow> connectors s a \<noteq> None \<Longrightarrow> \<exists>s'. set_conn a f s = Inr s' \<and> desk_ok s'"
  by auto

lemma desk_ok_socket:
  assumes "desk_ok s" and "connectors s a = Some c"
  shows "\<exists>s'. clickHandler qt a ret err s = Inr s' \<and> desk_ok s'" "\<exists>s'. onError qt a err s = Inr s' \<and> desk_ok s'"
    "\<exists>s'. onConnected qt a t s = Inr s' \<and> desk_ok s'" "\<exists>s'. onDisconnected qt a s = Inr s' \<and> desk_ok s'"
    "\<exists>s'. onMessageReceived qt a data ret s = Inr s' \<and> desk_ok s'"
    "\<exists>s'. onMessageReceivedByWebSocket qt a msg ret s = Inr s' \<and> desk_ok s'"
  using assms by (auto simp: connector_ops)

lemma desk_ok_show:
  "desk_ok s \<Longrightarrow> set order \<subseteq> dom (connectors s) \<Longrightarrow> \<exists>s'. show_connectors order s = Inr s' \<and> desk_ok s'"
proof (induction order arbitrary: s)
  case (Cons a as)
  then obtain c where "connectors s a = Some c" by auto
  moreover from this have "desk_ok (s\<lparr>connectors := (connectors s)(a \<mapsto> c\<lparr>visible := True\<rparr>)\<rparr>)"
    using Cons.prems(1) by simp
  ultimately have "\<exists>s'. show_connectors as (s\<lparr>connectors := (connectors s)(a \<mapsto> c\<lparr>visible := True\<rparr>)\<rparr>) = Inr s' \<and> desk_ok s'"
    using Cons.prems(2) by (intro Cons.IH) auto
  then show ?case using \<open>connectors s a = Some c\<close> by simp
qed simp

lemma desk_ok_delete: "desk_ok s \<Longrightarrow> a \<in> dying s \<Longrightarrow> desk_ok (delete_connector a s)"
  by (auto simp: desk_ok_def delete_connector_def)

lemma desk_ok_finished:
  assumes "desk_ok s" and "i < length (boxes s)"
  shows "\<exists>s'. box_finished i s = Inr s' \<and> desk_ok s'"
proof -
  let ?s = "s\<lparr>boxes := take i (boxes s) @ drop (Suc i) (boxes s)\<rparr>"
  have "desk_ok ?s"
    using assms(1) by (auto intro!: desk_ok_dom [OF assms(1)] dest: in_set_takeD in_set_dropD)
  then show ?thesis
    using assms(2) desk_ok_closed [of ?s "dom (connectors s)"] closeAllErrBox_ok [of ?s]
    by (auto simp: box_finished_def Let_def)
qed

lemma handle_ok:
  assumes "desk_ok s" and "arises e s"
  shows "\<exists>s'. handle qt e s = Inr s' \<and> desk_ok s'"
proof -
  have close: "desk_ok (closed {a} s)" if "connectors s a \<noteq> None" for a
    using desk_ok_closed [OF assms(1), of "{a}"] that by (simp add: domIff)
  have alive: "main_alive s" "dying s \<subseteq> dom (connectors s)" "connections s \<subseteq> dom (connectors s)"
    using assms(1) by (auto simp: desk_ok_def)
  show ?thesis
  proof (cases e)
    case (Button b g)
    then show ?thesis
      using assms createConnections_ok by (cases b) (auto simp: buttonClicked_def main_close_def)
  next
    case (Key_release k g)
    then show ?thesis
      using assms createConnections_ok by (auto simp: keyReleaseEvent_def)
  next
    case (Tray d order)
    then show ?thesis
      using assms alive desk_ok_show [of s order] by (auto simp: trayIconActive_def main_restore_def)
  next
    case (Window_close a)
    then show ?thesis
      using assms alive close [of a] by (auto simp: close_connector_live domIff)
  next
    case (Deferred_delete a)
    then show ?thesis
      using assms desk_ok_delete by auto
  qed (use assms desk_ok_socket desk_ok_finished in \<open>auto simp: changeEvent_def main_close_def main_restore_def\<close>)
qed

lemma desk_run_ok: "desk_run qt s \<Longrightarrow> desk_ok s"
proof (induction rule: desk_run.induct)
  case (desk_step s e s')
  then show ?case using handle_ok [of s e qt] by auto
qed (rule desk_ok_start)

text \<open>A Qt whose conversions work on ASCII text.\<close>

fun decimal :: "nat \<Rightarrow> qstring" where
  "decimal n = (if n < 10 then [48 + of_nat n] else decimal (n div 10) @ [48 + of_nat (n mod 10)])"

declare decimal.simps [simp del]

definition digits_value :: "qstring \<Rightarrow> nat" where
  "digits_value t = foldl (\<lambda>n d. 10 * n + (unat d - 48)) 0 t"

definition sample_qt :: qt where
  "sample_qt = \<lparr>trimmed = (\<lambda>t. rev (dropWhile (\<lambda>w. w = 32) (rev (dropWhile (\<lambda>w. w = 32) t)))),
     to_utf8 = map ucast, from_utf8 = map ucast,
     to_uint = (\<lambda>t. if t \<noteq> [] \<and> list_all (\<lambda>w. 48 \<le> w \<and> w \<le> 57) t \<and> digits_value t < 2 ^ 32
        then Some (of_nat (digits_value t)) else None),
     set_address = (\<lambda>t. count_list t 46 = 3), tr = (\<lambda>t. t), arg1 = (\<lambda>t v. t @ v), args = (\<lambda>t vs. t @ concat vs),
     number = (\<lambda>n. if n < 0 then 45 # decimal (nat (- n)) else decimal (nat n))\<rparr>"

abbreviation sample_desktop :: desktop where
  "sample_desktop \<equiv> main_window\<lparr>main_shown := True\<rparr>"

abbreviation sample_screen :: geometry where
  "sample_screen \<equiv> \<lparr>screen_x = 0, screen_y = 0, screen_width = 1920, screen_height = 1040, conn_width = 400, conn_height = 300\<rparr>"

lemma sample_screen_sane: "sane_geometry sample_screen"
  by (simp add: sane_geometry_def)

lemma sample_values:
  "to_uint sample_qt (trimmed sample_qt (edit_port sample_desktop)) = Some 8192"
  "to_uint sample_qt (trimmed sample_qt (edit_num sample_desktop)) = Some 2"
  "set_address sample_qt (trimmed sample_qt (edit_ip sample_desktop))"
  by (simp_all add: main_window_def sample_qt_def qs_def digits_value_def)

text \<open>The desktop after the OK button, and after an error on the first connection.\<close>

definition sample_form :: MainWindowForm where
  "sample_form = \<lparr>form_ip = qs ''192.168.56.103'', form_port = 8192, form_path = qs ''/chatroom/123'', form_num = 2,
     form_type = WEBSOCKET\<rparr>"

definition sample_open :: desktop where
  "sample_open = (with_new sample_qt sample_form sample_screen 0 2 sample_desktop)\<lparr>minimised := True\<rparr>"

lemma sample_create: "createConnections sample_qt sample_screen sample_desktop = Inr sample_open"
proof -
  have "trimmed sample_qt (edit_ip sample_desktop) = qs ''192.168.56.103''"
    "trimmed sample_qt (edit_path sample_desktop) = qs ''/chatroom/123''"
    by (simp_all add: sample_qt_def main_window_def qs_def)
  moreover have "combo sample_desktop = WEBSOCKET" by (simp add: main_window_def)
  ultimately show ?thesis
    using sample_values sample_screen_sane
    by (simp add: createConnections_def paramsValidator_def create_loop_sane sample_open_def sample_form_def)
qed

lemma sample_open_run: "desk_run sample_qt sample_open"
proof (rule desk_step [OF desk_start])
  show "arises (Button Ok_button sample_screen) sample_desktop" by (simp add: sample_screen_sane)
  show "handle sample_qt (Button Ok_button sample_screen) sample_desktop = Inr sample_open"
    by (simp add: buttonClicked_def sample_create)
qed

lemma sample_open_simps:
  "connections sample_open = {0, 1}" "dom (connectors sample_open) = {0, 1}" "boxes sample_open = []"
  by (auto simp: sample_open_def main_window_def dom_with_new split: if_splits)

lemma sample_error:
  "\<exists>s. desk_run sample_qt s \<and> dom (connectors s) = {0, 1} \<and> 0 < length (boxes s) \<and> box_bus (boxes s ! 0)"
proof -
  have "connectors sample_open 0 \<noteq> None"
    using sample_open_simps(2) by auto
  then obtain c where c: "connectors sample_open 0 = Some c" by blast
  moreover obtain s where s: "onError sample_qt 0 [] sample_open = Inr s"
    using c by (simp add: connector_ops)
  ultimately have "\<exists>c'. connectors s = (connectors sample_open)(0 \<mapsto> c')" "\<exists>b. boxes s = boxes sample_open @ [b] \<and> box_bus b"
    by (auto simp: connector_ops)
  then have "dom (connectors s) = insert 0 (dom (connectors sample_open))" "0 < length (boxes s)" "box_bus (boxes s ! 0)"
    using sample_open_simps(3) by auto
  then have "dom (connectors s) = {0, 1}" "0 < length (boxes s)" "box_bus (boxes s ! 0)"
    by (simp_all add: sample_open_simps(2))
  moreover have "desk_run sample_qt s"
    using desk_step [OF sample_open_run, of "Socket_error 0 []" s] s c by simp
  ultimately show ?thesis by blast
qed

section \<open>What the windows do\<close>



text \<open>
  C22: with a form that is in order the main window opens exactly the number of connectors that was asked
  for, each on the host, the port (its low 16 bits for a TCP socket) and the path of the form, in a cascade
  that moves 20 pixels to the right and up from the centre of the screen; the other connectors stay as they
  were, and the main window is minimised.
\<close>

theorem connections_created:
  assumes "desk_run qt s" and "sane_geometry g" and "set_address qt (trimmed qt (edit_ip s))"
    and "to_uint qt (trimmed qt (edit_port s)) = Some port" and "to_uint qt (trimmed qt (edit_num s)) = Some num"
    and "unat num < 2 ^ 25"
  shows "\<exists>s'. createConnections qt g s = Inr s' \<and> minimised s'
    \<and> connections s' = connections s \<union> {next_connector s ..< next_connector s + unat num}
    \<and> (\<forall>a < next_connector s. connectors s' a = connectors s a)
    \<and> (\<forall>j < unat num. \<exists>c. connectors s' (next_connector s + j) = Some c \<and> visible c
        \<and> conn_target c = Some (case combo s of
             TCP \<Rightarrow> Host (trimmed qt (edit_ip s)) (ucast port)
           | WEBSOCKET \<Rightarrow> Url (qs ''ws'') (trimmed qt (edit_ip s)) (sint port) (trimmed qt (edit_path s)))
        \<and> place c = (mid (screen_x g) (screen_width g) (conn_width g) + 20 * int j,
                     mid (screen_y g) (screen_height g) (conn_height g) - 20 * int j))"
proof -
  let ?form = "\<lparr>form_ip = trimmed qt (edit_ip s), form_port = port, form_path = trimmed qt (edit_path s),
    form_num = num, form_type = combo s\<rparr>"
  let ?s = "with_new qt ?form g 0 (unat num) s"
  have "createConnections qt g s = Inr (?s\<lparr>minimised := True\<rparr>)"
    using assms by (simp add: createConnections_def paramsValidator_def create_loop_sane)
  moreover have "connectors ?s (next_connector s + j) = Some (opened qt ?form g (of_nat j))" if "j < unat num" for j
    using that by (simp add: with_new_connectors)
  moreover have "place (opened qt ?form g (of_nat j)) = (mid (screen_x g) (screen_width g) (conn_width g) + 20 * int j,
      mid (screen_y g) (screen_height g) (conn_height g) - 20 * int j)" if "j < unat num" for j
  proof -
    have "\<bar>mid (screen_x g) (screen_width g) (conn_width g)\<bar> < 2 ^ 30" "\<bar>mid (screen_y g) (screen_height g) (conn_height g)\<bar> < 2 ^ 30"
      using assms(2) by (simp_all only: sane_geometry_def centre_sane(2))
    then show ?thesis using that assms(6) by (simp add: opened_def cascade_small)
  qed
  moreover have "visible (opened qt ?form g i)" "conn_target (opened qt ?form g i) = Some (case combo s of
      TCP \<Rightarrow> Host (trimmed qt (edit_ip s)) (ucast port)
    | WEBSOCKET \<Rightarrow> Url (qs ''ws'') (trimmed qt (edit_ip s)) (sint port) (trimmed qt (edit_path s)))" for i
    by (simp_all add: opened_def new_connector_target)
  ultimately show ?thesis by (simp add: with_new_connectors)
qed

theorem connections_created_witness:
  "\<exists>s'. createConnections sample_qt sample_screen sample_desktop = Inr s' \<and> connections s' = {0 ..< 2}"
  using connections_created [OF desk_start sample_screen_sane sample_values(3,1,2)] by (auto simp: main_window_def)

text \<open>
  A form that is not in order opens nothing and is answered by one message, about the port before the
  number of windows before the address. Where a number was expected, the message names 0 and not what was typed.
\<close>

theorem form_refused:
  assumes "to_uint qt (trimmed qt (edit_port s)) = None \<or> to_uint qt (trimmed qt (edit_num s)) = None
    \<or> \<not> set_address qt (trimmed qt (edit_ip s))"
  shows "createConnections qt g s = Inr (s\<lparr>alerts := alerts s @ [(tr qt WRONG,
    if to_uint qt (trimmed qt (edit_port s)) = None then arg1 qt (tr qt BAD_PORT) (number qt 0)
    else if to_uint qt (trimmed qt (edit_num s)) = None then arg1 qt (tr qt BAD_NUM) (number qt 0)
    else arg1 qt (tr qt BAD_IP) (trimmed qt (edit_ip s)))]\<rparr>)"
  using assms by (auto simp: createConnections_def paramsValidator_def critical_def Let_def split: option.splits)

theorem form_refused_witness:
  "createConnections sample_qt sample_screen (sample_desktop\<lparr>edit_num := qs ''x''\<rparr>)
    = Inr (sample_desktop\<lparr>edit_num := qs ''x'', alerts := [(WRONG, BAD_NUM @ qs ''0'')]\<rparr>)"
proof -
  let ?s = "sample_desktop\<lparr>edit_num := qs ''x''\<rparr>"
  have "to_uint sample_qt (trimmed sample_qt (edit_num ?s)) = None" by code_simp
  moreover have "number sample_qt 0 = qs ''0''" by code_simp
  ultimately show ?thesis
    using form_refused [of sample_qt ?s sample_screen] sample_values(1) by (simp add: sample_qt_def main_window_def)
qed

text \<open>
  C39: whoever dismisses the box that reports an error or the end of one connection closes the windows of
  all of them, connected or not.
\<close>

theorem error_box_closes_all:
  assumes "desk_run qt s" and "i < length (boxes s)" and "box_bus (boxes s ! i)"
  shows "\<exists>s'. handle qt (Box_finished i) s = Inr s' \<and> connections s' = {} \<and> dying s' = dom (connectors s')
    \<and> dom (connectors s') = dom (connectors s) \<and> (\<forall>c \<in> ran (connectors s'). \<not> visible c)"
proof -
  let ?s = "s\<lparr>boxes := take i (boxes s) @ drop (Suc i) (boxes s)\<rparr>"
  have "desk_ok s" using assms(1) by (rule desk_run_ok)
  then have ok: "desk_ok ?s" by (auto intro!: desk_ok_dom [of s] dest: in_set_takeD in_set_dropD)
  then have "connections ?s \<subseteq> dom (connectors ?s)" "dying ?s \<subseteq> dom (connectors ?s)" by (auto simp: desk_ok_def)
  moreover have "\<forall>c \<in> ran (connectors (closed (dom (connectors ?s)) ?s)). \<not> visible c"
    by (auto simp: ran_def closed_def split: if_splits)
  ultimately show ?thesis
    using assms(2,3) closeAllErrBox_ok [OF ok] by (auto simp: box_finished_def Let_def)
qed

theorem error_box_closes_all_witness:
  "\<exists>s s'. desk_run sample_qt s \<and> dom (connectors s) = {0, 1} \<and> handle sample_qt (Box_finished 0) s = Inr s'
    \<and> connections s' = {} \<and> dying s' = {0, 1}"
proof -
  obtain s where "desk_run sample_qt s" "dom (connectors s) = {0, 1}" "0 < length (boxes s)" "box_bus (boxes s ! 0)"
    using sample_error by blast
  then show ?thesis using error_box_closes_all [of sample_qt s 0] by metis
qed

text \<open>
  C40: the destructor of the main window walks the table while \<^verbatim>\<open>close\<close> takes the connectors out of it: with
  a connector still open, the iterator it advances is not valid any more.
\<close>

theorem main_window_destroyed:
  assumes "desk_run qt s" and "set order = connections s"
  shows "main_window_destroy order s
    = (if connections s = {} then Inr (s\<lparr>main_alive := False, main_shown := False\<rparr>) else Inl Bad_iterator)"
proof (cases order)
  case (Cons a as)
  have "desk_ok s" using assms(1) by (rule desk_run_ok)
  moreover have "a \<in> connections s" using Cons assms(2) by auto
  ultimately show ?thesis
    using Cons by (auto simp: main_window_destroy_def desk_ok_def close_connector_live)
qed (use assms in \<open>auto simp: main_window_destroy_def\<close>)

theorem main_window_destroyed_witness: "main_window_destroy [0, 1] sample_open = Inl Bad_iterator"
  using main_window_destroyed [OF sample_open_run, of "[0, 1]"] by (simp add: sample_open_simps)

end
