(* ===== verification/Heartbeat_Loop.thy ===== *)
theory Heartbeat_Loop
  imports Echo_Session Qt_Correct
begin

declare modify_live [simp del] modify_put [simp]

text \<open>
  The two programs of the repository on one connection: the echo server and a connector of type websocket.
  The connector answers the text \<^verbatim>\<open>HEARTBEAT\<close> with the same text, the server echoes every text.
\<close>

section \<open>Rounds\<close>

text \<open>A text that Qt has framed, in any way the protocol allows, arrives at the server on descriptor \<open>fd\<close>.\<close>

definition carries :: "event \<Rightarrow> int \<Rightarrow> bytes \<Rightarrow> bool" where
  "carries e fd xs \<longleftrightarrow> ev_fd e = fd \<and> (\<exists>fs op post. reading e (message_bytes op fs @ post) \<and> fs \<noteq> []
     \<and> (\<forall>fr \<in> set fs. good_frame fr) \<and> (op = TEXT_FRAME \<or> op = BINARY_FRAME) \<and> text_ok op fs []
     \<and> length (message_bytes op fs @ post) < 2 ^ 31 \<and> concat (map snd fs) = xs)"

definition beat :: "int \<Rightarrow> event \<times> event \<times> int \<Rightarrow> bool" where
  "beat fd r = (case r of (e1, e2, ret) \<Rightarrow> carries e1 fd HEARTBEAT \<and> ev_fd e2 = fd
     \<and> writing e2 (length (rfc_frame True TEXT_FRAME None HEARTBEAT)))"

text \<open>
  A round: the server reads the connector's text and writes; when what it has written is one frame with the
  text \<^verbatim>\<open>HEARTBEAT\<close>, the socket of connector \<open>k\<close> reports that text; \<open>ret\<close> is what it returns for the answer.
\<close>

fun rounds :: "crypto \<Rightarrow> qt \<Rightarrow> int \<Rightarrow> ptr \<Rightarrow> (event \<times> event \<times> int) list \<Rightarrow> main_process \<times> desktop
    \<Rightarrow> (main_process \<times> desktop) res" where
  "rounds cr qt fd k [] (s, d) = Inr (s, d)"
| "rounds cr qt fd k ((e1, e2, ret) # rs) (s, d) =
     bnd (handle_events (main_hooks cr) [e1, e2] s) (\<lambda>s'.
     bnd (if wire s' fd = wire s fd @ rfc_frame True TEXT_FRAME None HEARTBEAT
          then handle qt (Text_received k (from_utf8 qt HEARTBEAT) ret) d else Inr d) (\<lambda>d'.
     rounds cr qt fd k rs (s', d')))"

definition idle :: "int \<Rightarrow> main_process \<Rightarrow> bool" where
  "idle fd s \<longleftrightarrow> fd \<noteq> listen_fd s \<and> (\<exists>a c. clients s fd = Some a \<and> heap s a = Some c \<and> is_connected c = CONNECTED
     \<and> decode_buffer c = [] \<and> send_buffer_queue c = [])"

lemma server_round:
  assumes "main_run cr s" and "idle fd s" and "carries e1 fd xs" and "ev_fd e2 = fd"
    and "writing e2 (length (rfc_frame True TEXT_FRAME None xs))"
  shows "\<exists>s'. handle_events (main_hooks cr) [e1, e2] s = Inr s' \<and> main_run cr s' \<and> idle fd s'
    \<and> wire s' fd = wire s fd @ rfc_frame True TEXT_FRAME None xs"
proof -
  from assms(2) obtain a c where c: "fd \<noteq> listen_fd s" "clients s fd = Some a" "heap s a = Some c" "is_connected c = CONNECTED"
    "decode_buffer c = []" "send_buffer_queue c = []" by (auto simp: idle_def)
  from assms(3) obtain fs op post where m: "ev_fd e1 = fd" "reading e1 (message_bytes op fs @ post)" "fs \<noteq> []"
    "\<forall>fr \<in> set fs. good_frame fr" "op = TEXT_FRAME \<or> op = BINARY_FRAME" "text_ok op fs []"
    "length (message_bytes op fs @ post) < 2 ^ 31" "concat (map snd fs) = xs"
    unfolding carries_def by blast
  have "\<exists>s' c'. handle_events (main_hooks cr) [e1, e2] s = Inr s'
    \<and> wire s' = (wire s)(ev_fd e1 := wire s (ev_fd e1) @ rfc_frame True TEXT_FRAME None (concat (map snd fs)))
    \<and> heap s' = (heap s)(a \<mapsto> c') \<and> is_connected c' = CONNECTED \<and> decode_buffer c' = [] \<and> send_buffer_queue c' = []
    \<and> clients s' = clients s \<and> main_run cr s' \<and> listen_fd s' = listen_fd s"
    by (rule echo_round [OF assms(1) m(2) _ _ c(3-6) m(3,4,5) refl m(6,7)]) (use c m assms in simp_all)
  then show ?thesis
    using c m(1,8) unfolding idle_def by fastforce
qed

lemma connector_round:
  assumes "connectors d k = Some v"
  shows "handle qt (Text_received k (from_utf8 qt HEARTBEAT) ret) d = Inr (d\<lparr>connectors := (connectors d)(k \<mapsto>
    v\<lparr>conn_sent := conn_sent v @ [(Text (from_utf8 qt HEARTBEAT), ret)]\<rparr>)\<rparr>)"
  using assms by (simp add: onMessageReceivedByWebSocket_def socket_write_def)


lemma sample_beat:
  "beat 7 (sample_reading [message_bytes TEXT_FRAME [(Some [1, 2, 3, 4], HEARTBEAT)]], sample_writing 11, 9)"
proof -
  let ?fs = "[(Some [1, 2, 3, 4 :: byte], HEARTBEAT)]"
  have r: "reading (sample_reading [message_bytes TEXT_FRAME ?fs]) (message_bytes TEXT_FRAME ?fs @ [])"
    using sample_events(2) [of "[message_bytes TEXT_FRAME ?fs]"] by (simp del: sample_events message_bytes.simps)
  have "length (rfc_frame True TEXT_FRAME None HEARTBEAT) = 11"
    by (simp add: rfc_frame_def rfc_len_def rfc_payload_def HEARTBEAT_def)
  then have w: "writing (sample_writing 11) (length (rfc_frame True TEXT_FRAME None HEARTBEAT))"
    using sample_events(4) [of 11] by simp
  have good: "\<forall>fr \<in> set ?fs. good_frame fr"
    by (simp add: good_frame_def plain_len_def rfc_len_def good_key_def HEARTBEAT_def)
  have len: "length (message_bytes TEXT_FRAME ?fs @ []) < 2 ^ 31"
    by (simp add: rfc_frame_def rfc_len_def rfc_payload_def HEARTBEAT_def)
  have "validate_utf8 HEARTBEAT" by code_simp
  then have utf: "text_ok TEXT_FRAME ?fs []" by (simp add: text_ok_def)
  have "carries (sample_reading [message_bytes TEXT_FRAME ?fs]) 7 HEARTBEAT"
    unfolding carries_def using r good len utf
    by (intro conjI exI [of _ ?fs] exI [of _ TEXT_FRAME] exI [of _ "[]"]) (simp_all del: message_bytes.simps)
  with w show ?thesis by (simp add: beat_def del: message_bytes.simps)
qed


end
