(* ===== verification/Single_Application.thy ===== *)
theory Single_Application
  imports Ws_Prelude
begin

text \<open>
  \<^verbatim>\<open>src/tcp_connector/include/SingleApplication.h\<close> and \<^verbatim>\<open>src/tcp_connector/src/main.cpp\<close>: the check that the
  program runs only once, by a lock file or by a local socket. Processes are numbers; the machine keeps who
  listens under the name of the program, whether the name is taken, and who holds the lock file.

  What the code relies on is what the documentation of Qt says of \<^verbatim>\<open>QLocalServer\<close>, \<^verbatim>\<open>QLocalSocket\<close> and
  \<^verbatim>\<open>QLockFile\<close>: a connection succeeds, within the 100 ms the code waits, when somebody listens; on Unix \<^verbatim>\<open>listen\<close> fails with
  \<^verbatim>\<open>AddressInUseError\<close> while the name is taken, even by a server that has crashed, and \<^verbatim>\<open>removeServer\<close> frees
  it; on Windows several servers can listen under one name (\<open>shared\<close>); \<^verbatim>\<open>tryLock\<close> succeeds when nobody
  alive has the lock.
\<close>

section \<open>The machine and its processes\<close>

datatype single_mode = BY_LOCK_FILE | BY_LOCAL_SOCKET

text \<open>How far a process is: between the two halves of \<^verbatim>\<open>initLocalServer\<close>, constructed, or in its event loop.\<close>

datatype phase = Unconnected | Constructed | Showing

record app =
  isRunning :: bool
  phase :: phase
  has_server :: bool
  has_lock :: bool
  has_widget :: bool

record machine =
  apps :: "nat \<rightharpoonup> app"
  listeners :: "nat list"
  name_taken :: bool
  lock_holder :: "nat option"
  complaints :: nat
  raised :: "nat list"

definition new_app :: app where
  "new_app = \<lparr>isRunning = False, phase = Unconnected, has_server = False, has_lock = False, has_widget = False\<rparr>"

definition set_app :: "nat \<Rightarrow> (app \<Rightarrow> app) \<Rightarrow> machine \<Rightarrow> machine" where
  "set_app p f s = s\<lparr>apps := (apps s)(p := map_option f (apps s p))\<rparr>"

section \<open>Qt\<close>

definition sys_listen :: "bool \<Rightarrow> nat \<Rightarrow> machine \<Rightarrow> bool \<times> machine" where
  "sys_listen shared p s =
     (if name_taken s \<and> \<not> shared then (False, s)
      else (True, s\<lparr>listeners := p # listeners s, name_taken := True\<rparr>))"

definition removeServer :: "machine \<Rightarrow> machine" where
  "removeServer s = s\<lparr>listeners := [], name_taken := False\<rparr>"

text \<open>A server that is closed, or whose process has ended, does not listen any more; closing frees the name.\<close>

definition stop_listening :: "nat \<Rightarrow> machine \<Rightarrow> machine" where
  "stop_listening p s = s\<lparr>listeners := removeAll p (listeners s)\<rparr>"

definition close_server :: "nat \<Rightarrow> machine \<Rightarrow> machine" where
  "close_server p s =
     (if p \<in> set (listeners s) then (stop_listening p s)\<lparr>name_taken := removeAll p (listeners s) \<noteq> []\<rparr> else s)"

section \<open>The constructor\<close>

text \<open>\<open>denied\<close>: \<^verbatim>\<open>listen\<close> fails, but not because the name is taken.\<close>

definition newLocalServer :: "bool \<Rightarrow> bool \<Rightarrow> nat \<Rightarrow> machine \<Rightarrow> machine" where
  "newLocalServer shared denied p s =
     (let s1 = set_app p (\<lambda>a. a\<lparr>has_server := True\<rparr>) s in
      if denied then s1\<lparr>complaints := complaints s1 + 1\<rparr>
      else (case sys_listen shared p s1 of
         (True, s2) \<Rightarrow> s2
       | (False, s2) \<Rightarrow> snd (sys_listen shared p (removeServer s2))))"

text \<open>The two halves of \<^verbatim>\<open>initLocalServer\<close>: the attempt to connect, and the server when it has failed.\<close>

definition try_connect :: "nat \<Rightarrow> machine \<Rightarrow> machine" where
  "try_connect p s =
     (if listeners s \<noteq> [] then set_app p (\<lambda>a. a\<lparr>isRunning := True, phase := Constructed\<rparr>) s else s)"

definition serve :: "bool \<Rightarrow> bool \<Rightarrow> nat \<Rightarrow> machine \<Rightarrow> machine" where
  "serve shared denied p s = set_app p (\<lambda>a. a\<lparr>phase := Constructed\<rparr>) (newLocalServer shared denied p s)"

definition initLocalServer :: "bool \<Rightarrow> bool \<Rightarrow> nat \<Rightarrow> machine \<Rightarrow> machine" where
  "initLocalServer shared denied p s =
     (let s1 = try_connect p s in if listeners s \<noteq> [] then s1 else serve shared denied p s1)"

definition initLockFile :: "nat \<Rightarrow> machine \<Rightarrow> machine" where
  "initLockFile p s =
     (if lock_holder s = None
      then (set_app p (\<lambda>a. a\<lparr>isRunning := False, has_lock := True, phase := Constructed\<rparr>) s)\<lparr>lock_holder := Some p\<rparr>
      else set_app p (\<lambda>a. a\<lparr>isRunning := True, phase := Constructed\<rparr>) s)"

definition single_application :: "single_mode \<Rightarrow> bool \<Rightarrow> bool \<Rightarrow> nat \<Rightarrow> machine \<Rightarrow> machine" where
  "single_application mode shared denied p s =
     (let s1 = s\<lparr>apps := (apps s)(p \<mapsto> new_app)\<rparr> in
      case mode of BY_LOCAL_SOCKET \<Rightarrow> initLocalServer shared denied p s1 | BY_LOCK_FILE \<Rightarrow> initLockFile p s1)"

section \<open>After the constructor\<close>

text \<open>\<^verbatim>\<open>main\<close> up to its event loop: the exit code, or \<open>None\<close> when it goes on to \<^verbatim>\<open>setWidget\<close>.\<close>

definition main_exit_code :: "bool \<Rightarrow> app \<Rightarrow> int option" where
  "main_exit_code translated a = (if \<not> translated then Some 1 else if isRunning a then Some 0 else None)"

definition setWidget :: "nat \<Rightarrow> machine \<Rightarrow> machine" where
  "setWidget p s = set_app p (\<lambda>a. if isRunning a then a\<lparr>has_widget := True\<rparr> else a\<lparr>has_widget := True, phase := Showing\<rparr>) s"

text \<open>A connection of another instance, if it is still pending: the window of this one is raised, if it has one.\<close>

definition newLocalConnect :: "bool \<Rightarrow> nat \<Rightarrow> machine \<Rightarrow> machine" where
  "newLocalConnect pending p s =
     (case apps s p of
        Some a \<Rightarrow> if pending \<and> has_widget a then s\<lparr>raised := raised s @ [p]\<rparr> else s
      | None \<Rightarrow> s)"

text \<open>The destructor, and the end of a process without it.\<close>

definition single_application_destroy :: "single_mode \<Rightarrow> nat \<Rightarrow> machine \<Rightarrow> machine" where
  "single_application_destroy mode p s =
     (case apps s p of
        None \<Rightarrow> s
      | Some a \<Rightarrow>
          let s1 = (case mode of
               BY_LOCAL_SOCKET \<Rightarrow> if has_server a then close_server p s else s
             | BY_LOCK_FILE \<Rightarrow> if has_lock a then s\<lparr>lock_holder := None\<rparr> else s)
          in s1\<lparr>apps := (apps s1)(p := None)\<rparr>)"

definition crash :: "nat \<Rightarrow> machine \<Rightarrow> machine" where
  "crash p s = (stop_listening p s)
     \<lparr>apps := (apps s)(p := None), lock_holder := (if lock_holder s = Some p then None else lock_holder s)\<rparr>"

section \<open>Runs of several processes\<close>

text \<open>
  The circumstances of a run: the mode, the platform, whether other failures of \<^verbatim>\<open>listen\<close> occur, and
  whether a process can run between the two halves of another's \<^verbatim>\<open>initLocalServer\<close>.
\<close>

record circumstances =
  mode :: single_mode
  shared_names :: bool
  listen_denied :: bool
  interleaved :: bool

definition machine_start :: machine where
  "machine_start = \<lparr>apps = Map.empty, listeners = [], name_taken = False, lock_holder = None, complaints = 0, raised = []\<rparr>"

inductive app_run :: "circumstances \<Rightarrow> machine \<Rightarrow> bool" for w where
  app_start: "app_run w machine_start"
| app_launch: "app_run w s \<Longrightarrow> apps s p = None \<Longrightarrow> denied \<longrightarrow> listen_denied w
    \<Longrightarrow> app_run w (single_application (mode w) (shared_names w) denied p s)"
| app_connect: "app_run w s \<Longrightarrow> apps s p = None \<Longrightarrow> interleaved w \<Longrightarrow> mode w = BY_LOCAL_SOCKET
    \<Longrightarrow> app_run w (try_connect p (s\<lparr>apps := (apps s)(p \<mapsto> new_app)\<rparr>))"
| app_serve: "app_run w s \<Longrightarrow> apps s p = Some a \<Longrightarrow> phase a = Unconnected \<Longrightarrow> denied \<longrightarrow> listen_denied w
    \<Longrightarrow> app_run w (serve (shared_names w) denied p s)"
| app_show: "app_run w s \<Longrightarrow> apps s p = Some a \<Longrightarrow> phase a = Constructed \<Longrightarrow> main_exit_code True a = None
    \<Longrightarrow> app_run w (setWidget p s)"
| app_raise: "app_run w s \<Longrightarrow> app_run w (newLocalConnect pending p s)"
| app_exit: "app_run w s \<Longrightarrow> apps s p = Some a \<Longrightarrow> phase a \<noteq> Unconnected
    \<Longrightarrow> app_run w (single_application_destroy (mode w) p s)"
| app_crash: "app_run w s \<Longrightarrow> app_run w (crash p s)"

definition showing :: "nat \<Rightarrow> machine \<Rightarrow> bool" where
  "showing p s \<longleftrightarrow> (\<exists>a. apps s p = Some a \<and> phase a = Showing)"

section \<open>One instance\<close>

lemmas single_defs = single_application_def initLocalServer_def initLockFile_def serve_def try_connect_def
  newLocalServer_def sys_listen_def removeServer_def set_app_def new_app_def Let_def
  setWidget_def newLocalConnect_def single_application_destroy_def close_server_def stop_listening_def crash_def main_exit_code_def

text \<open>
  Whoever found nobody holds what the others look for: it is the only listener, or has the lock.
\<close>

definition owns :: "circumstances \<Rightarrow> machine \<Rightarrow> nat \<Rightarrow> bool" where
  "owns w s p = (case mode w of BY_LOCAL_SOCKET \<Rightarrow> listeners s = [p] | BY_LOCK_FILE \<Rightarrow> lock_holder s = Some p)"

definition settled :: "app \<Rightarrow> bool" where
  "settled a \<longleftrightarrow> phase a \<noteq> Unconnected \<and> (isRunning a \<longrightarrow> phase a = Constructed \<and> \<not> has_lock a)"

definition one_owner :: "circumstances \<Rightarrow> machine \<Rightarrow> bool" where
  "one_owner w s \<longleftrightarrow> (\<forall>p a. apps s p = Some a \<longrightarrow> settled a \<and> (isRunning a \<or> owns w s p))"

lemma one_ownerI: "(\<And>p a. apps s p = Some a \<Longrightarrow> settled a \<and> (isRunning a \<or> owns w s p)) \<Longrightarrow> one_owner w s"
  by (simp add: one_owner_def)

lemma one_ownerD:
  "one_owner w s \<Longrightarrow> apps s p = Some a \<Longrightarrow> settled a \<and> (isRunning a \<or> owns w s p)"
  by (simp add: one_owner_def)

lemma owns_unique: "owns w s p \<Longrightarrow> owns w s q \<Longrightarrow> p = q"
  by (cases "mode w") (auto simp: owns_def)

lemma one_owner_launch:
  assumes "one_owner w s" and "apps s p = None" and "mode w = BY_LOCK_FILE \<or> \<not> denied"
  shows "one_owner w (single_application (mode w) (shared_names w) denied p s)"
proof (rule one_ownerI)
  fix q b assume q: "apps (single_application (mode w) (shared_names w) denied p s) q = Some b"
  show "settled b \<and> (isRunning b \<or> owns w (single_application (mode w) (shared_names w) denied p s) q)"
  proof (cases "q = p")
    case True
    then show ?thesis
      using q assms(3) by (cases "mode w") (auto simp: settled_def owns_def single_defs split: if_splits)
  next
    case False
    then have "apps s q = Some b"
      using q by (cases "mode w") (auto simp: single_defs split: if_splits)
    then show ?thesis
      using one_ownerD [OF assms(1)] by (cases "mode w") (fastforce simp: owns_def single_defs)+
  qed
qed

lemma one_owner_exit:
  assumes "one_owner w s" and "apps s p = Some a"
  shows "one_owner w (single_application_destroy (mode w) p s)"
proof (rule one_ownerI)
  fix q b assume "apps (single_application_destroy (mode w) p s) q = Some b"
  then have q: "apps s q = Some b" "q \<noteq> p"
    using assms(2) by (cases "mode w"; auto simp: single_defs split: if_splits)+
  note a = one_ownerD [OF assms] and b = one_ownerD [OF assms(1) q(1)]
  have "owns w (single_application_destroy (mode w) p s) q" if "owns w s q"
  proof -
    have "\<not> owns w s p" using that q(2) owns_unique by blast
    then have "\<not> has_lock a" using a by (auto simp: settled_def)
    then show ?thesis
      using that q(2) assms(2) by (cases "mode w") (auto simp: owns_def single_defs)
  qed
  with b show "settled b \<and> (isRunning b \<or> owns w (single_application_destroy (mode w) p s) q)" by blast
qed

lemma one_owner_crash:
  assumes "one_owner w s" shows "one_owner w (crash p s)"
proof (rule one_ownerI)
  fix q b assume "apps (crash p s) q = Some b"
  then have q: "apps s q = Some b" "q \<noteq> p" by (auto simp: single_defs split: if_splits)
  moreover from q(2) have "owns w (crash p s) q" if "owns w s q"
    using that by (cases "mode w") (auto simp: owns_def single_defs)
  ultimately show "settled b \<and> (isRunning b \<or> owns w (crash p s) q)"
    using one_ownerD [OF assms q(1)] by blast
qed

lemma one_owner_show:
  assumes "one_owner w s" and "apps s p = Some a" and "\<not> isRunning a"
  shows "one_owner w (setWidget p s)"
proof (rule one_ownerI)
  fix q b assume "apps (setWidget p s) q = Some b"
  moreover have "owns w (setWidget p s) = owns w s"
    by (simp add: fun_eq_iff owns_def setWidget_def set_app_def split: single_mode.split)
  ultimately show "settled b \<and> (isRunning b \<or> owns w (setWidget p s) q)"
    using assms one_ownerD [OF assms(1)] by (fastforce simp: setWidget_def set_app_def settled_def split: if_splits)
qed

lemma one_owner_raise: "one_owner w (newLocalConnect pending p s) = one_owner w s"
proof -
  have "apps (newLocalConnect pending p s) = apps s" "owns w (newLocalConnect pending p s) = owns w s"
    by (simp_all add: fun_eq_iff owns_def newLocalConnect_def split: single_mode.split option.split)
  then show ?thesis by (simp add: one_owner_def)
qed

lemma app_run_one_owner:
  assumes "app_run w s" and "mode w = BY_LOCK_FILE \<or> \<not> listen_denied w \<and> \<not> interleaved w"
  shows "one_owner w s"
  using assms
proof (induction rule: app_run.induct)
  case app_start
  then show ?case by (simp add: one_owner_def machine_start_def)
next
  case (app_launch s p denied)
  then show ?case by (auto intro: one_owner_launch)
next
  case (app_connect s p)
  then show ?case by auto
next
  case (app_serve s p a denied)
  then show ?case by (auto dest: one_ownerD simp: settled_def)
next
  case (app_show s p a)
  then show ?case by (auto intro: one_owner_show simp: main_exit_code_def split: if_splits)
next
  case (app_raise s p)
  then show ?case by (simp add: one_owner_raise)
next
  case (app_exit s p a)
  then show ?case by (auto intro: one_owner_exit)
next
  case (app_crash s p)
  then show ?case by (auto intro: one_owner_crash)
qed


text \<open>
  Two processes that start at the same time both show the main window: neither can connect, the first
  listens, and the second listens as well, on Unix after it has removed the name of the first.
\<close>

theorem two_instances:
  "\<exists>s. app_run \<lparr>mode = BY_LOCAL_SOCKET, shared_names = b, listen_denied = False, interleaved = True\<rparr> s
    \<and> showing 1 s \<and> showing 2 s"
proof -
  let ?w = "\<lparr>mode = BY_LOCAL_SOCKET, shared_names = b, listen_denied = False, interleaved = True\<rparr>"
  let ?new = "\<lambda>p s. try_connect p (s\<lparr>apps := (apps s)(p \<mapsto> new_app)\<rparr>)"
  let ?s2 = "?new 2 (?new 1 machine_start)" and ?serve = "serve b False"
  let ?s4 = "?serve 2 (?serve 1 ?s2)" and ?show = "\<lambda>p. setWidget p"
  have "app_run ?w (?new 1 machine_start)"
    by (rule app_connect [OF app_start]) (simp_all add: machine_start_def)
  then have "app_run ?w ?s2"
    by (rule app_connect) (simp_all add: machine_start_def single_defs)
  then have "app_run ?w (?serve 1 ?s2)"
    using app_serve [of ?w ?s2 1 new_app False] by (simp add: machine_start_def single_defs)
  then have "app_run ?w ?s4"
    using app_serve [of ?w "?serve 1 ?s2" 2 new_app False] by (simp add: machine_start_def single_defs)
  moreover have "apps ?s4 = [1 \<mapsto> new_app\<lparr>phase := Constructed, has_server := True\<rparr>, 2 \<mapsto> new_app\<lparr>phase := Constructed, has_server := True\<rparr>]"
    by (simp add: machine_start_def single_defs fun_upd_twist)
  ultimately have "app_run ?w (setWidget 1 ?s4)"
    using app_show [of ?w ?s4 1] by (simp add: main_exit_code_def new_app_def)
  moreover have s5: "apps (setWidget 1 ?s4) 2 = Some (new_app\<lparr>phase := Constructed, has_server := True\<rparr>)"
    by (simp add: machine_start_def single_defs)
  ultimately have "app_run ?w (setWidget 2 (setWidget 1 ?s4))"
    using app_show [of ?w "setWidget 1 ?s4" 2] by (simp add: main_exit_code_def new_app_def)
  moreover have "showing 1 (setWidget 2 (setWidget 1 ?s4))" "showing 2 (setWidget 2 (setWidget 1 ?s4))"
    by (simp_all add: showing_def machine_start_def single_defs)
  ultimately show ?thesis by blast
qed


end
