(* ===== verification/Tcp_Partial.thy ===== *)
theory Tcp_Partial
  imports Tcp_Correct "HOL-Library.Sublist"
begin

text \<open>
  What a write event puts on the wire when the kernel's buffer may be full at any point: every buffer of the
  queue is cut short where \<^verbatim>\<open>send\<close> reports \<^verbatim>\<open>EAGAIN\<close>, and nothing is kept for later.
\<close>

section \<open>Any split of the buffers\<close>

definition unfailing :: "send_result list \<Rightarrow> bool" where
  "unfailing rs \<longleftrightarrow> Send_failed \<notin> set rs \<and> Sent 0 \<notin> set rs"

lemma unfailing_simps [simp]:
  "unfailing []" "unfailing (r # rs) \<longleftrightarrow> r \<noteq> Send_failed \<and> r \<noteq> Sent 0 \<and> unfailing rs"
  "unfailing (rs @ rs') \<longleftrightarrow> unfailing rs \<and> unfailing rs'"
  by (auto simp: unfailing_def)

text \<open>The buffers of which only a part was taken.\<close>

definition cut_short :: "bytes list \<Rightarrow> bytes list \<Rightarrow> nat" where
  "cut_short parts q = length (filter (\<lambda>(p, buf). p \<noteq> buf) (zip parts q))"

lemma cut_short_simps [simp]:
  "cut_short [] [] = 0" "cut_short (p # ps) (buf # q) = (if p = buf then 0 else 1) + cut_short ps q"
  by (simp_all add: cut_short_def)

lemma cut_short_0: "list_all2 prefix parts q \<Longrightarrow> cut_short parts q = 0 \<Longrightarrow> parts = q"
  by (induction rule: list_all2_induct) (auto split: if_splits)

text \<open>What the kernel takes of a buffer, and of a queue of buffers, and the results it has not used.\<close>

fun swallow :: "send_result list \<Rightarrow> bytes \<Rightarrow> bytes \<times> send_result list" where
  "swallow (Sent n # rs) buf =
     (if length buf \<le> n then (buf, rs) else (case swallow rs (drop n buf) of (p, rs') \<Rightarrow> (take n buf @ p, rs')))"
| "swallow (r # rs) buf = ([], rs)"
| "swallow [] buf = ([], [])"

fun swallows :: "send_result list \<Rightarrow> bytes list \<Rightarrow> bytes list" where
  "swallows rs [] = []"
| "swallows rs (buf # q) = (case swallow rs buf of (p, rs') \<Rightarrow> p # swallows rs' q)"

lemma swallow_prefix: "prefix (fst (swallow rs buf)) buf"
proof (induction rs buf rule: swallow.induct)
  case (1 n rs buf)
  have "prefix (take n buf @ p) buf" if "prefix p (drop n buf)" for p
    using that same_prefix_prefix [of "take n buf" p "drop n buf"] by simp
  with 1 show ?case by (auto split: prod.splits)
qed simp_all

lemma swallows_prefix: "list_all2 prefix (swallows rs q) q"
proof (induction rs q rule: swallows.induct)
  case (2 rs buf q)
  then show ?case using swallow_prefix [of rs buf] by (auto split: prod.splits)
qed simp

lemma swallow_uses:
  "unfailing rs \<Longrightarrow> buf \<noteq> [] \<Longrightarrow> length buf \<le> length rs \<Longrightarrow> swallow rs buf = (p, rs')
   \<Longrightarrow> \<exists>used. rs = used @ rs' \<and> length used \<le> length buf \<and> count_list used Send_again = (if p = buf then 0 else 1)"
proof (induction rs buf arbitrary: p rule: swallow.induct)
  case (1 n rs buf)
  show ?case
  proof (cases "length buf \<le> n")
    case True
    with 1 show ?thesis by (intro exI [of _ "[Sent n]"]) (simp add: Suc_le_eq)
  next
    case False
    from 1(2) have n: "0 < n" by simp
    from 1(5) False obtain p' where p': "swallow rs (drop n buf) = (p', rs')" "p = take n buf @ p'" by (auto split: prod.splits)
    from False 1(2,4) n have "drop n buf \<noteq> []" "unfailing rs" "length (drop n buf) \<le> length rs" by auto
    from 1(1) [OF False this(2,1,3) p'(1)] obtain used where u: "rs = used @ rs'" "length used \<le> length (drop n buf)"
      "count_list used Send_again = (if p' = drop n buf then 0 else 1)" by blast
    have "p = buf \<longleftrightarrow> p' = drop n buf"
      using append_take_drop_id [of n buf] same_append_eq [of "take n buf" p' "drop n buf"] by (metis p'(2))
    with u False n show ?thesis by (intro exI [of _ "Sent n # used"]) simp
  qed
qed (auto simp: Suc_le_eq intro!: exI [of _ "[Send_again]"])

lemma swallows_uses:
  "unfailing rs \<Longrightarrow> [] \<notin> set q \<Longrightarrow> length (concat q) \<le> length rs
   \<Longrightarrow> \<exists>used rest. rs = used @ rest \<and> count_list used Send_again = cut_short (swallows rs q) q"
proof (induction rs q rule: swallows.induct)
  case (2 rs buf q)
  obtain p rs1 where p: "swallow rs buf = (p, rs1)" by (cases "swallow rs buf")
  from swallow_uses [OF 2(2) _ _ p] 2(3,4) obtain used where u: "rs = used @ rs1" "length used \<le> length buf"
    "count_list used Send_again = (if p = buf then 0 else 1)" by auto
  from 2(1) [OF p [symmetric]] 2(2-4) u(1,2) obtain used' rest where
    r: "rs1 = used' @ rest" "count_list used' Send_again = cut_short (swallows rs1 q) q" by auto
  with u p show ?case by (intro exI [of _ "used @ used'"] exI [of _ rest]) simp
qed (auto intro: exI [of _ "[]"])

text \<open>The loops put exactly that on the wire.\<close>

lemma send_loop_swallow:
  "unfailing rs \<Longrightarrow> buf \<noteq> [] \<Longrightarrow> length buf \<le> length rs
   \<Longrightarrow> send_loop h fd a rs buf s = (case swallow rs buf of (p, rs') \<Rightarrow> Inr (rs', take_bytes fd p s))"
proof (induction rs buf arbitrary: s rule: swallow.induct)
  case (1 n rs buf)
  then have n: "0 < n" by simp
  show ?case
  proof (cases "length buf \<le> n")
    case True
    with n show ?thesis by (simp add: Let_def)
  next
    case False
    then have "unfailing rs" "drop n buf \<noteq> []" "length (drop n buf) \<le> length rs" using 1(2-4) n by auto
    from 1(1) [OF False this, of "take_bytes fd (take n buf) s"] False n show ?thesis by (simp add: Let_def split: prod.splits)
  qed
qed simp_all

lemma send_queue_swallows:
  "unfailing rs \<Longrightarrow> heap s a = Some c \<Longrightarrow> send_buffer_queue c = q \<Longrightarrow> [] \<notin> set q \<Longrightarrow> length (concat q) \<le> length rs
   \<Longrightarrow> send_queue h fd a rs s = Inr (take_bytes fd (concat (swallows rs q)) (with_queue a [] s))"
proof (induction q arbitrary: rs s c)
  case Nil
  then show ?case by (simp add: send_queue_step with_queue_same)
next
  case (Cons buf q)
  let ?s1 = "with_queue a q s" and ?c1 = "c\<lparr>send_buffer_queue := q\<rparr>"
  have buf: "buf \<noteq> []" "length buf \<le> length rs" "[] \<notin> set q" using Cons.prems by auto
  obtain p rs1 where p: "swallow rs buf = (p, rs1)" by (cases "swallow rs buf")
  from swallow_uses [OF Cons.prems(1) buf(1,2) p] obtain used where u: "rs = used @ rs1" "length used \<le> length buf" by blast
  have "send_queue h fd a rs1 (take_bytes fd p ?s1)
      = Inr (take_bytes fd (concat (swallows rs1 q)) (with_queue a [] (take_bytes fd p ?s1)))"
    using Cons.prems u buf(3) by (intro Cons.IH [of _ _ ?c1]) auto
  with send_loop_swallow [OF Cons.prems(1) buf(1,2), of h fd a ?s1] p Cons.prems(2,3) show ?case
    by (simp add: send_queue_step)
qed

lemma on_writable_swallows:
  assumes "clients s (ev_fd e) = Some a" and "heap s a = Some c" and "sockfd c = ev_fd e"
    and "[] \<notin> set (send_buffer_queue c)" and "unfailing (sends e)"
    and "length (concat (send_buffer_queue c)) \<le> length (sends e)"
  shows "on_writable h e s = call_opt h (sent_f s) a (drained (ev_fd e) a (concat (swallows (sends e) (send_buffer_queue c))) s)"
proof -
  let ?d = "concat (swallows (sends e) (send_buffer_queue c))"
  have sq: "send_queue h (ev_fd e) a (sends e) s = Inr (take_bytes (ev_fd e) ?d (with_queue a [] s))"
    by (rule send_queue_swallows [OF assms(5,2) refl assms(4,6)])
  let ?s2 = "ctl_mod (ev_fd e) (EPOLLIN OR EPOLLRDHUP OR EPOLLET) (take_bytes (ev_fd e) ?d (with_queue a [] s))"
  have "sent_f ?s2 = sent_f s" "clients ?s2 = clients s" by (simp_all add: ctl_mod_def take_bytes_def with_queue_def)
  then show ?thesis
    using assms(1-3) sq by (auto simp: on_writable_def Let_def call_opt_def drained_def split: option.splits)
qed

text \<open>A kernel that is never full takes everything.\<close>

lemma cut_short_same [simp]: "cut_short q q = 0"
  by (induction q) simp_all

lemma swallows_all:
  "unfailing rs \<Longrightarrow> Send_again \<notin> set rs \<Longrightarrow> [] \<notin> set q \<Longrightarrow> length (concat q) \<le> length rs \<Longrightarrow> swallows rs q = q"
  using swallows_uses [of rs q] cut_short_0 [OF swallows_prefix, of rs q] by (auto simp: count_list_0_iff)

section \<open>The property\<close>

text \<open>
  C7: whatever part of its buffers the kernel takes and however often its own buffer is full, as long as no
  \<^verbatim>\<open>send\<close> fails: a write event ends with an empty queue and no further interest in writing, a beginning of each
  buffer is on the wire, one after the other, and each \<^verbatim>\<open>EAGAIN\<close> that the loop met has cost the rest of one buffer,
  in the middle of the stream. Only when it meets none is the queue sent whole.
\<close>

theorem write_event_truncates:
  assumes "clients s (ev_fd e) = Some a" and "heap s a = Some c" and "sockfd c = ev_fd e"
    and "[] \<notin> set (send_buffer_queue c)" and "unfailing (sends e)"
    and "length (concat (send_buffer_queue c)) \<le> length (sends e)"
  shows "\<exists>used rest parts s'. sends e = used @ rest \<and> on_writable h e s = call_opt h (sent_f s) a s'
    \<and> wire s' = (wire s)(ev_fd e := wire s (ev_fd e) @ concat parts)
    \<and> list_all2 prefix parts (send_buffer_queue c)
    \<and> count_list used Send_again = cut_short parts (send_buffer_queue c)
    \<and> (parts = send_buffer_queue c \<longleftrightarrow> Send_again \<notin> set used)
    \<and> heap s' = (heap s)(a \<mapsto> c\<lparr>send_buffer_queue := []\<rparr>) \<and> clients s' = clients s
    \<and> (ev_fd e \<in> open_fds s \<longrightarrow> interest s (ev_fd e) \<noteq> None
        \<longrightarrow> interest s' (ev_fd e) = Some (EPOLLIN OR EPOLLRDHUP OR EPOLLET))"
proof -
  let ?q = "send_buffer_queue c" and ?parts = "swallows (sends e) (send_buffer_queue c)"
  from swallows_uses [OF assms(5,4,6)] obtain used rest where
    u: "sends e = used @ rest" "count_list used Send_again = cut_short ?parts ?q" by blast
  note p = swallows_prefix [of "sends e" ?q]
  have "?parts = ?q \<longleftrightarrow> Send_again \<notin> set used"
    using cut_short_0 [OF p] u(2) count_list_0_iff [of used Send_again] by (metis cut_short_same)
  moreover have "on_writable h e s = call_opt h (sent_f s) a (drained (ev_fd e) a (concat ?parts) s)"
    by (rule on_writable_swallows [OF assms])
  ultimately show ?thesis using u p assms(2)
    by (intro exI [of _ used] exI [of _ rest] exI [of _ ?parts] exI [of _ "drained (ev_fd e) a (concat ?parts) s"]) simp
qed

text \<open>Two buffers; the kernel takes one byte of the first, is full, and takes the second.\<close>

theorem write_event_truncates_witness:
  "\<exists>s' parts. on_writable sample_hooks (sample_event [] [Sent 1, Send_again, Sent 1]) (sample_process [[1, 2], [3]]) = Inr s'
     \<and> wire s' 7 = concat parts \<and> list_all2 prefix parts [[1, 2], [3]]"
proof -
  let ?s = "sample_process [[1, 2], [3]]" and ?e = "sample_event [] [Sent 1, Send_again, Sent 1]"
  have "clients ?s (ev_fd ?e) = Some 0" "heap ?s 0 = Some (sample_client [[1, 2], [3]])"
    "sockfd (sample_client [[1, 2], [3]]) = ev_fd ?e" "[] \<notin> set (send_buffer_queue (sample_client [[1, 2], [3]]))"
    "unfailing (sends ?e)" "length (concat (send_buffer_queue (sample_client [[1, 2], [3]]))) \<le> length (sends ?e)"
    by (simp_all add: sample_process_def)
  from write_event_truncates [OF this, of sample_hooks] obtain parts s' where
    "on_writable sample_hooks ?e ?s = call_opt sample_hooks (sent_f ?s) 0 s'" "list_all2 prefix parts [[1, 2], [3]]"
    "wire s' = (wire ?s)(ev_fd ?e := wire ?s (ev_fd ?e) @ concat parts)" by auto
  then show ?thesis by (intro exI [of _ s'] exI [of _ parts]) (simp add: sample_process_def call_opt_def)
qed

end
