(* ===== verification/Chat_Spec.thy ===== *)
theory Chat_Spec
  imports Ws_Rfc Tcp_Partial
begin

text \<open>
  What the echo server promises to the network, without objects, callbacks or the epoll instance: a chat is
  a table of sessions and the bytes on every line. \<open>act\<close> is what one event means to it, \<open>chat_step\<close> what it
  makes of that. \<open>Echo_Refines\<close> shows that the server does exactly this.
\<close>

section \<open>Sessions\<close>

datatype phase = Opening | Refused | Answered | Open

text \<open>\<open>heard\<close> is what the session has said and has not got back, \<open>armed\<close> that it waits for its line to take bytes.\<close>

record session =
  phase_of :: phase
  heard :: bytes
  outbox :: "bytes list"
  armed :: bool

text \<open>\<open>door\<close> is where sessions arrive, \<open>junk\<close> the stack behind a closing frame.\<close>

record chat =
  sessions :: "int \<rightharpoonup> session"
  lines_of :: "int \<Rightarrow> bytes"
  door :: int
  in_use :: "int set"
  junk :: bytes

definition spoken :: "bytes \<Rightarrow> bytes" where
  "spoken xs = rfc_frame True TEXT_FRAME None xs"

definition closing :: "bytes \<Rightarrow> close_flag \<Rightarrow> bytes" where
  "closing rest flag = [0x88, 0x02] @ rest @ [be16 (close_code flag) ! 0]"

definition pong_frame :: bytes where
  "pong_frame = [0x8A, 0x00]"

definition new_session :: session where
  "new_session = \<lparr>phase_of = Opening, heard = [], outbox = [], armed = False\<rparr>"

definition post :: "bytes \<Rightarrow> session \<Rightarrow> session" where
  "post x c = c\<lparr>outbox := outbox c @ [x], armed := True\<rparr>"

definition flushed :: "session \<Rightarrow> session" where
  "flushed c = c\<lparr>outbox := [], armed := False, phase_of := (if phase_of c = Answered then Open else phase_of c)\<rparr>"

text \<open>Everybody who is open gets the greeting.\<close>

definition greet :: "session \<Rightarrow> session" where
  "greet c = (if phase_of c = Open then post (spoken (bytes_of ''hello world'')) c else c)"

section \<open>Steps\<close>

text \<open>A line takes what \<open>swallows\<close> says of the frames that wait for it; the rest of a frame that is cut short is lost.\<close>

datatype act =
    Join int
  | Ask int bytes
  | Refuse int
  | Say int bytes
  | Garble int bytes
  | Ping int
  | Leave int
  | Flush int "send_result list"
  | Nothing

definition on_session :: "int \<Rightarrow> (session \<Rightarrow> session) \<Rightarrow> chat \<Rightarrow> chat" where
  "on_session fd g ch = ch\<lparr>sessions := (sessions ch)(fd := map_option g (sessions ch fd))\<rparr>"

fun chat_step :: "act \<Rightarrow> chat \<Rightarrow> chat" where
  "chat_step (Join fd) ch =
     ch\<lparr>sessions := (sessions ch)(fd \<mapsto> new_session), in_use := insert fd (in_use ch)\<rparr>"
| "chat_step (Ask fd answer) ch = on_session fd (\<lambda>c. post answer (c\<lparr>phase_of := Answered\<rparr>)) ch"
| "chat_step (Refuse fd) ch = on_session fd (\<lambda>c. post (closing (junk ch) PROTOCOL_ERROR) (c\<lparr>phase_of := Refused\<rparr>)) ch"
| "chat_step (Say fd xs) ch = on_session fd (\<lambda>c.
     if phase_of c = Open then post (spoken (heard c @ xs)) (c\<lparr>heard := []\<rparr>) else c\<lparr>heard := heard c @ xs\<rparr>) ch"
| "chat_step (Garble fd xs) ch = on_session fd (\<lambda>c. post (closing (junk ch) INTERNAL_UTF8) (c\<lparr>heard := heard c @ xs\<rparr>)) ch"
| "chat_step (Ping fd) ch = on_session fd (post pong_frame) ch"
| "chat_step (Leave fd) ch = ch\<lparr>sessions := (sessions ch)(fd := None), in_use := in_use ch - {fd}\<rparr>"
| "chat_step (Flush fd rs) ch =
     (case sessions ch fd of
        None \<Rightarrow> ch
      | Some c \<Rightarrow>
          let ch1 = (on_session fd flushed ch)\<lparr>lines_of := (lines_of ch)(fd := lines_of ch fd @ concat (swallows rs (outbox c)))\<rparr>
          in if phase_of c = Answered then ch1\<lparr>sessions := map_option greet \<circ> sessions ch1\<rparr> else ch1)"
| "chat_step Nothing ch = ch"

definition chat_run :: "act list \<Rightarrow> chat \<Rightarrow> chat" where
  "chat_run acts = fold chat_step acts"

lemma chat_run_simps [simp]:
  "chat_run [] ch = ch" "chat_run (a # acts) ch = chat_run acts (chat_step a ch)"
  "chat_run (acts @ [a]) ch = chat_step a (chat_run acts ch)"
  by (simp_all add: chat_run_def)

lemma post_simps [simp]:
  "outbox (post x c) = outbox c @ [x]" "armed (post x c)" "phase_of (post x c) = phase_of c" "heard (post x c) = heard c"
  by (simp_all add: post_def)

lemma flushed_simps [simp]:
  "outbox (flushed c) = []" "heard (flushed c) = heard c"
  "phase_of (flushed c) = (if phase_of c = Answered then Open else phase_of c)"
  by (simp_all add: flushed_def)

lemma on_session_simps [simp]:
  "sessions (on_session fd g ch) = (sessions ch)(fd := map_option g (sessions ch fd))" "lines_of (on_session fd g ch) = lines_of ch"
  "door (on_session fd g ch) = door ch" "in_use (on_session fd g ch) = in_use ch" "junk (on_session fd g ch) = junk ch"
  by (simp_all add: on_session_def)

lemma chat_step_frame [simp]: "door (chat_step a ch) = door ch" "junk (chat_step a ch) = junk ch"
  by (cases a; simp add: Let_def split: option.splits)+

lemma chat_run_frame [simp]: "door (chat_run acts ch) = door ch" "junk (chat_run acts ch) = junk ch"
  by (induction acts arbitrary: ch) simp_all

section \<open>Invariants of the chat\<close>

text \<open>What waits for a line waits for an event: no frame is forgotten.\<close>

definition watchful :: "chat \<Rightarrow> bool" where
  "watchful ch \<longleftrightarrow> (\<forall>fd c. sessions ch fd = Some c \<longrightarrow> outbox c \<noteq> [] \<longrightarrow> armed c)"

lemma watchful_step: "watchful ch \<Longrightarrow> watchful (chat_step a ch)"
  by (cases a) (auto simp: watchful_def new_session_def greet_def Let_def split: option.splits if_splits)

lemma watchful_run: "watchful ch \<Longrightarrow> watchful (chat_run acts ch)"
  by (induction acts arbitrary: ch) (simp_all add: watchful_step)

text \<open>What a session may see: the answer to its request, greetings, pongs, closings and its own words.\<close>

definition said :: "act list \<Rightarrow> int \<Rightarrow> bytes set" where
  "said acts fd = {xs. Say fd xs \<in> set acts \<or> Garble fd xs \<in> set acts}"

definition own_frame :: "bytes \<Rightarrow> act list \<Rightarrow> int \<Rightarrow> bytes \<Rightarrow> bool" where
  "own_frame rest acts fd f \<longleftrightarrow> Ask fd f \<in> set acts \<or> f = spoken (bytes_of ''hello world'') \<or> f = pong_frame
     \<or> (\<exists>flag. f = closing rest flag) \<or> (\<exists>ts. set ts \<subseteq> said acts fd \<and> f = spoken (concat ts))"

lemma said_snoc: "said acts fd \<subseteq> said (acts @ [a]) fd"
  by (auto simp: said_def)

lemma own_snoc: "own_frame r acts fd f \<Longrightarrow> own_frame r (acts @ [a]) fd f"
  using said_snoc [of acts fd a] unfolding own_frame_def by fastforce

text \<open>A session whose frames and pending words are its own.\<close>

definition modest :: "bytes \<Rightarrow> act list \<Rightarrow> int \<Rightarrow> session \<Rightarrow> bool" where
  "modest rest acts fd c \<longleftrightarrow> (\<forall>f \<in> set (outbox c). own_frame rest acts fd f)
     \<and> (\<exists>ts. set ts \<subseteq> said acts fd \<and> heard c = concat ts)"

lemma modest_new: "modest r acts fd new_session"
  unfolding modest_def new_session_def by (simp add: exI [of _ "[]"])

lemma modest_snoc: "modest r acts fd c \<Longrightarrow> modest r (acts @ [a]) fd c"
  using said_snoc [of acts fd a] unfolding modest_def by (meson own_snoc order_trans)

lemma modest_post: "modest r acts fd c \<Longrightarrow> own_frame r acts fd x \<Longrightarrow> modest r acts fd (post x c)"
  by (auto simp: modest_def)

lemma modest_phase [simp]: "modest r acts fd (c\<lparr>phase_of := p\<rparr>) = modest r acts fd c"
  by (simp add: modest_def)

lemma modest_flushed: "modest r acts fd c \<Longrightarrow> modest r acts fd (flushed c)"
  by (simp add: modest_def)

lemma modest_greet: "modest r acts fd c \<Longrightarrow> modest r acts fd (greet c)"
  by (simp add: greet_def modest_post own_frame_def)

text \<open>Words join what the session has said before, and come back or stay.\<close>

lemma modest_heard:
  assumes "modest r acts fd c" and "xs \<in> said acts fd"
  shows "modest r acts fd (c\<lparr>heard := heard c @ xs\<rparr>)" "modest r acts fd (post (spoken (heard c @ xs)) (c\<lparr>heard := []\<rparr>))"
proof -
  from assms obtain ts where ts: "set ts \<subseteq> said acts fd" "heard c = concat ts" by (auto simp: modest_def)
  then have own: "\<exists>us. set us \<subseteq> said acts fd \<and> heard c @ xs = concat us"
    using assms(2) by (intro exI [of _ "ts @ [xs]"]) simp
  with assms(1) show "modest r acts fd (c\<lparr>heard := heard c @ xs\<rparr>)" by (simp add: modest_def)
  from own have "own_frame r acts fd (spoken (heard c @ xs))" by (auto simp: own_frame_def)
  moreover have "modest r acts fd (c\<lparr>heard := []\<rparr>)"
    using assms(1) by (simp add: modest_def exI [of _ "[]"])
  ultimately show "modest r acts fd (post (spoken (heard c @ xs)) (c\<lparr>heard := []\<rparr>))" by (simp add: modest_post)
qed

text \<open>How often a line was full, and acts after which no more frames are cut short than that.\<close>

definition stalls :: "act list \<Rightarrow> int \<Rightarrow> nat" where
  "stalls acts fd = sum_list (map (\<lambda>a. case a of Flush fd' rs \<Rightarrow> if fd' = fd then count_list rs Send_again else 0 | _ \<Rightarrow> 0) acts)"

fun fair :: "act \<Rightarrow> chat \<Rightarrow> bool" where
  "fair (Flush fd rs) ch \<longleftrightarrow> (\<forall>c. sessions ch fd = Some c \<longrightarrow> cut_short (swallows rs (outbox c)) (outbox c) \<le> count_list rs Send_again)"
| "fair _ ch \<longleftrightarrow> True"

fun all_fair :: "act list \<Rightarrow> chat \<Rightarrow> bool" where
  "all_fair [] ch \<longleftrightarrow> True"
| "all_fair (a # acts) ch \<longleftrightarrow> fair a ch \<and> all_fair acts (chat_step a ch)"

lemma all_fair_snoc: "all_fair (acts @ [a]) ch \<longleftrightarrow> all_fair acts ch \<and> fair a (chat_run acts ch)"
  by (induction acts arbitrary: ch) auto

definition discreet :: "act list \<Rightarrow> (int \<Rightarrow> bytes) \<Rightarrow> chat \<Rightarrow> bool" where
  "discreet acts l ch \<longleftrightarrow>
     (\<forall>fd. \<exists>fs ps. lines_of ch fd = l fd @ concat ps \<and> list_all2 prefix ps fs \<and> cut_short ps fs \<le> stalls acts fd
        \<and> (\<forall>f \<in> set fs. own_frame (junk ch) acts fd f))
     \<and> (\<forall>fd c. sessions ch fd = Some c \<longrightarrow> modest (junk ch) acts fd c)"

lemma discreet_line:
  "discreet acts l ch \<Longrightarrow> \<exists>fs ps. lines_of ch fd = l fd @ concat ps \<and> list_all2 prefix ps fs \<and> cut_short ps fs \<le> stalls acts fd
     \<and> (\<forall>f \<in> set fs. own_frame (junk ch) acts fd f)"
  by (simp add: discreet_def)

lemma stalls_snoc: "stalls acts fd \<le> stalls (acts @ [a]) fd" "stalls (acts @ [Flush fd rs]) fd = stalls acts fd + count_list rs Send_again"
  by (simp_all add: stalls_def)

lemma discreet_snoc: "discreet acts l ch \<Longrightarrow> discreet (acts @ [a]) l ch"
  unfolding discreet_def using modest_snoc own_snoc le_trans [OF _ stalls_snoc(1)] by meson

lemma cut_short_append: "list_all2 P ps fs \<Longrightarrow> cut_short (ps @ ps') (fs @ fs') = cut_short ps fs + cut_short ps' fs'"
  by (induction rule: list_all2_induct) simp_all

lemma discreet_sessions:
  "discreet acts l ch \<Longrightarrow> lines_of ch' = lines_of ch \<Longrightarrow> junk ch' = junk ch
   \<Longrightarrow> (\<And>fd c. sessions ch' fd = Some c \<Longrightarrow> (\<And>c0. sessions ch fd = Some c0 \<Longrightarrow> modest (junk ch) acts fd c0)
        \<Longrightarrow> modest (junk ch) acts fd c) \<Longrightarrow> discreet acts l ch'"
  by (simp add: discreet_def)

lemma discreet_flush:
  assumes "discreet acts l ch" and fair: "fair (Flush fd rs) ch"
  shows "discreet (acts @ [Flush fd rs]) l (chat_step (Flush fd rs) ch)"
proof (cases "sessions ch fd")
  case (Some c)
  let ?acts = "acts @ [Flush fd rs]" and ?ps = "swallows rs (outbox c)"
  let ?ch = "(on_session fd flushed ch)\<lparr>lines_of := (lines_of ch)(fd := lines_of ch fd @ concat ?ps)\<rparr>"
  have m: "modest (junk ch) ?acts fd c" using discreet_snoc [OF assms(1)] Some by (simp add: discreet_def)
  obtain fs ps where fs: "lines_of ch fd = l fd @ concat ps" "list_all2 prefix ps fs" "cut_short ps fs \<le> stalls acts fd"
    "\<forall>f \<in> set fs. own_frame (junk ch) acts fd f"
    using discreet_line [OF assms(1)] by blast
  have "cut_short (ps @ ?ps) (fs @ outbox c) \<le> stalls ?acts fd"
    using fair Some fs(3) by (simp add: cut_short_append [OF fs(2)] stalls_snoc(2) add_mono)
  moreover have "list_all2 prefix (ps @ ?ps) (fs @ outbox c)" using fs(2) swallows_prefix by (rule list_all2_appendI)
  ultimately have "\<exists>fs ps. lines_of ?ch fd = l fd @ concat ps \<and> list_all2 prefix ps fs \<and> cut_short ps fs \<le> stalls ?acts fd
      \<and> (\<forall>f \<in> set fs. own_frame (junk ch) ?acts fd f)"
    using m fs(1,4) own_snoc by (intro exI [of _ "fs @ outbox c"] exI [of _ "ps @ ?ps"]) (auto simp: modest_def)
  moreover have "modest (junk ch) ?acts fd' c'" if "sessions ?ch fd' = Some c'" for fd' c'
    using that discreet_snoc [OF assms(1), of "Flush fd rs"] Some modest_flushed [OF m]
    by (auto simp: discreet_def split: if_splits)
  moreover have "\<exists>fs ps. lines_of ?ch fd' = l fd' @ concat ps \<and> list_all2 prefix ps fs \<and> cut_short ps fs \<le> stalls ?acts fd'
      \<and> (\<forall>f \<in> set fs. own_frame (junk ch) ?acts fd' f)" if "fd' \<noteq> fd" for fd'
    using that discreet_line [OF discreet_snoc [OF assms(1), of "Flush fd rs"], of fd'] by simp
  ultimately have d: "discreet ?acts l ?ch" unfolding discreet_def by simp
  then have "discreet ?acts l (?ch\<lparr>sessions := map_option greet \<circ> sessions ?ch\<rparr>)"
    by (rule discreet_sessions) (auto intro: modest_greet)
  with d Some show ?thesis by (simp add: Let_def)
qed (use discreet_snoc [OF assms(1)] in simp)

lemma discreet_step:
  assumes "discreet acts l ch" and "fair a ch"
  shows "discreet (acts @ [a]) l (chat_step a ch)"
proof (cases "\<exists>fd rs. a = Flush fd rs")
  case True
  then show ?thesis using discreet_flush assms by blast
next
  case False
  have mine: "xs \<in> said (acts @ [Say fd xs]) fd" "xs \<in> said (acts @ [Garble fd xs]) fd" for fd xs
    by (auto simp: said_def)
  have own: "own_frame r (acts @ [Ask fd x]) fd x" "own_frame r as fd (closing r k)" "own_frame r as fd pong_frame" for r fd x k as
    by (auto simp: own_frame_def)
  show ?thesis
    by (rule discreet_sessions [OF discreet_snoc [OF assms(1)]])
      (use False in \<open>cases a; auto simp: own modest_new split: if_splits intro!: modest_post modest_heard mine\<close>)+
qed

lemma discreet_run: "sessions ch = Map.empty \<Longrightarrow> all_fair acts ch \<Longrightarrow> discreet acts (lines_of ch) (chat_run acts ch)"
proof (induction acts rule: rev_induct)
  case Nil
  then show ?case by (auto simp: discreet_def intro!: exI [of _ "[]"])
next
  case (snoc a acts)
  then show ?case by (simp add: discreet_step all_fair_snoc)
qed

end
