(* ===== verification/Echo_Chat.thy ===== *)
theory Echo_Chat
  imports Echo_Session Chat_Spec
begin

text \<open>
  The chat that a state of the echo server stands for, and what an event on the network means to it.
\<close>

declare modify_live [simp del] modify_put [simp]

section \<open>The chat of a server\<close>

abbreviation reads_writes :: "32 word" where
  "reads_writes \<equiv> EPOLLIN OR EPOLLOUT OR EPOLLRDHUP OR EPOLLET"

definition client_phase :: "websocket_client \<Rightarrow> phase" where
  "client_phase c = (case is_connected c of
       NONE \<Rightarrow> if http_header c = Map.empty then Opening else Refused
     | WAIT_SHAKE \<Rightarrow> Answered
     | CONNECTED \<Rightarrow> Open)"

definition view :: "bool \<Rightarrow> websocket_client \<Rightarrow> session" where
  "view w c = \<lparr>phase_of = client_phase c, heard = decode_buffer c, outbox = send_buffer_queue c, armed = w\<rparr>"

definition armed_at :: "int \<Rightarrow> main_process \<Rightarrow> bool" where
  "armed_at fd s \<longleftrightarrow> interest s fd = Some reads_writes"

definition session_at :: "main_process \<Rightarrow> int \<Rightarrow> session option" where
  "session_at s fd = (case clients s fd of None \<Rightarrow> None | Some a \<Rightarrow> map_option (view (armed_at fd s)) (heap s a))"

definition chat_of :: "main_process \<Rightarrow> chat" where
  "chat_of s = \<lparr>sessions = session_at s, lines_of = wire s, door = listen_fd s, in_use = open_fds s,
     junk = takeWhile (\<lambda>b. b \<noteq> 0) (stack_rest s)\<rparr>"

lemma chat_of_simps [simp]:
  "sessions (chat_of s) = session_at s" "lines_of (chat_of s) = wire s" "door (chat_of s) = listen_fd s"
  "in_use (chat_of s) = open_fds s" "junk (chat_of s) = takeWhile (\<lambda>b. b \<noteq> 0) (stack_rest s)"
  by (simp_all add: chat_of_def)

lemma view_simps [simp]:
  "phase_of (view w c) = client_phase c" "heard (view w c) = decode_buffer c"
  "outbox (view w c) = send_buffer_queue c" "armed (view w c) = w"
  by (simp_all add: view_def)

lemma session_atE:
  assumes "server_ok s" and "session_at s fd = Some v"
  obtains a c where "clients s fd = Some a" "heap s a = Some c" "sockfd c = fd" "v = view (armed_at fd s) c" "fd \<in> open_fds s"
  using assms server_inv_client [of "{}" s fd] by (fastforce simp: session_at_def split: option.splits)

text \<open>What the clients of a server have in common as long as the network keeps to the protocol.\<close>

definition calm :: "websocket_client \<Rightarrow> bool" where
  "calm c \<longleftrightarrow> time_wheel_id c = 0 \<and> time_wheel_heartbeat_id c = 0 \<and> \<not> wait_close c \<and> [] \<notin> set (send_buffer_queue c)"

definition settled :: "main_process \<Rightarrow> bool" where
  "settled s \<longleftrightarrow> \<not> stop s \<and> 0 \<in> set (stack_rest s)
     \<and> (\<forall>a c. heap s a = Some c \<longrightarrow> calm c \<and> sockfd c \<noteq> listen_fd s \<and> interest s (sockfd c) \<noteq> None
        \<and> (is_connected c = CONNECTED \<longleftrightarrow> a \<in> set (wb_clients s)))
     \<and> (\<forall>fd. fd \<notin> open_fds s \<longrightarrow> interest s fd = None)"

definition chatting :: "crypto \<Rightarrow> main_process \<Rightarrow> bool" where
  "chatting cr s \<longleftrightarrow> main_run cr s \<and> settled s"

lemma settled_client:
  "settled s \<Longrightarrow> heap s a = Some c \<Longrightarrow> calm c \<and> sockfd c \<noteq> listen_fd s \<and> interest s (sockfd c) \<noteq> None
     \<and> (is_connected c = CONNECTED \<longleftrightarrow> a \<in> set (wb_clients s))"
  by (simp add: settled_def)

section \<open>Changes to one client\<close>

lemma other_client:
  "server_ok s \<Longrightarrow> clients s fd = Some a \<Longrightarrow> clients s fd' = Some b \<Longrightarrow> fd' \<noteq> fd \<Longrightarrow> b \<noteq> a"
  using server_inv_client [of "{}" s fd a] server_inv_client [of "{}" s fd' b] by auto

lemma put_chat_fields [simp]:
  "interest (put a c s) = interest s" "next_addr (put a c s) = next_addr s" "stop (put a c s) = stop s"
  "stop (sending fd s) = stop s"
  by (simp_all add: put_def sending_def ctl_mod_def)

lemma session_put:
  assumes "server_ok s" and "clients s fd = Some a"
  shows "session_at (put a c s) = (session_at s)(fd \<mapsto> view (armed_at fd s) c)"
  using other_client [OF assms] assms(2)
  by (auto simp: session_at_def armed_at_def fun_eq_iff split: option.splits)

lemma put_chat:
  assumes "server_ok s" and "clients s fd = Some a"
  shows "chat_of (put a c s) = (chat_of s)\<lparr>sessions := (session_at s)(fd \<mapsto> view (armed_at fd s) c)\<rparr>"
  using session_put [OF assms] by (simp add: chat_of_def)

lemma sending_interest: "fd \<in> open_fds s \<Longrightarrow> interest s fd \<noteq> None \<Longrightarrow> interest (sending fd s) = (interest s)(fd \<mapsto> reads_writes)"
  by (simp add: sending_def ctl_mod_def)

lemma put_sending_chat:
  assumes ok: "server_ok s" and cl: "clients s fd = Some a" and int: "interest s fd \<noteq> None"
  shows "chat_of (put a c (sending fd s)) = (chat_of s)\<lparr>sessions := (session_at s)(fd \<mapsto> view True c)\<rparr>"
proof -
  have fd: "fd \<in> open_fds s" using server_inv_client [OF ok cl] by blast
  note i = sending_interest [OF fd int]
  have "session_at (put a c (sending fd s)) = (session_at s)(fd \<mapsto> view True c)"
    using other_client [OF ok cl] cl i
    by (auto simp: session_at_def armed_at_def fun_eq_iff split: option.splits)
  then show ?thesis by (simp add: chat_of_def)
qed

lemma settled_put:
  assumes "settled s" and "heap s a = Some c" and "steady c c'" and "[] \<notin> set (send_buffer_queue c')"
    and "is_connected c' = CONNECTED \<longleftrightarrow> is_connected c = CONNECTED"
  shows "settled (put a c' s)"
  using assms by (simp add: settled_def calm_def steady_def)

lemma settled_sending: "settled s \<Longrightarrow> settled (sending fd s)"
  by (auto simp: settled_def sending_def ctl_mod_def)

section \<open>Events and what they mean\<close>

definition carrying :: "event \<Rightarrow> bytes \<Rightarrow> bytes \<Rightarrow> bool" where
  "carrying e before xs \<longleftrightarrow> (\<exists>fs op post. reading e (message_bytes op fs @ post) \<and> fs \<noteq> []
     \<and> (\<forall>fr \<in> set fs. good_frame fr) \<and> (op = TEXT_FRAME \<or> op = BINARY_FRAME) \<and> text_ok op fs before
     \<and> length before + length (message_bytes op fs @ post) < 2 ^ 31 \<and> concat (map snd fs) = xs)"

text \<open>A request: what the peer has sent, and whether it asks for an upgrade.\<close>

definition requesting :: "event \<Rightarrow> (bytes \<times> bytes) list \<Rightarrow> bool" where
  "requesting e hs \<longleftrightarrow> (\<exists>verb path version rest.
     good_request verb path version hs \<and> reading e (render_request verb path version hs @ rest))"

definition upgraded :: "session \<Rightarrow> bool" where
  "upgraded v \<longleftrightarrow> phase_of v = Answered \<or> phase_of v = Open"

text \<open>
  An event in a chat, and the step it means: a peer that keeps to the protocol, a kernel that takes what is
  written or is full for the moment. A session ends with an error on its line, the end of its stream or a closing frame.
\<close>

definition on_line :: "event \<Rightarrow> chat \<Rightarrow> int \<Rightarrow> session \<Rightarrow> bool" where
  "on_line e ch fd v \<longleftrightarrow> ev_fd e = fd \<and> sessions ch fd = Some v"

text \<open>A write event whose kernel may be full at any point.\<close>

definition pushing :: "event \<Rightarrow> nat \<Rightarrow> bool" where
  "pushing e n \<longleftrightarrow> ev_events e = EPOLLOUT \<and> accepts e = None \<and> unfailing (sends e) \<and> n \<le> length (sends e)"

lemma pushing_drained:
  assumes w: "pushing e (length (concat (send_buffer_queue c)))" and cl: "clients s (ev_fd e) = Some a"
    and c: "heap s a = Some c" "sockfd c = ev_fd e" "[] \<notin> set (send_buffer_queue c)"
  shows "handle_event h e s = call_opt h (sent_f s) a (drained (ev_fd e) a (concat (swallows (sends e) (send_buffer_queue c))) s)"
proof -
  have "EPOLLOUT AND (EPOLLHUP OR EPOLLRDHUP OR EPOLLERR) = 0" "EPOLLOUT AND EPOLLIN = 0" "EPOLLOUT AND EPOLLOUT \<noteq> 0"
    by (simp_all add: epoll_defs)
  then have "handle_event h e s = on_writable h e s" using w by (simp add: handle_event_def pushing_def)
  also have "\<dots> = call_opt h (sent_f s) a (drained (ev_fd e) a (concat (swallows (sends e) (send_buffer_queue c))) s)"
    by (rule on_writable_swallows [OF cl c]) (use w in \<open>simp_all add: pushing_def\<close>)
  finally show ?thesis .
qed

fun offers :: "crypto \<Rightarrow> event \<Rightarrow> act \<Rightarrow> chat \<Rightarrow> bool" where
  "offers cr e (Join fd) ch \<longleftrightarrow> ev_events e = EPOLLIN \<and> ev_fd e = door ch
     \<and> (\<exists>peer rand. accepts e = Some (fd, peer, rand)) \<and> fd \<notin> in_use ch \<and> fd \<noteq> door ch"
| "offers cr e (Ask fd answer) ch \<longleftrightarrow> (\<exists>v hs k. on_line e ch fd v \<and> phase_of v = Opening
     \<and> requesting e hs \<and> upgrades (map_of hs) k
     \<and> answer = generate_websocket_shake_hands_res (accept_value cr k))"
| "offers cr e (Refuse fd) ch \<longleftrightarrow> (\<exists>v hs. on_line e ch fd v \<and> phase_of v = Opening
     \<and> requesting e hs \<and> (\<nexists>k. upgrades (map_of hs) k))"
| "offers cr e (Say fd xs) ch \<longleftrightarrow> (\<exists>v. on_line e ch fd v \<and> upgraded v \<and> carrying e (heard v) xs)"
| "offers cr e (Garble fd xs) ch \<longleftrightarrow> (\<exists>v mk. on_line e ch fd v \<and> upgraded v
     \<and> reading e (rfc_frame True TEXT_FRAME mk xs) \<and> good_frame (mk, xs)
     \<and> length (heard v) + length (rfc_frame True TEXT_FRAME mk xs) < 2 ^ 31 \<and> \<not> validate_utf8 (heard v @ xs))"
| "offers cr e (Ping fd) ch \<longleftrightarrow> (\<exists>v f mk xs post. on_line e ch fd v \<and> upgraded v
     \<and> reading e (rfc_frame f PING mk xs @ post))"
| "offers cr e (Leave fd) ch \<longleftrightarrow> accepts e = None \<and> (\<exists>v. on_line e ch fd v \<and>
     (ev_events e AND (EPOLLHUP OR EPOLLRDHUP OR EPOLLERR) \<noteq> 0
      \<or> ev_events e = EPOLLIN \<and> (\<exists>rs. recvs e = End_of_stream # rs)
      \<or> upgraded v \<and> (\<exists>f mk xs post. reading e (rfc_frame f CLOSE mk xs @ post))))"
| "offers cr e (Flush fd rs) ch \<longleftrightarrow> (\<exists>v. on_line e ch fd v \<and> pushing e (length (concat (outbox v))) \<and> rs = sends e)"
| "offers cr e Nothing ch \<longleftrightarrow> accepts e = None \<and>
     (sessions ch (ev_fd e) = None \<or> (\<exists>fd v. on_line e ch fd v \<and>
       (reading e [] \<or> upgraded v \<and> (\<exists>f mk xs post. reading e (rfc_frame f PONG mk xs @ post)))))"

definition follows :: "crypto \<Rightarrow> event \<Rightarrow> act \<Rightarrow> main_process \<Rightarrow> bool" where
  "follows cr e act s \<longleftrightarrow>
     (\<exists>s'. handle_event (main_hooks cr) e s = Inr s' \<and> chat_of s' = chat_step act (chat_of s) \<and> settled s')"

lemma chattingD:
  assumes "chatting cr s"
  shows "server_ok s" "main_knows {} s" "settled s" "main_run cr s"
  using assms main_run_knows [of cr s] by (auto simp: chatting_def)

lemma on_lineE:
  assumes "chatting cr s" and "on_line e (chat_of s) fd v"
  obtains a c where "clients s fd = Some a" "heap s a = Some c" "sockfd c = fd" "v = view (armed_at fd s) c" "fd \<in> open_fds s"
    "ev_fd e = fd" "fd \<noteq> listen_fd s" "interest s fd \<noteq> None" "calm c"
proof -
  have "session_at s fd = Some v" "ev_fd e = fd" using assms(2) by (simp_all add: on_line_def)
  moreover from session_atE [OF chattingD(1) [OF assms(1)] this(1)] obtain a c
    where "clients s fd = Some a" "heap s a = Some c" "sockfd c = fd" "v = view (armed_at fd s) c" "fd \<in> open_fds s" by blast
  ultimately show ?thesis using that settled_client [OF chattingD(3) [OF assms(1)], of a c] by simp
qed

lemma upgraded_view [simp]: "upgraded (view w c) \<longleftrightarrow> is_connected c \<noteq> NONE"
  by (simp add: upgraded_def client_phase_def split: connection_state.splits)

lemma handle_silent:
  assumes "reading e data" and "data \<noteq> []" and "ev_fd e \<noteq> listen_fd s" and "clients s (ev_fd e) = Some a"
    and "ws_decode_proto_data cr main_user a data s = Inr (False, s')"
  shows "handle_event (main_hooks cr) e s = Inr s'"
  using handle_reading [OF assms(1,3,4), of "main_hooks cr"] assms by (simp add: deliver_def)

lemma handle_message:
  assumes "reading e data" and "data \<noteq> []" and "ev_fd e \<noteq> listen_fd s" and "clients s (ev_fd e) = Some a" and "main_knows {} s"
    and "ws_decode_proto_data cr main_user a data s = Inr (True, put a c s)"
  shows "handle_event (main_hooks cr) e s = ws_call main_user (Recv_wrapper (Some On_recv)) a (put a c s)"
  using handle_reading [OF assms(1,3,4), of "main_hooks cr"] assms by (simp add: deliver_def main_knows_def)

lemma message_payload_le: "length (concat (map snd fs)) \<le> length (message_bytes op fs)"
  by (induction op fs rule: message_bytes.induct) (auto simp: rfc_frame_prefix)

text \<open>An event that puts one frame into the queue of the client it comes from.\<close>

lemma follows_queued:
  assumes ch: "chatting cr s" and cl: "clients s fd = Some a" "heap s a = Some c" "interest s fd \<noteq> None"
    and step: "handle_event (main_hooks cr) e s = Inr (put a c' (sending fd s))" "steady c c'"
    and c': "[] \<notin> set (send_buffer_queue c')" "is_connected c' = CONNECTED \<longleftrightarrow> is_connected c = CONNECTED"
    and spec: "chat_step act (chat_of s) = on_session fd g (chat_of s)" "g (view (armed_at fd s) c) = view True c'"
  shows "follows cr e act s"
proof -
  have "session_at s fd = Some (view (armed_at fd s) c)" using cl by (simp add: session_at_def)
  then have "on_session fd g (chat_of s) = (chat_of s)\<lparr>sessions := (session_at s)(fd \<mapsto> view True c')\<rparr>"
    using spec(2) by (simp add: on_session_def)
  moreover have "settled (put a c' (sending fd s))"
    by (rule settled_put [OF settled_sending [OF chattingD(3) [OF ch]] _ step(2) c']) (simp add: cl(2))
  ultimately show ?thesis
    using step(1) put_sending_chat [OF chattingD(1) [OF ch] cl(1,3), of c'] spec(1) by (auto simp: follows_def)
qed

end
