(* ===== verification/Echo_Refines.thy ===== *)
theory Echo_Refines
  imports Echo_Chat
begin

text \<open>
  The echo server refines the chat: on a network that keeps to the protocol, every event, of any of the
  clients and in any order, takes the server to the state that the chat describes.
\<close>

declare modify_live [simp del] modify_put [simp]

section \<open>Every step\<close>

lemma session_none: "server_ok s \<Longrightarrow> session_at s fd = None \<Longrightarrow> clients s fd = None"
  using server_inv_client [of "{}" s fd] by (fastforce simp: session_at_def split: option.splits)

lemma client_phase_ask [simp]: "is_connected c = WAIT_SHAKE \<Longrightarrow> client_phase c = Answered"
  "is_connected c = CONNECTED \<Longrightarrow> client_phase c = Open"
  by (simp_all add: client_phase_def)

lemma client_phase_opening: "client_phase c = Opening \<longleftrightarrow> is_connected c = NONE \<and> http_header c = Map.empty"
  by (simp add: client_phase_def split: connection_state.splits)

lemma close_frame_closing:
  assumes "0 \<in> set stack"
  shows "close_frame stack flag = Inr (closing (takeWhile (\<lambda>b. b \<noteq> 0) stack) flag)"
proof -
  have "c_str stack = Inr (takeWhile (\<lambda>b. b \<noteq> 0) stack)" using assms by (induction stack) auto
  then show ?thesis by (simp add: close_frame_def header_close closing_def)
qed

lemma render_request_nonempty [simp]: "render_request verb path version hs \<noteq> []"
  by (simp add: render_request_def)

lemma ask_follows:
  assumes ch: "chatting cr s" and sizes: "openssl_sizes cr" and o: "offers cr e (Ask fd answer) (chat_of s)"
  shows "follows cr e (Ask fd answer) s"
proof -
  from o obtain v hs k verb path version rest where l: "on_line e (chat_of s) fd v" and ph: "phase_of v = Opening"
    and r: "reading e (render_request verb path version hs @ rest)" "good_request verb path version hs"
    and k: "upgrades (map_of hs) k" "answer = generate_websocket_shake_hands_res (accept_value cr k)"
    by (auto simp: requesting_def)
  from on_lineE [OF ch l] obtain a c where c: "clients s fd = Some a" "heap s a = Some c" "sockfd c = fd"
    "v = view (armed_at fd s) c" "ev_fd e = fd" "fd \<noteq> listen_fd s" "interest s fd \<noteq> None" "calm c" by metis
  have ph': "is_connected c = NONE" "http_header c = Map.empty" using ph c(4) by (simp_all add: client_phase_opening)
  have at: "ev_fd e \<noteq> listen_fd s" "clients s (ev_fd e) = Some a" using c by simp_all
  from request_answered [OF chattingD(4) [OF ch] sizes r(1) at c(2) ph' r(2) refl k(1)] obtain c' where
    step: "handle_event (main_hooks cr) e s = Inr (put a c' (sending fd s))"
    and c': "send_buffer_queue c' = send_buffer_queue c @ [answer]" "is_connected c' = WAIT_SHAKE" "steady c c'"
      "decode_buffer c' = decode_buffer c"
    unfolding c(3) k(2) by blast
  show ?thesis
    by (rule follows_queued [OF ch c(1,2,7) step c'(3), where g = "\<lambda>c. post answer (c\<lparr>phase_of := Answered\<rparr>)"])
      (use c' c(8) ph' k(2) in \<open>simp_all add: calm_def post_def view_def generate_websocket_shake_hands_res_def\<close>)
qed

lemma refuse_follows:
  assumes ch: "chatting cr s" and o: "offers cr e (Refuse fd) (chat_of s)"
  shows "follows cr e (Refuse fd) s"
proof -
  from o obtain v hs verb path version rest where l: "on_line e (chat_of s) fd v" and ph: "phase_of v = Opening"
    and r: "reading e (render_request verb path version hs @ rest)" "good_request verb path version hs"
    and no: "\<nexists>k. upgrades (map_of hs) k"
    by (auto simp: requesting_def)
  from on_lineE [OF ch l] obtain a c where c: "clients s fd = Some a" "heap s a = Some c" "sockfd c = fd"
    "v = view (armed_at fd s) c" "ev_fd e = fd" "fd \<noteq> listen_fd s" "interest s fd \<noteq> None" "calm c" by metis
  have ph': "is_connected c = NONE" "http_header c = Map.empty" using ph c(4) by (simp_all add: client_phase_opening)
  let ?data = "render_request verb path version hs @ rest"
  let ?c1 = "c\<lparr>http_header := request_fields verb path hs, recv_buffer := ?data\<rparr>"
  let ?frame = "closing (junk (chat_of s)) PROTOCOL_ERROR"
  let ?c2 = "queued ?frame ?c1"
  have f: "close_frame (stack_rest s) PROTOCOL_ERROR = Inr ?frame"
    using close_frame_closing chattingD(3) [OF ch] by (simp add: settled_def)
  have hb: "time_wheel_heartbeat_id c = 0" using c(8) by (simp add: calm_def)
  have "decode_http_header ?data (http_header c) = Inr (True, request_fields verb path hs)"
    using request_parsed [OF r(2)] by (simp add: ph'(2))
  from handshake_request [OF c(2) ph'(1) this, of cr main_user] shake_hands_refuses [of "put a ?c1 s" a ?c1 cr] no hb
    close_websocket_client_put [of "put a ?c1 s" a ?c1 PROTOCOL_ERROR ?frame] f c(3)
  have "ws_decode_proto_data cr main_user a ?data s = Inr (False, put a ?c2 (sending fd s))"
    by (simp add: upgrades_request sending_put)
  then have step: "handle_event (main_hooks cr) e s = Inr (put a ?c2 (sending fd s))"
    by (intro handle_silent [OF r(1)]) (use c in simp_all)
  have "steady c ?c2" by simp (simp add: steady_def)
  then show ?thesis
    by (rule follows_queued [OF ch c(1,2,7) step, where g = "\<lambda>c. post ?frame (c\<lparr>phase_of := Refused\<rparr>)"])
      (use c(8) ph' in \<open>simp_all add: calm_def post_def view_def queued_def client_phase_def request_fields_def closing_def\<close>)
qed

text \<open>Messages, valid or not.\<close>

lemma carried_message:
  assumes ch: "chatting cr s" and e: "carrying e (decode_buffer c) xs" "ev_fd e = fd" "fd \<noteq> listen_fd s"
    and c: "clients s fd = Some a" "heap s a = Some c" "is_connected c \<noteq> NONE"
  obtains c1 where "handle_event (main_hooks cr) e s = ws_call main_user (Recv_wrapper (Some On_recv)) a (put a c1 s)"
    "decode_buffer c1 = decode_buffer c @ xs" "is_connected c1 = is_connected c" "send_buffer_queue c1 = send_buffer_queue c"
    "steady c c1" "length (decode_buffer c @ xs) < 2 ^ 64"
proof -
  from e(1) obtain fs op tail where m: "reading e (message_bytes op fs @ tail)" "fs \<noteq> []" "\<forall>fr \<in> set fs. good_frame fr"
      "op = TEXT_FRAME \<or> op = BINARY_FRAME" "text_ok op fs (decode_buffer c)"
      "length (decode_buffer c) + length (message_bytes op fs @ tail) < 2 ^ 31" "concat (map snd fs) = xs"
    by (auto simp: carrying_def)
  have len: "length (decode_buffer c) + length (message_bytes op fs) < 2 ^ 63" "length (message_bytes op fs @ tail) < 2 ^ 31"
    using m(6) by simp_all
  from message_decoded [OF c(2,3) m(2,3,4) refl m(5) len, of cr main_user] obtain c1
    where d: "ws_decode_proto_data cr main_user a (message_bytes op fs @ tail) s = Inr (True, put a c1 s)"
      and c1: "decode_buffer c1 = decode_buffer c @ xs" "is_connected c1 = is_connected c"
        "send_buffer_queue c1 = send_buffer_queue c" "steady c c1"
    unfolding m(7) by (auto simp: get_message_def)
  have "message_bytes op fs @ tail \<noteq> []" using message_bytes_length [OF m(2), of op] by auto
  then have "handle_event (main_hooks cr) e s = ws_call main_user (Recv_wrapper (Some On_recv)) a (put a c1 s)"
    by (rule handle_message [OF m(1) _ _ _ chattingD(2) [OF ch] d]) (use c e in simp_all)
  moreover have "length (decode_buffer c @ xs) < 2 ^ 64" using message_payload_le [of fs op] m(6,7) by simp
  ultimately show ?thesis using that c1 by blast
qed

lemma say_follows:
  assumes ch: "chatting cr s" and o: "offers cr e (Say fd xs) (chat_of s)"
  shows "follows cr e (Say fd xs) s"
proof -
  from o obtain v where l: "on_line e (chat_of s) fd v" and up: "upgraded v" and m: "carrying e (heard v) xs" by auto
  from on_lineE [OF ch l] obtain a c where c: "clients s fd = Some a" "heap s a = Some c" "sockfd c = fd"
    "v = view (armed_at fd s) c" "ev_fd e = fd" "fd \<noteq> listen_fd s" "interest s fd \<noteq> None" "calm c" by metis
  have up': "is_connected c \<noteq> NONE" and m': "carrying e (decode_buffer c) xs" using up m c(4) by simp_all
  from carried_message [OF ch m' c(5,6,1,2) up'] obtain c1
    where h: "handle_event (main_hooks cr) e s = ws_call main_user (Recv_wrapper (Some On_recv)) a (put a c1 s)"
      and c1: "decode_buffer c1 = decode_buffer c @ xs" "is_connected c1 = is_connected c" "send_buffer_queue c1 = send_buffer_queue c"
        "steady c c1" "length (decode_buffer c @ xs) < 2 ^ 64" by blast
  have sock: "sockfd c1 = fd" using c1(4) c(3) by (simp add: steady_def)
  show ?thesis
  proof (cases "is_connected c = CONNECTED")
    case True
    let ?c2 = "(queued (spoken (decode_buffer c @ xs)) c1)\<lparr>decode_buffer := []\<rparr>"
    have "handle_event (main_hooks cr) e s = Inr (put a ?c2 (sending fd s))"
      using h True c1 sock
      by (simp add: ws_call_def main_user_def ws_send_def get_message_def send_frame_rfc send_put sending_put spoken_def)
    moreover have "steady c ?c2" using c1(4) by (simp add: steady_def queued_def)
    ultimately show ?thesis
      by (rule follows_queued [OF ch c(1,2,7), where c' = ?c2 and g = "\<lambda>c. if phase_of c = Open then post (spoken (heard c @ xs)) (c\<lparr>heard := []\<rparr>) else c\<lparr>heard := heard c @ xs\<rparr>"])
        (use c(8) c1 True in \<open>simp_all add: calm_def post_def view_def queued_def client_phase_def spoken_def\<close>)
  next
    case False
    then have wait: "client_phase c = Answered" "client_phase c1 = Answered"
      using up' c1(2) by (cases "is_connected c"; simp)+
    have "handle_event (main_hooks cr) e s = Inr (put a c1 s)" using h False c1 by (simp add: ws_call_def)
    moreover have "settled (put a c1 s)"
      by (rule settled_put [OF chattingD(3) [OF ch] c(2) c1(4)]) (use c(8) c1 in \<open>simp_all add: calm_def\<close>)
    moreover have "view (armed_at fd s) c1 = (view (armed_at fd s) c)\<lparr>heard := decode_buffer c @ xs\<rparr>"
      using c1 wait by (simp add: view_def)
    moreover have "session_at s fd = Some (view (armed_at fd s) c)" using c by (simp add: session_at_def)
    ultimately show ?thesis
      using put_chat [OF chattingD(1) [OF ch] c(1), of c1] wait by (simp add: follows_def on_session_def)
  qed
qed

lemma garble_follows:
  assumes ch: "chatting cr s" and o: "offers cr e (Garble fd xs) (chat_of s)"
  shows "follows cr e (Garble fd xs) s"
proof -
  from o obtain v mk where l: "on_line e (chat_of s) fd v" and up: "upgraded v"
    and m: "reading e (rfc_frame True TEXT_FRAME mk xs)" "good_frame (mk, xs)"
      "length (heard v) + length (rfc_frame True TEXT_FRAME mk xs) < 2 ^ 31" "\<not> validate_utf8 (heard v @ xs)" by auto
  from on_lineE [OF ch l] obtain a c where c: "clients s fd = Some a" "heap s a = Some c" "sockfd c = fd"
    "v = view (armed_at fd s) c" "ev_fd e = fd" "fd \<noteq> listen_fd s" "interest s fd \<noteq> None" "calm c" by metis
  let ?frame = "closing (junk (chat_of s)) INTERNAL_UTF8"
  have f: "close_frame (stack_rest s) INTERNAL_UTF8 = Inr ?frame"
    using close_frame_closing chattingD(3) [OF ch] by (simp add: settled_def)
  have up': "is_connected c \<noteq> NONE" and hb: "\<not> heartbeat s \<or> time_wheel_heartbeat_id c = 0"
    and len: "length (decode_buffer c) + length (rfc_frame True TEXT_FRAME mk xs) < 2 ^ 63" "length (rfc_frame True TEXT_FRAME mk xs) < 2 ^ 31"
    and bad: "\<not> validate_utf8 (decode_buffer c @ xs)"
    using up m(3,4) c(4,8) by (simp_all add: calm_def)
  from text_frame_invalid [OF c(2) up' m(2) refl len bad hb f, of cr main_user] obtain c'
    where d: "ws_decode_proto_data cr main_user a (rfc_frame True TEXT_FRAME mk xs) s = Inr (False, put a c' (sending fd s))"
    and c': "decode_buffer c' = decode_buffer c @ xs" "send_buffer_queue c' = send_buffer_queue c @ [?frame]"
      "is_connected c' = is_connected c" "steady c c'"
    unfolding get_message_def c(3) by blast
  have ph: "client_phase c' = client_phase c" using c'(3) up' by (simp add: client_phase_def split: connection_state.splits)
  have "handle_event (main_hooks cr) e s = Inr (put a c' (sending fd s))"
    by (rule handle_silent [OF m(1) _ _ _ d]) (use c in simp_all)
  then show ?thesis
    by (rule follows_queued [OF ch c(1,2,7) _ c'(4), where g = "\<lambda>c. post ?frame (c\<lparr>heard := heard c @ xs\<rparr>)"])
      (use c(8) c' ph in \<open>simp_all add: calm_def post_def view_def closing_def\<close>)
qed

lemma ping_follows:
  assumes ch: "chatting cr s" and o: "offers cr e (Ping fd) (chat_of s)"
  shows "follows cr e (Ping fd) s"
proof -
  from o obtain v f mk xs tail where l: "on_line e (chat_of s) fd v" and up: "upgraded v"
    and m: "reading e (rfc_frame f PING mk xs @ tail)" by auto
  from on_lineE [OF ch l] obtain a c where c: "clients s fd = Some a" "heap s a = Some c" "sockfd c = fd"
    "v = view (armed_at fd s) c" "ev_fd e = fd" "fd \<noteq> listen_fd s" "interest s fd \<noteq> None" "calm c" by metis
  have up': "is_connected c \<noteq> NONE" using up c(4) by simp
  let ?data = "rfc_frame f PING mk xs @ tail"
  let ?c1 = "c\<lparr>recv_buffer := ?data, wb_header := rfc_header f PING (mk \<noteq> None) (length xs)\<rparr>"
  let ?c' = "queued pong_frame ?c1"
  have ph: "client_phase ?c' = client_phase c" using up' by (simp add: client_phase_def queued_def split: connection_state.splits)
  have "handle_event (main_hooks cr) e s = Inr (put a ?c' (sending fd s))"
    by (rule handle_silent [OF m]) (use c ping_decoded [OF c(2) up' refl, of cr main_user f mk xs tail] in \<open>simp_all add: pong_frame_def\<close>)
  moreover have "steady c ?c'" by simp (simp add: steady_def)
  ultimately show ?thesis
    by (rule follows_queued [OF ch c(1,2,7), where g = "post pong_frame"])
      (use c(8) ph in \<open>simp_all add: calm_def post_def view_def pong_frame_def queued_def\<close>)
qed

text \<open>The end of a session.\<close>

definition gone :: "addr \<Rightarrow> int \<Rightarrow> main_process \<Rightarrow> main_process" where
  "gone a fd s = (detach fd s)\<lparr>wb_clients := removeAll a (wb_clients s), heap := (heap s)(a := None)\<rparr>"

lemma detach_more [simp]:
  "wb_clients (detach fd s) = wb_clients s" "listen_fd (detach fd s) = listen_fd s" "stop (detach fd s) = stop s"
  "interest (detach fd s) = (interest s)(fd := None)"
  by (auto simp: detach_def ctl_del_def sys_close_def)

lemma gone_simps [simp]:
  "heap (gone a fd s) = (heap s)(a := None)" "clients (gone a fd s) = (clients s)(fd := None)" "wire (gone a fd s) = wire s"
  "open_fds (gone a fd s) = open_fds s - {fd}" "wb_clients (gone a fd s) = removeAll a (wb_clients s)"
  "listen_fd (gone a fd s) = listen_fd s" "stack_rest (gone a fd s) = stack_rest s" "interest (gone a fd s) = (interest s)(fd := None)"
  "stop (gone a fd s) = stop s"
  by (simp_all add: gone_def)

lemma gone_put_sending: "gone a fd (put a c (sending fd s)) = gone a fd s"
proof -
  have "ctl_del fd (sys_close fd (ctl_mod fd ev s)) = ctl_del fd (sys_close fd s)" for ev
    by (simp add: ctl_mod_def ctl_del_def sys_close_def)
  then show ?thesis
    by (simp add: gone_def detach_def put_def sending_def ctl_del_def sys_close_def ctl_mod_def)
qed

lemma close_leaves:
  assumes c: "heap s a = Some c" "calm c" and d: "disconnect_f s = Some (User On_disconnect)"
    and h: "call h = ws_call main_user" "destructor h = ws_destructor"
  shows "close_client h a s = Inr (gone a (sockfd c) s)"
proof -
  let ?t = "(detach (sockfd c) s)\<lparr>wb_clients := removeAll a (wb_clients s)\<rparr>"
  have "ws_destructor a ?t = Inr ?t" using c by (intro ws_destructor_plain [of ?t a c]) (simp_all add: calm_def)
  then have "delete_client h a ?t = Inr (gone a (sockfd c) s)"
    using c(1) h(2) by (simp add: delete_client_def gone_def)
  then show ?thesis
    using c(1) d h(1) by (simp add: close_client_live call_opt_def ws_call_def main_user_def)
qed

lemma gone_follows:
  assumes ch: "chatting cr s" and cl: "clients s fd = Some a" "heap s a = Some c" "sockfd c = fd"
    and step: "handle_event (main_hooks cr) e s = Inr (gone a fd s)"
  shows "follows cr e (Leave fd) s"
proof -
  note ok = chattingD(1) [OF ch] and other = other_client [OF chattingD(1) [OF ch] cl(1)]
  have "session_at (gone a fd s) = (session_at s)(fd := None)"
    using other by (auto simp: session_at_def armed_at_def fun_eq_iff split: option.splits)
  then have "chat_of (gone a fd s) = chat_step (Leave fd) (chat_of s)" by (simp add: chat_of_def)
  moreover have "sockfd c' \<noteq> fd" if "heap s b = Some c'" "b \<noteq> a" for b c'
    using ok that cl unfolding server_inv_def by (metis empty_iff option.inject)
  then have "settled (gone a fd s)"
    using chattingD(3) [OF ch] unfolding settled_def by simp
  ultimately show ?thesis using step by (auto simp: follows_def)
qed

lemma close_event_gone:
  assumes ch: "chatting cr s" and c: "clients s fd = Some a" "heap s a = Some c" "sockfd c = fd" "ev_fd e = fd" "fd \<noteq> listen_fd s" "calm c"
    and frame: "is_connected c \<noteq> NONE" "reading e (rfc_frame f CLOSE mk xs @ tail)"
  shows "handle_event (main_hooks cr) e s = Inr (gone a fd s)"
proof -
  have d: "disconnect_f s = Some (User On_disconnect)" using chattingD(2) [OF ch] by (simp add: main_knows_def)
  let ?data = "rfc_frame f CLOSE mk xs @ tail" and ?hd = "rfc_header f CLOSE (mk \<noteq> None) (length xs)"
  let ?c1 = "c\<lparr>recv_buffer := ?data, wb_header := ?hd\<rparr>"
  let ?frame = "closing (takeWhile (\<lambda>b. b \<noteq> 0) (stack_rest s)) NORMAL_CLOSE"
  let ?s2 = "put a (queued ?frame ?c1) (sending fd s)"
  have f: "close_frame (stack_rest s) NORMAL_CLOSE = Inr ?frame"
    using close_frame_closing chattingD(3) [OF ch] by (simp add: settled_def)
  have "?data = header_bytes ?hd @ (snd (rfc_len (length xs)) @ rfc_payload mk xs @ tail)"
    by (simp add: rfc_frame_def)
  from ws_decode_frame [OF c(2) frame(1) this, of cr main_user]
  have start: "ws_decode_proto_data cr main_user a ?data s = dispatch_frame main_user a CLOSE (put a ?c1 s)"
    by (simp add: rfc_header_def)
  have "close_websocket_client a NORMAL_CLOSE (put a ?c1 s) = Inr ?s2"
    using close_websocket_client_put [of "put a ?c1 s" a ?c1 NORMAL_CLOSE ?frame] f c(3,6) by (simp add: sending_put calm_def)
  moreover have "close_client (ws_objects main_user) a ?s2 = Inr (gone a fd s)"
    using close_leaves [of ?s2 a "queued ?frame ?c1" "ws_objects main_user"] c(3,6) d
    by (simp add: ws_objects_def gone_put_sending calm_def queued_def closing_def)
  ultimately have "ws_decode_proto_data cr main_user a ?data s = Inr (False, gone a fd s)"
    using start c(6) by (simp add: dispatch_frame_def on_close_frame_def calm_def)
  then show ?thesis by (intro handle_silent [OF frame(2)]) (use c in simp_all)
qed

lemma leave_follows:
  assumes ch: "chatting cr s" and o: "offers cr e (Leave fd) (chat_of s)"
  shows "follows cr e (Leave fd) s"
proof -
  let ?h = "main_hooks cr"
  from o obtain v where l: "on_line e (chat_of s) fd v" and how: "ev_events e AND (EPOLLHUP OR EPOLLRDHUP OR EPOLLERR) \<noteq> 0
      \<or> ev_events e = EPOLLIN \<and> (\<exists>rs. recvs e = End_of_stream # rs)
      \<or> upgraded v \<and> (\<exists>f mk xs tail. reading e (rfc_frame f CLOSE mk xs @ tail))"
    unfolding offers.simps by blast
  from on_lineE [OF ch l] obtain a c where c: "clients s fd = Some a" "heap s a = Some c" "sockfd c = fd"
    "v = view (armed_at fd s) c" "ev_fd e = fd" "fd \<noteq> listen_fd s" "calm c" by metis
  have d: "disconnect_f s = Some (User On_disconnect)" using chattingD(2) [OF ch] by (simp add: main_knows_def)
  have obj: "destructor ?h = ws_destructor"
    by (simp add: main_hooks_def ws_hooks_def objects.extend_def hooks.fields_def ws_objects_def)
  have close: "close_client ?h a s = Inr (gone a fd s)"
    using close_leaves [OF c(2,7) d, of ?h] c(3) obj by simp
  consider (hup) "ev_events e AND (EPOLLHUP OR EPOLLRDHUP OR EPOLLERR) \<noteq> 0"
    | (eof) rs where "ev_events e = EPOLLIN" "recvs e = End_of_stream # rs"
    | (frame) f mk xs tail where "is_connected c \<noteq> NONE" "reading e (rfc_frame f CLOSE mk xs @ tail)"
    using how c(4) by auto
  then have "handle_event ?h e s = Inr (gone a fd s)"
  proof cases
    case hup
    then show ?thesis using c close by (simp add: handle_event_def)
  next
    case eof
    have "EPOLLIN AND (EPOLLHUP OR EPOLLRDHUP OR EPOLLERR) = 0" "EPOLLIN AND EPOLLIN \<noteq> 0"
      by (simp_all add: epoll_defs)
    with eof c close show ?thesis
      by (simp add: handle_event_def on_readable_def deliver_def)
  next
    case frame
    then show ?thesis using close_event_gone [OF ch c(1,2,3,5,6,7)] by blast
  qed
  then show ?thesis by (rule gone_follows [OF ch c(1,2,3)])
qed

lemma nothing_follows:
  assumes ch: "chatting cr s" and o: "offers cr e Nothing (chat_of s)"
  shows "follows cr e Nothing s"
proof (cases "session_at s (ev_fd e)")
  case None
  then have "clients s (ev_fd e) = None" by (rule session_none [OF chattingD(1) [OF ch]])
  moreover have "accepts e = None" using o by simp
  ultimately have "handle_event (main_hooks cr) e s = Inr s"
    by (simp add: handle_event_def on_accept_def on_readable_def on_writable_def)
  then show ?thesis using chattingD(3) [OF ch] by (simp add: follows_def)
next
  case (Some w)
  with o obtain fd v where l: "on_line e (chat_of s) fd v"
    and how: "reading e [] \<or> upgraded v \<and> (\<exists>f mk xs tail. reading e (rfc_frame f PONG mk xs @ tail))"
    unfolding offers.simps chat_of_simps by (metis option.discI)
  from on_lineE [OF ch l] obtain a c where c: "clients s fd = Some a" "heap s a = Some c" "sockfd c = fd"
    "v = view (armed_at fd s) c" "ev_fd e = fd" "fd \<noteq> listen_fd s" "calm c" by metis
  from how c(4) consider (idle) "reading e []" | (answer) f mk xs tail where "is_connected c \<noteq> NONE" "reading e (rfc_frame f PONG mk xs @ tail)"
    by auto
  then show ?thesis
  proof cases
    case idle
    then have "handle_event (main_hooks cr) e s = Inr s"
      using handle_reading [OF idle, of s a "main_hooks cr"] c by (simp add: deliver_def)
    then show ?thesis using chattingD(3) [OF ch] by (simp add: follows_def)
  next
    case answer
    let ?data = "rfc_frame f PONG mk xs @ tail" and ?hd = "rfc_header f PONG (mk \<noteq> None) (length xs)"
    let ?c1 = "c\<lparr>recv_buffer := ?data, wb_header := ?hd\<rparr>"
    have "?data = header_bytes ?hd @ (snd (rfc_len (length xs)) @ rfc_payload mk xs @ tail)"
      by (simp add: rfc_frame_def)
    from ws_decode_frame [OF c(2) answer(1) this, of cr main_user]
    have "ws_decode_proto_data cr main_user a ?data s = Inr (False, put a ?c1 s)"
      using c(7) by (simp add: rfc_header_def dispatch_frame_def opcode_defs calm_def)
    then have "handle_event (main_hooks cr) e s = Inr (put a ?c1 s)"
      by (intro handle_silent [OF answer(2)]) (use c in simp_all)
    moreover have "settled (put a ?c1 s)"
      by (rule settled_put [OF chattingD(3) [OF ch] c(2)]) (use c(7) in \<open>simp_all add: steady_def calm_def\<close>)
    moreover have "view w ?c1 = view w c" for w by (simp add: view_def client_phase_def)
    then have "chat_of (put a ?c1 s) = chat_of s"
      using put_chat [OF chattingD(1) [OF ch] c(1), of ?c1] c by (simp add: chat_of_def session_at_def fun_upd_idem)
    ultimately show ?thesis by (auto simp: follows_def)
  qed
qed

text \<open>A new session.\<close>

lemma reads_not_writes [simp]: "EPOLLIN OR EPOLLET \<noteq> reads_writes" "EPOLLIN OR EPOLLRDHUP OR EPOLLET \<noteq> reads_writes"
  by (simp_all add: epoll_defs)

lemma join_follows:
  assumes ch: "chatting cr s" and o: "offers cr e (Join fd) (chat_of s)"
  shows "follows cr e (Join fd) s"
proof -
  from o have arr: "arriving e fd s" by (simp add: arriving_def)
  from o obtain peer rand where a: "accepts e = Some (fd, peer, rand)" and new: "fd \<notin> open_fds s" "fd \<noteq> listen_fd s" by auto
  note ok = chattingD(1) [OF ch]
  let ?c = "(new_websocket_client rand)\<lparr>sockfd := fd, ip := inet_ntop (sin_addr peer), port := int (ntohs (sin_port peer))\<rparr>"
  have off: "interest s fd = None" using chattingD(3) [OF ch] new(1) by (simp add: settled_def)
  obtain t where step: "handle_event (main_hooks cr) e s = Inr t" and
    fields: "heap t = (heap s)(next_addr s \<mapsto> ?c)" "clients t = (clients s)(fd \<mapsto> next_addr s)" "wire t = wire s"
      "listen_fd t = listen_fd s" "open_fds t = insert fd (open_fds s)" "stack_rest t = stack_rest s" "wb_clients t = wb_clients s"
      "interest t = (interest s)(fd \<mapsto> EPOLLIN OR EPOLLET)" "stop t = stop s"
    using off arrival_state [OF chattingD(1) [OF ch] chattingD(2) [OF ch] arr a] by (simp add: accepted_def ctl_add_def)
  have c: "client_phase ?c = Opening" "decode_buffer ?c = []" "send_buffer_queue ?c = []" "calm ?c" "is_connected ?c = NONE"
    by (simp_all add: client_phase_def new_websocket_client_def new_tcp_client_def calm_def)
  have fresh: "heap s (next_addr s) = None" using ok by (cases "heap s (next_addr s)") (auto simp: server_inv_def)
  then have old: "next_addr s \<notin> set (wb_clients s)" using chattingD(2) [OF ch] by (auto simp: main_knows_def)
  have others: "b \<noteq> next_addr s" if "clients s fd' = Some b" for fd' b
    using server_inv_client [OF ok that] fresh by auto
  have "session_at t fd' = ((session_at s)(fd \<mapsto> new_session)) fd'" for fd'
    using c others by (auto simp: session_at_def armed_at_def fields new_session_def view_def split: option.splits)
  then have "chat_of t = chat_step (Join fd) (chat_of s)"
    by (simp add: chat_of_def fields fun_eq_iff)
  moreover have "sockfd c' \<noteq> fd" if "heap s b = Some c'" for b c'
    using ok that new(1) unfolding server_inv_def by (metis empty_iff)
  then have "settled t"
    using chattingD(3) [OF ch] c old new(2) fresh unfolding settled_def fields by (simp add: fun_upd_def)
  ultimately show ?thesis using step by (auto simp: follows_def)
qed

text \<open>A line takes what waits for it; the greeting, if the session opens with that.\<close>

lemma greet_all_interest:
  "greet_all vs s = Inr s'
   \<Longrightarrow> (\<And>v c. v \<in> set vs \<Longrightarrow> heap s v = Some c \<Longrightarrow> sockfd c \<in> open_fds s \<and> interest s (sockfd c) \<noteq> None)
   \<Longrightarrow> open_fds s' = open_fds s \<and> stack_rest s' = stack_rest s \<and> stop s' = stop s
     \<and> interest s' fd = (if \<exists>v \<in> set vs. \<exists>c. heap s v = Some c \<and> sockfd c = fd then Some reads_writes else interest s fd)"
proof (induction vs arbitrary: s)
  case Nil
  then show ?case by simp
next
  case (Cons v vs)
  from Cons.prems(1) obtain s1 where r: "ws_send v (bytes_of ''hello world'') s = Inr s1" "greet_all vs s1 = Inr s'"
    by (auto simp del: bytes_of_simps)
  from r(1) obtain c where c: "heap s v = Some c"
    by (auto simp: ws_send_def server_send_buffer_def dest: modify_InrD simp del: bytes_of_simps)
  from r(1) obtain d where s1: "s1 = put v (queued d c) (sending (sockfd c) s)"
    using send_put [OF c] by (auto simp: ws_send_def simp del: bytes_of_simps)
  have i: "interest (sending (sockfd c) s) = (interest s)(sockfd c \<mapsto> reads_writes)"
    using Cons.prems(2) [of v c] c by (intro sending_interest) auto
  have "sockfd c' \<in> open_fds s1 \<and> interest s1 (sockfd c') \<noteq> None" if "w \<in> set vs" "heap s1 w = Some c'" for w c'
    using that Cons.prems(2) [of w] Cons.prems(2) [of v c] c by (cases "w = v") (auto simp: s1 i)
  from Cons.IH [OF r(2) this] have "open_fds s' = open_fds s" "stack_rest s' = stack_rest s" "stop s' = stop s"
    "interest s' fd = (if \<exists>w \<in> set vs. \<exists>c. heap s1 w = Some c \<and> sockfd c = fd then Some reads_writes else interest s1 fd)"
    by (simp_all add: s1)
  moreover have "(\<exists>c'. heap s1 w = Some c' \<and> sockfd c' = fd) = (\<exists>c'. heap s w = Some c' \<and> sockfd c' = fd)" for w
    using c by (auto simp: s1)
  ultimately show ?case using c by (auto simp: s1 i)
qed

lemma client_phase_open: "client_phase c = Open \<longleftrightarrow> is_connected c = CONNECTED"
  by (simp add: client_phase_def split: connection_state.splits)

lemma drained_more [simp]: 
  "stack_rest (drained fd a d s) = stack_rest s" "wb_clients (drained fd a d s) = wb_clients s" "stop (drained fd a d s) = stop s"
  by (simp_all add: drained_def ctl_mod_def take_bytes_def with_queue_def)

lemma flush_plain:
  assumes ch: "chatting cr s" and w: "pushing e (length (concat (send_buffer_queue c)))"
    and c: "clients s fd = Some a" "heap s a = Some c" "sockfd c = fd" "fd \<in> open_fds s" "ev_fd e = fd" "interest s fd \<noteq> None" "calm c"
    and plain: "is_connected c \<noteq> WAIT_SHAKE"
  shows "follows cr e (Flush fd (sends e)) s"
proof -
  let ?d = "concat (swallows (sends e) (send_buffer_queue c))"
  let ?s1 = "drained fd a ?d s" and ?c1 = "c\<lparr>send_buffer_queue := []\<rparr>"
  have "handle_event (main_hooks cr) e s = call_opt (main_hooks cr) (sent_f s) a ?s1"
    using pushing_drained [OF w, of s a "main_hooks cr"] c by (simp add: calm_def)
  also have "\<dots> = Inr ?s1"
    using chattingD(2) [OF ch] plain c(2) by (simp add: main_knows_def call_opt_def ws_call_def)
  finally have step: "handle_event (main_hooks cr) e s = Inr ?s1" .
  have here: "session_at s fd = Some (view (armed_at fd s) c)" using c by (simp add: session_at_def)
  have ph: "client_phase ?c1 = client_phase c" "client_phase c \<noteq> Answered"
    using plain by (simp_all add: client_phase_def split: connection_state.splits)
  then have "session_at ?s1 fd' = ((session_at s)(fd \<mapsto> flushed (view (armed_at fd s) c))) fd'" for fd'
    using c other_client [OF chattingD(1) [OF ch] c(1)]
    by (auto simp: session_at_def armed_at_def flushed_def view_def split: option.splits)
  then have "chat_of ?s1 = chat_step (Flush fd (sends e)) (chat_of s)"
    using here ph by (simp add: chat_of_def Let_def on_session_def fun_eq_iff)
  moreover have "settled ?s1"
    using chattingD(3) [OF ch] settled_client [OF chattingD(3) [OF ch] c(2)] c by (simp add: settled_def calm_def)
  ultimately show ?thesis using step by (auto simp: follows_def)
qed

lemma settled_greeted:
  assumes s: "settled s" and t: "heap t = greeted (set (wb_clients s)) (heap s)" "listen_fd t = listen_fd s"
      "wb_clients t = wb_clients s" "stack_rest t = stack_rest s" "open_fds t = open_fds s" "stop t = stop s"
    and int: "\<And>fd. interest t fd = (if \<exists>v \<in> set (wb_clients s). \<exists>c. heap s v = Some c \<and> sockfd c = fd then Some reads_writes else interest s fd)"
    and socks: "\<And>v c. heap s v = Some c \<Longrightarrow> sockfd c \<in> open_fds s"
  shows "settled t"
proof -
  have "calm c \<and> sockfd c \<noteq> listen_fd t \<and> interest t (sockfd c) \<noteq> None \<and> (is_connected c = CONNECTED \<longleftrightarrow> v \<in> set (wb_clients t))"
    if "heap t v = Some c" for v c
  proof -
    from that obtain c0 where c0: "heap s v = Some c0" "c = c0 \<or> c = queued hello c0"
      by (auto simp: t(1) greeted_def split: if_splits)
    then show ?thesis using settled_client [OF s c0(1)] by (auto simp: t int calm_def queued_def)
  qed
  moreover have "interest t fd = None" if "fd \<notin> open_fds t" for fd
    using that s socks by (auto simp: int t(5) settled_def)
  ultimately show ?thesis using s by (simp add: settled_def t(4,6))
qed

text \<open>The answer is out: the session is open, and everybody who is open is greeted.\<close>

lemma flush_opens:
  assumes ch: "chatting cr s" and w: "pushing e (length (concat (send_buffer_queue c)))"
    and c: "clients s fd = Some a" "heap s a = Some c" "sockfd c = fd" "fd \<in> open_fds s" "ev_fd e = fd" "interest s fd \<noteq> None" "calm c"
    and wait: "is_connected c = WAIT_SHAKE"
  shows "follows cr e (Flush fd (sends e)) s"
proof -
  note ok = chattingD(1) [OF ch] and quiet = chattingD(3) [OF ch]
  let ?c2 = "c\<lparr>send_buffer_queue := [], is_connected := CONNECTED\<rparr>"
  let ?d = "concat (swallows (sends e) (send_buffer_queue c))"
  define s2 where "s2 = (put a ?c2 (drained fd a ?d s))\<lparr>wb_clients := a # wb_clients s\<rparr>"
  have s2: "heap s2 = (heap s)(a \<mapsto> ?c2)" "clients s2 = clients s" "wire s2 = (wire s)(fd := wire s fd @ ?d)"
    "open_fds s2 = open_fds s" "listen_fd s2 = listen_fd s" "stack_rest s2 = stack_rest s" "wb_clients s2 = a # wb_clients s"
    "interest s2 = (interest s)(fd \<mapsto> EPOLLIN OR EPOLLRDHUP OR EPOLLET)" "stop s2 = stop s"
    using c by (simp_all add: s2_def)
  have new: "a \<notin> set (wb_clients s)" using settled_client [OF quiet c(2)] wait by simp
  have members: "set (a # wb_clients s) \<subseteq> dom (heap s2)" "distinct (a # wb_clients s)"
    using chattingD(2) [OF ch] new by (auto simp: main_knows_def s2)
  from greet_all_greets [OF this] obtain t where step: "greet_all (a # wb_clients s) s2 = Inr t"
    and t: "heap t = greeted (set (wb_clients s2)) (heap s2)" "wire t = wire s2" "clients t = clients s2" "wb_clients t = wb_clients s2"
      "listen_fd t = listen_fd s2" by (auto simp: s2)
  have sock: "clients s (sockfd cv) = Some v \<and> sockfd cv \<in> open_fds s" if "heap s v = Some cv" for v cv
    using ok that server_inv_client [OF ok] unfolding server_inv_def by blast
  have t2: "open_fds t = open_fds s2 \<and> stack_rest t = stack_rest s2 \<and> stop t = stop s2
      \<and> interest t fd' = (if \<exists>v \<in> set (wb_clients s2). \<exists>c. heap s2 v = Some c \<and> sockfd c = fd' then Some reads_writes else interest s2 fd')" for fd'
    unfolding s2(7) by (rule greet_all_interest [OF step]) (use c sock settled_client [OF quiet] in \<open>auto simp: s2 split: if_splits\<close>)
  have "settled s2"
    using quiet c unfolding settled_def s2 by (auto simp: calm_def)
  then have "settled t"
    by (rule settled_greeted) (use t t2 sock c in \<open>auto simp: s2 split: if_splits\<close>)
  moreover have "session_at t fd' = (map_option greet \<circ> (session_at s)(fd \<mapsto> flushed (view (armed_at fd s) c))) fd'" for fd'
  proof (cases "clients s fd'")
    case None
    then show ?thesis using c(1) t by (auto simp: session_at_def s2)
  next
    case (Some b)
    then obtain cb where b: "heap s b = Some cb" "sockfd cb = fd'" "clients s fd' = Some b"
      using server_inv_client [OF ok] by blast
    let ?cb = "if fd' = fd then ?c2 else cb"
    have cb: "heap s2 b = Some ?cb" "sockfd ?cb = fd'"
      using b c other_client [OF ok c(1) Some] by (auto simp: s2)
    have one: "(\<exists>v \<in> set (wb_clients s2). \<exists>c. heap s2 v = Some c \<and> sockfd c = fd') \<longleftrightarrow> b \<in> set (wb_clients s2)"
    proof -
      have "v = b" if "heap s2 v = Some c'" "sockfd c' = fd'" for v c'
        using that sock [of v] b(3) c by (cases "v = a") (auto simp: s2)
      then show ?thesis using cb by blast
    qed
    have "b \<in> set (wb_clients s2) \<longleftrightarrow> client_phase ?cb = Open"
      using settled_client [OF \<open>settled s2\<close> cb(1)] by (simp add: client_phase_open)
    moreover have "client_phase (queued x cv) = client_phase cv" for x cv by (simp add: client_phase_def queued_def)
    moreover have "view w ?c2 = (flushed (view w c))\<lparr>armed := w\<rparr>" for w using wait by (simp add: view_def flushed_def)
    ultimately show ?thesis using Some b cb c t t2 [of fd'] one
      by (auto simp: session_at_def armed_at_def s2 greeted_def view_def greet_def post_def flushed_def spoken_def queued_def simp del: bytes_of_simps)
  qed
  then have "chat_of t = chat_step (Flush fd (sends e)) (chat_of s)"
    using c wait t t2 by (simp add: chat_of_def Let_def on_session_def fun_eq_iff s2 session_at_def)
  moreover have h: "handle_event (main_hooks cr) e s = call_opt (main_hooks cr) (sent_f s) a (drained (ev_fd e) a ?d s)"
    using pushing_drained [OF w, of s a "main_hooks cr"] c by (simp add: calm_def)
  have "handle_event (main_hooks cr) e s = Inr t"
    using answer_state_of [OF chattingD(4) [OF ch] h c(2) wait new] step c(5) by (simp add: s2_def del: greet_all.simps)
  ultimately show ?thesis by (auto simp: follows_def)
qed

lemma flush_follows:
  assumes ch: "chatting cr s" and o: "offers cr e (Flush fd rs) (chat_of s)"
  shows "follows cr e (Flush fd rs) s"
proof -
  from o obtain v where l: "on_line e (chat_of s) fd v" and w: "pushing e (length (concat (outbox v)))" and rs: "rs = sends e" by auto
  from on_lineE [OF ch l] obtain a c where c: "clients s fd = Some a" "heap s a = Some c" "sockfd c = fd"
    "v = view (armed_at fd s) c" "fd \<in> open_fds s" "ev_fd e = fd" "interest s fd \<noteq> None" "calm c" by metis
  then have "pushing e (length (concat (send_buffer_queue c)))" using w by simp
  with rs flush_plain [OF ch this c(1,2,3,5,6,7,8)] flush_opens [OF ch this c(1,2,3,5,6,7,8)] show ?thesis by blast
qed

section \<open>Runs\<close>

text \<open>A script: events with what they mean, each of which fits the chat that the ones before it lead to.\<close>

fun script :: "crypto \<Rightarrow> (event \<times> act) list \<Rightarrow> chat \<Rightarrow> bool" where
  "script cr [] ch \<longleftrightarrow> True"
| "script cr ((e, act) # sc) ch \<longleftrightarrow> offers cr e act ch \<and> script cr sc (chat_step act ch)"

lemma offers_fresh: "offers cr e act (chat_of s) \<Longrightarrow> fresh_fd e s"
  by (cases act) (auto simp: fresh_fd_def requesting_def carrying_def reading_def pushing_def)

lemma offers_fair:
  assumes ch: "chatting cr s" and o: "offers cr e act (chat_of s)"
  shows "fair act (chat_of s)"
proof (cases act)
  case (Flush fd rs)
  with o obtain v where l: "on_line e (chat_of s) fd v" and w: "pushing e (length (concat (outbox v)))" and rs: "rs = sends e" by auto
  from on_lineE [OF ch l] obtain c where c: "v = view (armed_at fd s) c" "calm c" by metis
  then have "[] \<notin> set (outbox v)" by (simp add: calm_def)
  with swallows_uses [of rs "outbox v"] w rs obtain used rest where
    "rs = used @ rest" "count_list used Send_again = cut_short (swallows rs (outbox v)) (outbox v)" by (auto simp: pushing_def)
  then have "cut_short (swallows rs (outbox v)) (outbox v) \<le> count_list rs Send_again" by simp
  then show ?thesis using l Flush by (simp add: on_line_def)
qed simp_all

lemma step_follows:
  assumes ch: "chatting cr s" and sizes: "openssl_sizes cr" and o: "offers cr e act (chat_of s)"
  shows "\<exists>s'. handle_event (main_hooks cr) e s = Inr s' \<and> chat_of s' = chat_step act (chat_of s) \<and> chatting cr s'"
proof -
  have "follows cr e act s"
  proof (cases act)
    case (Ask fd answer)
    then show ?thesis using ask_follows [OF ch sizes] o by blast
  qed (use o join_follows [OF ch] refuse_follows [OF ch] say_follows [OF ch] garble_follows [OF ch] ping_follows [OF ch]
      leave_follows [OF ch] flush_follows [OF ch] nothing_follows [OF ch] in blast)+
  then obtain s' where s': "handle_event (main_hooks cr) e s = Inr s'" "chat_of s' = chat_step act (chat_of s)" "settled s'"
    by (auto simp: follows_def)
  moreover have "main_run cr s'" by (rule main_run.event [OF chattingD(4) [OF ch] offers_fresh [OF o] s'(1)])
  ultimately show ?thesis by (auto simp: chatting_def)
qed

lemma script_follows:
  "chatting cr s \<Longrightarrow> openssl_sizes cr \<Longrightarrow> script cr sc (chat_of s) \<Longrightarrow>
   \<exists>s'. handle_events (main_hooks cr) (map fst sc) s = Inr s' \<and> chat_of s' = chat_run (map snd sc) (chat_of s) \<and> chatting cr s'
     \<and> all_fair (map snd sc) (chat_of s)"
proof (induction sc arbitrary: s)
  case Nil
  then show ?case by simp
next
  case (Cons p sc)
  obtain e act where p: "p = (e, act)" by (cases p)
  with Cons.prems have o: "offers cr e act (chat_of s)" and sc: "script cr sc (chat_step act (chat_of s))" by simp_all
  from step_follows [OF Cons.prems(1,2) o] obtain s1 where s1: "handle_event (main_hooks cr) e s = Inr s1"
    "chat_of s1 = chat_step act (chat_of s)" "chatting cr s1" by blast
  with sc have "script cr sc (chat_of s1)" by simp
  from Cons.IH [OF s1(3) Cons.prems(2) this] s1(1,2) offers_fair [OF Cons.prems(1) o] show ?case by (auto simp: p)
qed

text \<open>
  The event loop gets the events of a script in turns of \<^verbatim>\<open>epoll_wait\<close>, some of which fail; nothing stops it.
\<close>

definition delivered :: "event list option list \<Rightarrow> event list" where
  "delivered ws = concat (map (case_option [] id) ws)"

lemma script_append: "script cr (xs @ ys) ch \<longleftrightarrow> script cr xs ch \<and> script cr ys (chat_run (map snd xs) ch)"
proof (induction xs arbitrary: ch)
  case (Cons p xs)
  then show ?case by (cases p) (simp del: offers.simps chat_step.simps)
qed simp

lemma event_loop_follows:
  "chatting cr s \<Longrightarrow> openssl_sizes cr \<Longrightarrow> script cr sc (chat_of s) \<Longrightarrow> delivered ws = map fst sc \<Longrightarrow>
   \<exists>s'. event_loop (main_hooks cr) ws s = Inr s' \<and> chat_of s' = chat_run (map snd sc) (chat_of s) \<and> chatting cr s'"
proof (induction ws arbitrary: s sc)
  case Nil
  then show ?case by (simp add: delivered_def)
next
  case (Cons w ws)
  have runs: "\<not> stop s" using Cons.prems(1) by (simp add: chatting_def settled_def)
  show ?case
  proof (cases w)
    case None
    then show ?thesis using Cons runs by (simp add: delivered_def)
  next
    case (Some es)
    then have "map fst sc = es @ delivered ws" using Cons.prems(4) by (simp add: delivered_def)
    then obtain sc1 sc2 where sc: "sc = sc1 @ sc2" "es = map fst sc1" "delivered ws = map fst sc2"
      unfolding map_eq_append_conv by blast
    with Cons.prems(3) have two: "script cr sc1 (chat_of s)" "script cr sc2 (chat_run (map snd sc1) (chat_of s))"
      by (simp_all add: script_append)
    from script_follows [OF Cons.prems(1,2) two(1)] obtain s1 where s1: "handle_events (main_hooks cr) es s = Inr s1"
      "chat_of s1 = chat_run (map snd sc1) (chat_of s)" "chatting cr s1" using sc(2) by blast
    from Cons.IH [OF s1(3) Cons.prems(2) _ sc(3)] two(2) obtain s' where s': "event_loop (main_hooks cr) ws s1 = Inr s'"
      "chat_of s' = chat_run (map snd sc2) (chat_of s1)" "chatting cr s'" using s1(2) by auto
    have "chat_run (map snd sc) (chat_of s) = chat_of s'" using s'(2) s1(2) sc(1) by (simp add: chat_run_def)
    then show ?thesis using runs s' s1(1) Some by (simp add: event_loop_once_def)
  qed
qed

text \<open>The server that \<^verbatim>\<open>main\<close> has set up, in a process with a zero somewhere on its stack.\<close>

definition fresh_process :: "main_process \<Rightarrow> bool" where
  "fresh_process s \<longleftrightarrow> heap s = Map.empty \<and> 0 \<in> set (stack_rest s) \<and> (\<forall>fd. fd \<notin> open_fds s \<longrightarrow> interest s fd = None)"

lemma setup_chatting:
  assumes "fresh_process s0" and "main_setup fd bind_ret efd s0 = Inr s"
  shows "chatting cr s" "session_at s = Map.empty"
proof -
  have r: "heap s = Map.empty" "clients s = Map.empty" "stack_rest s = stack_rest s0"
    "\<forall>fd. fd \<notin> open_fds s \<longrightarrow> interest s fd = None" "\<not> stop s"
    using assms
    by (auto simp: fresh_process_def main_setup_def websocket_server_init_def tcp_server_init_def init_tcp_server_def
        init_epoll_def ctl_add_def Let_def ws_register_sent_callback_def ws_register_connected_callback_def
        ws_register_recv_callback_def register_sent_callback_def register_recv_callback_def
        register_disconnect_callback_def split: if_splits)
  moreover have "main_run cr s" using main_run.started_up [OF _ assms(2)] assms(1) by (simp add: fresh_process_def)
  ultimately show "chatting cr s" "session_at s = Map.empty"
    using assms(1) by (auto simp: chatting_def settled_def fresh_process_def session_at_def)
qed

text \<open>A client that connects, upgrades, says something and reads what it gets.\<close>

abbreviation sample_words :: "(bytes option \<times> bytes) list" where
  "sample_words \<equiv> [(Some [1, 2, 3, 4], bytes_of ''hel''), (None, bytes_of ''lo'')]"

definition sample_script :: "(event \<times> act) list" where
  "sample_script = [(sample_arrival, Join 7), (sample_reading [sample_get], Ask 7 sample_answer),
     (sample_writing (length sample_answer), Flush 7 (sends (sample_writing (length sample_answer)))),
     (sample_reading [message_bytes TEXT_FRAME sample_words], Say 7 (bytes_of ''hello''))]"

lemma sample_carrying: "carrying (sample_reading [message_bytes TEXT_FRAME sample_words]) [] (bytes_of ''hello'')"
proof -
  have r: "reading (sample_reading [message_bytes TEXT_FRAME sample_words]) (message_bytes TEXT_FRAME sample_words @ [])"
    using sample_events(2) [of "[message_bytes TEXT_FRAME sample_words]"] by (simp del: sample_events message_bytes.simps)
  have good: "\<forall>fr \<in> set sample_words. good_frame fr" by (simp add: good_frame_def plain_len_def rfc_len_def good_key_def)
  have len: "length (message_bytes TEXT_FRAME sample_words) = 13"
    by (simp add: rfc_frame_def rfc_len_def rfc_payload_def)
  have utf: "text_ok TEXT_FRAME sample_words []" by (simp add: text_ok_def)
  show ?thesis
    unfolding carrying_def
    by (rule exI [of _ sample_words], rule exI [of _ TEXT_FRAME], rule exI [of _ "[]"])
      (use r good len utf in \<open>simp del: message_bytes.simps\<close>)
qed

lemma sample_requesting: "requesting (sample_reading [sample_get]) sample_fields"
proof -
  have "reading (sample_reading [sample_get]) (sample_get @ [])"
    using sample_events(2) [of "[sample_get]"] by (simp del: sample_events)
  with sample_request show ?thesis unfolding requesting_def by blast
qed

lemma sample_pushing: "pushing (sample_writing n) n"
  by (simp add: pushing_def sample_writing_def unfailing_def)

lemma sample_swallows: "xs \<noteq> [] \<Longrightarrow> swallows (sends (sample_writing (length xs))) [xs] = [xs]"
  by (rule swallows_all) (auto simp: sample_writing_def unfailing_def)

lemma sample_script:
  assumes "sessions ch = Map.empty" and "door ch = 3" and "in_use ch = {0, 1, 2, 3, 4}"
  shows "script sample_crypto sample_script ch"
proof -
  have "offers sample_crypto sample_arrival (Join 7) ch"
    using assms by (simp add: sample_arrival_def)
  moreover have "offers sample_crypto (sample_reading [sample_get]) (Ask 7 sample_answer) ch'" if "sessions ch' 7 = Some new_session" for ch'
    using sample_requesting sample_upgrades that unfolding offers.simps on_line_def sample_events(1)
    by (intro exI [of _ new_session] exI [of _ sample_fields] exI conjI) (simp_all add: new_session_def)
  moreover have "offers sample_crypto (sample_writing (length sample_answer)) (Flush 7 (sends (sample_writing (length sample_answer)))) ch'"
    if "sessions ch' 7 = Some v" "outbox v = [sample_answer]" for ch' v
    using that sample_pushing [of "length sample_answer"] by (simp add: on_line_def)
  moreover have "offers sample_crypto (sample_reading [message_bytes TEXT_FRAME sample_words]) (Say 7 (bytes_of ''hello'')) ch'"
    if "sessions ch' 7 = Some v" "upgraded v" "heard v = []" for ch' v
    using that sample_carrying by (simp add: on_line_def del: message_bytes.simps bytes_of_simps)
  ultimately show ?thesis
    by (simp add: sample_script_def new_session_def upgraded_def greet_def flushed_def Let_def
        del: offers.simps message_bytes.simps bytes_of_simps)
qed

lemma fresh_main_init: "fresh_process main_init"
  by (simp add: fresh_process_def main_init_def process_init_def websocket_process.extend_def process.extend_def
      websocket_process.fields_def process.fields_def wheel.extend_def)

lemma main_started_stack: "stack_rest main_started = [0]"
  by (auto simp: main_started_def main_init_def main_setup_def websocket_server_init_def tcp_server_init_def init_tcp_server_def
      init_epoll_def ctl_add_def Let_def ws_register_sent_callback_def ws_register_connected_callback_def
      ws_register_recv_callback_def register_sent_callback_def register_recv_callback_def
      register_disconnect_callback_def process_init_def websocket_process.extend_def process.extend_def wheel.extend_def
      process.fields_def websocket_process.fields_def)

lemmas sample_start = setup_chatting [OF fresh_main_init main_started]

lemma sample_started_script: "script sample_crypto sample_script (chat_of main_started)"
  by (rule sample_script) (simp_all add: sample_start(2))

lemma sample_run:
  assumes "session_at s = Map.empty" and "wire s = (\<lambda>_. [])"
  shows "lines_of (chat_run (map snd sample_script) (chat_of s)) 7 = sample_answer"
    "map_option outbox (sessions (chat_run (map snd sample_script) (chat_of s)) 7)
      = Some [spoken (bytes_of ''hello world''), spoken (bytes_of ''hello'')]"
proof -
  have "sample_answer \<noteq> []" by (simp add: generate_websocket_shake_hands_res_def)
  note sw = sample_swallows [OF this]
  show "lines_of (chat_run (map snd sample_script) (chat_of s)) 7 = sample_answer"
    "map_option outbox (sessions (chat_run (map snd sample_script) (chat_of s)) 7)
      = Some [spoken (bytes_of ''hello world''), spoken (bytes_of ''hello'')]"
    using assms by (simp_all add: sw sample_script_def new_session_def greet_def flushed_def post_def Let_def
        del: bytes_of_simps swallows.simps)
qed

section \<open>The properties\<close>





text \<open>
  C13: no frame is forgotten: after every script, a client with something in its send queue is registered for
  write events, so that the queue goes out as soon as its line takes bytes.
\<close>

theorem no_frame_forgotten:
  assumes "fresh_process s0" and "main_setup lfd bind_ret efd s0 = Inr s" and "openssl_sizes cr" and "script cr sc (chat_of s)"
    and "handle_events (main_hooks cr) (map fst sc) s = Inr s'"
    and "clients s' fd = Some a" and "heap s' a = Some c" and "send_buffer_queue c \<noteq> []"
  shows "interest s' fd = Some reads_writes"
proof -
  note start = setup_chatting(1) [OF assms(1,2), of cr] setup_chatting(2) [OF assms(1,2)]
  from script_follows [OF start(1) assms(3,4)] assms(5)
  have "chat_of s' = chat_run (map snd sc) (chat_of s)" by auto
  moreover have "watchful (chat_of s)" using start(2) by (simp add: watchful_def)
  ultimately have "watchful (chat_of s')" by (simp add: watchful_run)
  moreover have "sessions (chat_of s') fd = Some (view (armed_at fd s') c)" using assms(6,7) by (simp add: session_at_def)
  ultimately show ?thesis using assms(8) by (fastforce simp: watchful_def armed_at_def)
qed

theorem no_frame_forgotten_witness:
  "\<exists>s'. handle_events (main_hooks sample_crypto) (map fst sample_script) main_started = Inr s' \<and> interest s' 7 = Some reads_writes"
proof -
  from script_follows [OF sample_start(1) sample_openssl_sizes sample_started_script] obtain s'
    where r: "handle_events (main_hooks sample_crypto) (map fst sample_script) main_started = Inr s'"
      "chat_of s' = chat_run (map snd sample_script) (chat_of main_started)" "chatting sample_crypto s'" by blast
  from sample_run(2) [OF sample_start(2) main_started_simps(4)] obtain v where "session_at s' 7 = Some v" "outbox v \<noteq> []"
    unfolding r(2) [symmetric] by auto
  with session_atE [OF chattingD(1) [OF r(3)] this(1)] obtain a c where "clients s' 7 = Some a" "heap s' a = Some c" "send_buffer_queue c \<noteq> []"
    by (metis view_simps(3))
  from no_frame_forgotten [OF fresh_main_init main_started sample_openssl_sizes sample_started_script r(1) this] r(1)
  show ?thesis by blast
qed

end
