(* ===== verification/Timer_Invariant.thy ===== *)
theory Timer_Invariant
  imports Websocket_Timer
begin

text \<open>
  The timer and the clients of a server whose heartbeat is on: every task in the wheel pings a live client
  that knows the task's id, and every client that knows an id has its task. The operations of the server keep
  this, as long as nobody sends a packet of a single byte, which is what arms the other kind of task.
\<close>

declare modify_put [simp del] modify_live [simp]

section \<open>Results without a fault of the timer\<close>

definition timely :: "'a res \<Rightarrow> ('a \<Rightarrow> bool) \<Rightarrow> bool" where
  "timely r Q \<longleftrightarrow> (\<forall>e. r = Inl e \<longrightarrow> e \<notin> {Spin_forever, Bad_iterator, Dangling_reference}) \<and> ok r Q"

lemma timely_simps [simp]:
  "timely (Inl e) Q \<longleftrightarrow> e \<notin> {Spin_forever, Bad_iterator, Dangling_reference}"
  "timely (Inr a) Q \<longleftrightarrow> Q a"
  by (simp_all add: timely_def)

lemma timely_bnd: "timely x P \<Longrightarrow> (\<And>a. P a \<Longrightarrow> timely (f a) Q) \<Longrightarrow> timely (bnd x f) Q"
  by (cases x) auto

lemma timely_tame: "tame x \<Longrightarrow> (\<And>a. x = Inr a \<Longrightarrow> timely (f a) Q) \<Longrightarrow> timely (bnd x f) Q"
  by (cases x) auto

lemma timely_mono: "timely r P \<Longrightarrow> (\<And>a. P a \<Longrightarrow> Q a) \<Longrightarrow> timely r Q"
  by (cases r) auto

lemma timely_if: "(b \<Longrightarrow> timely x Q) \<Longrightarrow> (\<not> b \<Longrightarrow> timely y Q) \<Longrightarrow> timely (if b then x else y) Q"
  by simp

lemma timely_deref: "(\<And>c. heap s a = Some c \<Longrightarrow> timely (f c) Q) \<Longrightarrow> timely (bnd (deref a s) f) Q"
  by (cases "heap s a") (simp_all add: deref_def)

lemma timely_second: "(\<And>a. clients s fd = Some a \<Longrightarrow> timely (f a) Q) \<Longrightarrow> timely (bnd (it_second fd s) f) Q"
  by (simp add: it_second_def split: option.splits)

section \<open>The invariant\<close>

definition beat_of :: "(addr \<rightharpoonup> websocket_client) \<Rightarrow> task time_node \<Rightarrow> bool" where
  "beat_of h v \<longleftrightarrow> circle_count v = FULL_CIRCLE \<and> interval v = 3000 \<and> node_id v \<noteq> 0
     \<and> (\<exists>a c. task_fn v = Heartbeat_task a \<and> h a = Some c \<and> time_wheel_heartbeat_id c = node_id v)"

definition tasked :: "task time_node multiset \<Rightarrow> addr \<Rightarrow> websocket_client \<Rightarrow> bool" where
  "tasked K a c \<longleftrightarrow> time_wheel_id c = 0 \<and> \<not> wait_close c \<and> (is_connected c = NONE \<longrightarrow> time_wheel_heartbeat_id c = 0)
     \<and> (time_wheel_heartbeat_id c = 0 \<or> (\<exists>v. v \<in># K \<and> node_id v = time_wheel_heartbeat_id c \<and> task_fn v = Heartbeat_task a))"

text \<open>A task of one client does not mind what happens to another.\<close>

lemma beat_of_other:
  assumes "beat_of h v" and "\<And>c. h a = Some c \<Longrightarrow> time_wheel_heartbeat_id c \<noteq> node_id v" and "\<And>b. b \<noteq> a \<Longrightarrow> h' b = h b"
  shows "beat_of h' v"
proof -
  from assms(1) obtain b c where b: "task_fn v = Heartbeat_task b" "h b = Some c" "time_wheel_heartbeat_id c = node_id v"
    by (auto simp: beat_of_def)
  with assms(2) have "b \<noteq> a" by auto
  with b assms show ?thesis by (simp add: beat_of_def)
qed

text \<open>
  What the timer's thread may have in its hands when the event loop works: tasks it has taken out of the wheel
  and has not put back, and the clients it is going to ping. The event loop works on the lines \<open>at_work\<close>.
\<close>

record hands =
  in_hand :: "task time_node multiset"
  pinging :: "addr set"
  at_work :: "int set"

definition nothing :: hands where
  "nothing = \<lparr>in_hand = {#}, pinging = {}, at_work = {}\<rparr>"

text \<open>\<open>n\<close> bounds the ids given out so far; they have to fit the \<^verbatim>\<open>uint32_t\<close> of \<^verbatim>\<open>erase_task\<close>.\<close>

definition slot_known :: "('f, 'z) wheel_scheme \<Rightarrow> 64 word \<Rightarrow> bool" where
  "slot_known s i \<longleftrightarrow> (\<exists>ix < 512. id_map s i = Some ix)"

definition timer_busy :: "hands \<Rightarrow> nat \<Rightarrow> ('u, 'z) websocket_process_scheme \<Rightarrow> bool" where
  "timer_busy B n s \<longleftrightarrow> wheel_ok s \<and> ids_ok (node_id ` set_mset (in_hand B)) s \<and> \<not> locked s \<and> 0 \<le> clock s \<and> clock s < 2 ^ 61
     \<and> 0 < unat (next_id s) \<and> unat (next_id s) \<le> n \<and> n \<le> 2 ^ 32
     \<and> (\<forall>v. v \<in># keys s + in_hand B \<longrightarrow> beat_of (heap s) v \<and> unat (node_id v) < unat (next_id s))
     \<and> (\<forall>a c. heap s a = Some c \<longrightarrow> tasked (keys s + in_hand B) a c)
     \<and> (\<forall>v. v \<in># in_hand B \<longrightarrow> task_fn v \<in> Heartbeat_task ` pinging B \<and> slot_known s (node_id v)) \<and> pinging B \<subseteq> dom (heap s)
     \<and> (\<forall>fd a. fd \<in> at_work B \<longrightarrow> clients s fd = Some a \<longrightarrow> a \<notin> pinging B)"

abbreviation timer_ok :: "nat \<Rightarrow> ('u, 'z) websocket_process_scheme \<Rightarrow> bool" where
  "timer_ok \<equiv> timer_busy nothing"

lemma timer_ok_def:
  "timer_ok n s \<longleftrightarrow> wheel_ok s \<and> ids_ok {} s \<and> \<not> locked s \<and> 0 \<le> clock s \<and> clock s < 2 ^ 61
     \<and> 0 < unat (next_id s) \<and> unat (next_id s) \<le> n \<and> n \<le> 2 ^ 32
     \<and> (\<forall>v. v \<in># keys s \<longrightarrow> beat_of (heap s) v \<and> unat (node_id v) < unat (next_id s))
     \<and> (\<forall>a c. heap s a = Some c \<longrightarrow> tasked (keys s) a c)"
  by (simp add: timer_busy_def nothing_def)

lemma wheel_heap [simp]:
  "wheel_ok (s\<lparr>heap := h\<rparr>) = wheel_ok s" "ids_ok P (s\<lparr>heap := h\<rparr>) = ids_ok P s" "keys (s\<lparr>heap := h\<rparr>) = keys s"
  "slot_known (s\<lparr>heap := h\<rparr>) i = slot_known s i"
  by (simp_all add: wheel_ok_def ids_ok_def keys_def nodes_def slot_known_def)

lemma timer_busy_frame:
  "timer_busy B n s \<Longrightarrow> tv s' = tv s \<Longrightarrow> id_map s' = id_map s \<Longrightarrow> current s' = current s \<Longrightarrow> locked s' = locked s
   \<Longrightarrow> next_id s' = next_id s \<Longrightarrow> clock s' = clock s \<Longrightarrow> heap s' = heap s \<Longrightarrow> clients s' = clients s \<Longrightarrow> timer_busy B n s'"
  by (simp add: timer_busy_def wheel_ok_def ids_ok_def keys_def nodes_def slot_known_def)

lemma timer_busy_Suc: "timer_busy B n s \<Longrightarrow> n < 2 ^ 32 \<Longrightarrow> timer_busy B (Suc n) s"
  by (simp add: timer_busy_def)

lemma timer_busy_kernel [simp]:
  "timer_busy B n (ctl_add fd ev s) = timer_busy B n s" "timer_busy B n (ctl_mod fd ev s) = timer_busy B n s"
  "timer_busy B n (ctl_del fd s) = timer_busy B n s" "timer_busy B n (sys_close fd s) = timer_busy B n s"
  "timer_busy B n (take_bytes fd d s) = timer_busy B n s"
  "timer_busy B n (s\<lparr>open_fds := fds\<rparr>) = timer_busy B n s"
  by (simp_all add: timer_busy_def wheel_ok_def ids_ok_def keys_def nodes_def slot_known_def ctl_add_def ctl_mod_def ctl_del_def
      sys_close_def take_bytes_def)

lemma timer_busy_gone: "timer_busy B n s \<Longrightarrow> timer_busy B n (s\<lparr>clients := (clients s)(fd := None)\<rparr>)"
  by (simp add: timer_busy_def wheel_ok_def ids_ok_def keys_def nodes_def slot_known_def)

text \<open>What may happen to a client.\<close>

definition forward :: "websocket_client \<Rightarrow> websocket_client \<Rightarrow> bool" where
  "forward c c' \<longleftrightarrow> steady c c' \<and> (is_connected c' = NONE \<longrightarrow> is_connected c = NONE)"

lemma timer_busy_heap:
  assumes ok: "timer_busy B n s" and c: "heap s a = Some c" and f: "forward c c'"
  shows "timer_busy B n (s\<lparr>heap := (heap s)(a \<mapsto> c')\<rparr>)"
proof -
  let ?s = "s\<lparr>heap := (heap s)(a \<mapsto> c')\<rparr>"
  have "beat_of (heap ?s) v" if "beat_of (heap s) v" for v
    using that c f by (auto simp: beat_of_def forward_def steady_def)
  moreover have "tasked K a c'" if "tasked K a c" for K
    using that f by (auto simp: tasked_def forward_def steady_def)
  ultimately show ?thesis
    using ok c by (auto simp: timer_busy_def wheel_ok_def ids_ok_def keys_def nodes_def slot_known_def)
qed

lemma modify_timely: "timer_busy B n s \<Longrightarrow> (\<And>c. forward c (g c)) \<Longrightarrow> timely (modify a g s) (timer_busy B n)"
  by (cases "heap s a") (auto simp: modify_def deref_def intro: timer_busy_heap)

lemmas forward_defs = forward_def steady_def

lemma forwardI [intro]:
  "sockfd c' = sockfd c \<Longrightarrow> wait_close c' = wait_close c \<Longrightarrow> time_wheel_id c' = time_wheel_id c
   \<Longrightarrow> time_wheel_heartbeat_id c' = time_wheel_heartbeat_id c \<Longrightarrow> is_connected c' \<noteq> NONE \<or> is_connected c' = is_connected c
   \<Longrightarrow> forward c c'"
  by (auto simp: forward_def steady_def)

section \<open>Tasks that come and go\<close>

lemma unique_node:
  assumes ok: "ids_ok P s" and v: "v \<in># keys s" "w \<in># keys s" "node_id v = node_id w"
  shows "v = w"
proof -
  from v(1,2) obtain v' w' where n: "v' \<in> set (nodes s)" "v = key v'" "w' \<in> set (nodes s)" "w = key w'"
    by (auto simp: keys_nodes)
  then obtain i j where ij: "i < 512" "v' \<in> set (tv s ! i)" "j < 512" "w' \<in> set (tv s ! j)"
    using ok by (auto simp: in_nodes_iff ids_ok_def)
  have id: "node_id v' = node_id w'" using v(3) n by simp
  have "id_map s (node_id v') = Some i" "id_map s (node_id w') = Some j" using ok ij by (auto simp: ids_ok_def)
  with id have "i = j" by simp
  moreover have "distinct (map node_id (tv s ! i))" using ok ij by (auto simp: ids_ok_def)
  ultimately have "v' = w'" using ij id by (auto simp: distinct_map inj_on_def)
  then show ?thesis using n by simp
qed

lemma known_id: "ids_ok P s \<Longrightarrow> v \<in># keys s \<Longrightarrow> id_map s (node_id v) \<noteq> None \<and> node_id v \<notin> P"
  by (auto simp: keys_nodes in_nodes_iff ids_ok_def)

lemma unknown_id:
  assumes ok: "ids_ok P s" and i: "i \<notin> P" "\<And>v. v \<in># keys s \<Longrightarrow> node_id v \<noteq> i"
  shows "id_map s i = None"
proof (rule ccontr)
  assume "id_map s i \<noteq> None"
  then obtain ix where "id_map s i = Some ix" by blast
  with ok i(1) have "ix < 512" "i \<in> node_id ` set (tv s ! ix)" by (simp_all add: ids_ok_def)
  then obtain v where "ix < 512" "v \<in> set (tv s ! ix)" "i = node_id v" by blast
  with ok have "v \<in> set (nodes s)" by (auto simp: in_nodes_iff ids_ok_def)
  with i(2) [of "key v"] \<open>i = node_id v\<close> show False by (simp add: keys_nodes)
qed

lemma erase_keeps: "erase_task i s = Inr (b, s') \<Longrightarrow> next_id s' = next_id s \<and> wheel.more s' = wheel.more s"
  using erase_task_safe [of i s]
  by (auto simp: erase_task_def release_def acquire_def split: option.splits if_splits)

lemma clock_more: "wheel.more s' = wheel.more s \<Longrightarrow> clock s' = clock s \<and> heap s' = heap s \<and> clients s' = clients s"
  for s s' :: "('u, 'z) websocket_process_scheme"
  by (cases s; cases s') simp

text \<open>A client's task is taken out of the wheel, and the client forgets it or goes.\<close>

lemma disarm:
  assumes ok: "timer_busy B n s" and c: "heap s a = Some c" "time_wheel_heartbeat_id c \<noteq> 0" and a: "a \<notin> pinging B"
  obtains s' where "erase_task (ucast (time_wheel_heartbeat_id c)) s = Inr (True, s')" "heap s' = heap s" "clients s' = clients s"
    "timer_busy B n (s'\<lparr>heap := (heap s)(a \<mapsto> c\<lparr>time_wheel_heartbeat_id := 0\<rparr>)\<rparr>)" "timer_busy B n (s'\<lparr>heap := (heap s)(a := None)\<rparr>)"
proof -
  let ?i = "time_wheel_heartbeat_id c" and ?P = "node_id ` set_mset (in_hand B)"
  have K: "v \<in># keys s + in_hand B \<Longrightarrow> beat_of (heap s) v \<and> unat (node_id v) < unat (next_id s)"
    and T: "heap s b = Some d \<Longrightarrow> tasked (keys s + in_hand B) b d" for v b d
    using ok by (auto simp: timer_busy_def)
  have ids: "ids_ok ?P s" and W: "v \<in># in_hand B \<Longrightarrow> task_fn v \<in> Heartbeat_task ` pinging B" for v
    using ok by (auto simp: timer_busy_def)
  from T [OF c(1)] c(2) W a obtain v where v: "v \<in># keys s" "node_id v = ?i" "task_fn v = Heartbeat_task a"
    by (fastforce simp: tasked_def)
  have known: "id_map s ?i \<noteq> None" "?i \<notin> ?P" using known_id [OF ids v(1)] v(2) by simp_all
  have "unat ?i < 2 ^ 32" using K [of v] v ok by (simp add: timer_busy_def)
  then have "?i < 2 ^ 32" by (simp add: word_less_nat_alt)
  then have conv: "ucast (ucast ?i :: 32 word) = ?i" by (rule ucast_ucast_small)
  have "wheel_ok s" "\<not> locked s" using ok by (simp_all add: timer_busy_def)
  then obtain s' where s': "erase_task (ucast ?i) s = Inr (True, s')" "wheel_ok s'" "ids_ok ?P s'" "\<not> locked s'"
    "keys s' = filter_mset (\<lambda>v. node_id v \<noteq> ?i) (keys s)" "id_map s' = (id_map s)(?i := None)"
    using erase_task_keys [of s ?P "ucast ?i"] ids known unfolding conv by metis
  note more = erase_keeps [OF s'(1)]
  have rest: "clock s' = clock s" "heap s' = heap s" "next_id s' = next_id s" "clients s' = clients s"
    using more clock_more [of s' s] by auto
  have mine: "task_fn w = Heartbeat_task a \<longleftrightarrow> node_id w = ?i" if "w \<in># keys s" for w
    using K [of w] unique_node [OF ids that v(1)] v c that by (auto simp: beat_of_def)
  have B: "beat_of h w" if "w \<in># keys s' + in_hand B" "\<And>b. b \<noteq> a \<Longrightarrow> h b = heap s b" for h w
  proof (rule beat_of_other [of "heap s" w a h])
    show "beat_of (heap s) w" using that(1) K [of w] by (auto simp: s'(5))
    show "time_wheel_heartbeat_id d \<noteq> node_id w" if "heap s a = Some d" for d
      using that \<open>w \<in># keys s' + in_hand B\<close> known(2) by (auto simp: s'(5) c(1))
  qed (rule that(2))
  have T': "tasked (keys s' + in_hand B) b d" if bd: "heap s b = Some d" "b \<noteq> a" for b d
  proof -
    have "node_id w \<noteq> ?i" if "w \<in># keys s" "task_fn w = Heartbeat_task b" for w using mine [OF that(1)] that(2) bd(2) by auto
    then show ?thesis using T [OF bd(1)] unfolding tasked_def s'(5) by auto
  qed
  have all: "timer_busy B n (s'\<lparr>heap := h\<rparr>)"
    if h: "\<And>b. b \<noteq> a \<Longrightarrow> h b = heap s b" "\<And>d. h a = Some d \<Longrightarrow> tasked (keys s' + in_hand B) a d" for h
  proof -
    have "tasked (keys s' + in_hand B) b d" if "h b = Some d" for b d using that h T' by (cases "b = a") auto
    moreover have "beat_of h w \<and> unat (node_id w) < unat (next_id s)" if "w \<in># keys s' + in_hand B" for w
      using B [OF that h(1)] K [of w] that by (auto simp: s'(5))
    moreover have "h b = heap s b" if "b \<in> pinging B" for b using h(1) [of b] that a by auto
    then have "pinging B \<subseteq> dom h" using ok by (auto simp: timer_busy_def)
    moreover have "slot_known s' (node_id w)" if "w \<in># in_hand B" for w
    proof -
      have "node_id w \<noteq> ?i" using that known(2) by (metis imageI)
      moreover have "slot_known s (node_id w)" using that ok by (simp add: timer_busy_def)
      ultimately show ?thesis by (simp add: s'(6) slot_known_def)
    qed
    ultimately show ?thesis using ok s'(2-4) rest by (simp add: timer_busy_def)
  qed
  have "tasked (keys s' + in_hand B) a (c\<lparr>time_wheel_heartbeat_id := 0\<rparr>)" using T [OF c(1)] by (simp add: tasked_def)
  then have "timer_busy B n (s'\<lparr>heap := (heap s)(a \<mapsto> c\<lparr>time_wheel_heartbeat_id := 0\<rparr>)\<rparr>)" by (intro all) simp_all
  moreover have "timer_busy B n (s'\<lparr>heap := (heap s)(a := None)\<rparr>)" by (rule all) simp_all
  ultimately show thesis by (rule that [OF s'(1) rest(2,4)])
qed

text \<open>A client without a task gets one.\<close>

lemma rearmed:
  assumes ok: "timer_busy B n s" and n: "n < 2 ^ 32" and c: "heap s a = Some c" "time_wheel_heartbeat_id c = 0" "is_connected c \<noteq> NONE"
  shows "timely (add_to_time_wheel_heartbeat a s) (timer_busy B (Suc n))"
proof -
  let ?P = "node_id ` set_mset (in_hand B)"
  have K: "v \<in># keys s + in_hand B \<Longrightarrow> beat_of (heap s) v \<and> unat (node_id v) < unat (next_id s)"
    and T: "heap s b = Some d \<Longrightarrow> tasked (keys s + in_hand B) b d" for v b d
    using ok by (auto simp: timer_busy_def)
  have ids: "ids_ok ?P s" and pos: "next_id s \<noteq> 0" and small: "unat (next_id s) \<le> n" using ok by (auto simp: timer_busy_def)
  let ?i = "next_id s"
  have gi: "fst (get_id s) = ?i" using pos by (simp add: get_id_def Let_def)
  have new: "?i \<notin> ?P" using K by fastforce
  have fresh: "id_map s ?i = None" by (rule unknown_id [OF ids new]) (use K in fastforce)
  have w: "wheel_ok s" "\<not> locked s" "0 \<le> clock s" "clock s \<le> 2 ^ 61" using ok by (simp_all add: timer_busy_def)
  obtain s' e where s': "add_task (clock s) (Heartbeat_task a) 3000 FULL_CIRCLE False 0 s = Inr (?i, s')"
    "wheel_ok s'" "\<not> locked s'" "next_id s' = ?i + 1" "wheel.more s' = wheel.more s" "id_map s' = (id_map s)(?i := id_map s' ?i)"
    "keys s' = keys s + {#\<lparr>task_fn = Heartbeat_task a, expire = e, interval = 3000, circle_count = FULL_CIRCLE, slot = 0, node_id = ?i\<rparr>#}"
    using add_task_keys [OF w(1,2,3,4), of 3000 0 "Heartbeat_task a" FULL_CIRCLE False] unfolding gi by auto
  have "ids_ok ?P s'" using add_task_ids [OF ids _ s'(1)] fresh gi new by simp
  have rest: "clock s' = clock s" "heap s' = heap s" "clients s' = clients s" using clock_more [OF s'(5)] by auto
  have grown: "unat (next_id s') = Suc (unat ?i)"
    using small n unfolding s'(4) by (simp add: unat_word_ariths(1))
  let ?c = "c\<lparr>time_wheel_heartbeat_id := ?i\<rparr>" and ?h = "(heap s)(a \<mapsto> c\<lparr>time_wheel_heartbeat_id := ?i\<rparr>)"
  have old: "beat_of ?h v" if "beat_of (heap s) v" for v
    using beat_of_other [OF that, of a ?h] that c by (simp add: beat_of_def)
  have "beat_of ?h v \<and> unat (node_id v) < Suc (unat ?i)" if "v \<in># keys s' + in_hand B" for v
  proof (cases "v \<in># keys s + in_hand B")
    case True
    then show ?thesis using K [OF True] old by auto
  next
    case False
    then show ?thesis using that pos by (auto simp: s'(7) beat_of_def)
  qed
  moreover have "tasked (keys s' + in_hand B) b d" if "?h b = Some d" for b d
  proof (cases "b = a")
    case True
    then have d: "d = ?c" using that by simp
    have "time_wheel_id c = 0" "\<not> wait_close c" using T [OF c(1)] by (simp_all add: tasked_def)
    moreover have "\<exists>v. v \<in># keys s' + in_hand B \<and> node_id v = ?i \<and> task_fn v = Heartbeat_task b"
      by (rule exI [of _ "\<lparr>task_fn = Heartbeat_task a, expire = e, interval = 3000, circle_count = FULL_CIRCLE, slot = 0, node_id = ?i\<rparr>"])
        (simp add: s'(7) True)
    ultimately show ?thesis using c(3) by (simp add: d tasked_def)
  next
    case False
    then have "tasked (keys s + in_hand B) b d" using that by (intro T) simp
    then show ?thesis unfolding tasked_def s'(7) by (metis union_iff)
  qed
  moreover have "slot_known s' (node_id w)" if "w \<in># in_hand B" for w
  proof -
    have "slot_known s (node_id w)" using that ok by (simp add: timer_busy_def)
    moreover have "node_id w \<noteq> ?i" using that new by (metis imageI)
    then have "id_map s' (node_id w) = id_map s (node_id w)" using fun_cong [OF s'(6), of "node_id w"] by simp
    ultimately show ?thesis by (simp add: slot_known_def)
  qed
  ultimately have "timer_busy B (Suc n) (s'\<lparr>heap := ?h\<rparr>)"
    using ok n small s'(2,3) grown rest \<open>ids_ok ?P s'\<close> c(1) by (auto simp: timer_busy_def)
  then show ?thesis using s'(1) c rest by (simp add: add_to_time_wheel_heartbeat_def)
qed

section \<open>The operations of the server\<close>

lemma send_timely: "timer_busy B n s \<Longrightarrow> timely (server_send_buffer a d s) (timer_busy B n)"
  unfolding server_send_buffer_def
  by (rule timely_bnd [OF modify_timely]) (auto intro: timely_deref)

lemma send_without_frame_timely: "timer_busy B n s \<Longrightarrow> timely (send_without_frame a d s) (timer_busy B n)"
  by (simp add: send_without_frame_def tcp_send_def send_timely)

lemma ws_send_timely: "timer_busy B n s \<Longrightarrow> timely (ws_send a d s) (timer_busy B n)"
  by (simp add: ws_send_def send_timely)

lemma close_websocket_client_timely:
  "timer_busy B n s \<Longrightarrow> a \<notin> pinging B \<Longrightarrow> timely (close_websocket_client a flag s) (timer_busy B n)"
proof -
  have erase: "timely (bnd (erase_task (ucast (time_wheel_heartbeat_id c)) t) (\<lambda>(found, u). modify a (\<lambda>c. c\<lparr>time_wheel_heartbeat_id := 0\<rparr>) u))
      (timer_busy B n)" if ok: "timer_busy B n t" and c: "heap t a = Some c" "time_wheel_heartbeat_id c \<noteq> 0" and a: "a \<notin> pinging B" for t c
  proof -
    from disarm [OF ok c a] obtain u where "erase_task (ucast (time_wheel_heartbeat_id c)) t = Inr (True, u)" "heap u = heap t"
      "timer_busy B n (u\<lparr>heap := (heap t)(a \<mapsto> c\<lparr>time_wheel_heartbeat_id := 0\<rparr>)\<rparr>)" by blast
    then show ?thesis using c by simp
  qed
  show "timer_busy B n s \<Longrightarrow> a \<notin> pinging B \<Longrightarrow> ?thesis"
    unfolding close_websocket_client_def close_frame_def
    by (rule timely_bnd [where P = "\<lambda>_. True"], rule timely_tame [OF c_str_tame], simp,
        rule timely_bnd [OF send_without_frame_timely], assumption, rule timely_deref) (simp add: erase)
qed

lemma proto_err_timely:
  "timer_busy B n s \<Longrightarrow> a \<notin> pinging B \<Longrightarrow> timely (proto_err a f s) (\<lambda>r. timer_busy B n (snd r) \<and> \<not> fst r)"
  unfolding proto_err_def by (rule timely_bnd [OF close_websocket_client_timely]) auto

text \<open>A client that has no task yet.\<close>

definition untasked :: "addr \<Rightarrow> ('u, 'z) websocket_process_scheme \<Rightarrow> bool" where
  "untasked a s \<longleftrightarrow> (\<exists>c. heap s a = Some c \<and> time_wheel_heartbeat_id c = 0 \<and> is_connected c \<noteq> NONE)"

lemma shake_hands_timely:
  assumes ok: "timer_busy B n s" and c: "heap s a = Some c" "time_wheel_heartbeat_id c = 0" and a: "a \<notin> pinging B"
  shows "timely (websocket_shake_hands cr a s) (\<lambda>(shaken, s'). timer_busy B n s' \<and> (shaken \<longrightarrow> untasked a s'))"
proof -
  have refuse: "timely (bnd (close_websocket_client a PROTOCOL_ERROR s) (\<lambda>s1. Inr (False, s1)))
      (\<lambda>(shaken, s'). timer_busy B n s' \<and> (shaken \<longrightarrow> untasked a s'))"
    by (rule timely_bnd [OF close_websocket_client_timely [OF ok a]]) simp
  have "timely (bnd (send_without_frame a d s) (\<lambda>s1. bnd (modify a (\<lambda>c. c\<lparr>is_connected := WAIT_SHAKE\<rparr>) s1) (\<lambda>s2. Inr (True, s2))))
      (\<lambda>(shaken, s'). timer_busy B n s' \<and> (shaken \<longrightarrow> untasked a s'))" for d
  proof -
    let ?s1 = "put a (queued d c) (sending (sockfd c) s)"
    have "timer_busy B n ?s1"
      using send_without_frame_timely [OF ok, of a d] send_without_frame_put [OF c(1), of d] by simp
    then have "timer_busy B n (?s1\<lparr>heap := (heap ?s1)(a \<mapsto> (queued d c)\<lparr>is_connected := WAIT_SHAKE\<rparr>)\<rparr>)"
      by (rule timer_busy_heap) auto
    then show ?thesis
      using c by (simp add: send_without_frame_put [OF c(1)] untasked_def queued_def)
  qed
  then show ?thesis
    using c(1) refuse by (auto simp: websocket_shake_hands_def Let_def intro: timely_tame [OF accept_key_tame] split: option.splits)
qed

lemma decode_handshake_timely:
  assumes ok: "timer_busy B n s" and n: "n < 2 ^ 32" and c: "heap s a = Some c" "is_connected c = NONE" and a: "a \<notin> pinging B"
  shows "timely (decode_handshake cr a data s) (\<lambda>r. timer_busy B (Suc n) (snd r) \<and> \<not> fst r)"
proof -
  have hb: "time_wheel_heartbeat_id c = 0" using ok c by (auto simp: timer_busy_def tasked_def)
  have http: "timely (http_decode_proto_data a data s) (\<lambda>(good, t). timer_busy B n t \<and> (\<exists>d. heap t a = Some d \<and> time_wheel_heartbeat_id d = 0))"
    unfolding http_decode_proto_data_def tcp_decode_proto_data_def
    using c(1) hb by (auto simp: forward_defs intro!: timely_tame [OF decode_http_header_tame] timer_busy_heap [OF ok c(1)] split: prod.splits)
  have add: "timely (bnd (add_to_time_wheel_heartbeat a t) (\<lambda>u. Inr (False, u))) (\<lambda>r. timer_busy B (Suc n) (snd r) \<and> \<not> fst r)"
    if "timer_busy B n t" "untasked a t" for t
  proof -
    from that(2) obtain d where "heap t a = Some d" "time_wheel_heartbeat_id d = 0" "is_connected d \<noteq> NONE" by (auto simp: untasked_def)
    then show ?thesis by (rule timely_bnd [OF rearmed [OF that(1) n]]) simp
  qed
  show ?thesis
    unfolding decode_handshake_def
    by (rule timely_bnd [OF http])
      (auto simp: a intro!: timely_bnd [OF shake_hands_timely] add timer_busy_Suc [OF _ n] split: prod.splits)
qed

text \<open>Frames. The closing frame is the one that may meet the other task.\<close>

lemma decode_data_frame_timely:
  "timer_busy B n s \<Longrightarrow> timely (decode_websocket_data_frame a s) (\<lambda>r. timer_busy B n (snd r))"
  unfolding decode_websocket_data_frame_def Let_def
  by (rule timely_deref, rule timely_tame [OF decode_loop_tame])
    (auto intro!: timer_busy_heap split: prod.splits)

lemma unmarked: "timer_busy B n s \<Longrightarrow> heap s a = Some c \<Longrightarrow> time_wheel_id c = 0 \<and> \<not> wait_close c"
  by (auto simp: timer_busy_def tasked_def)

lemma ws_destructor_timely:
  assumes ok: "timer_busy B n s" and a: "a \<notin> pinging B"
  shows "timely (bnd (ws_destructor a s) (\<lambda>t. Inr (t\<lparr>heap := (heap t)(a := None)\<rparr>))) (timer_busy B n)"
proof (cases "heap s a")
  case None
  then show ?thesis by (simp add: ws_destructor_def deref_def)
next
  case (Some c)
  show ?thesis
  proof (cases "time_wheel_heartbeat_id c = 0")
    case True
    have "beat_of (heap s) v \<Longrightarrow> beat_of ((heap s)(a := None)) v" for v
      using beat_of_other [of "heap s" v a] Some True by (simp add: beat_of_def)
    then have "timer_busy B n (s\<lparr>heap := (heap s)(a := None)\<rparr>)" using ok a by (auto simp: timer_busy_def)
    then show ?thesis using Some True unmarked [OF ok Some] by (simp add: ws_destructor_def)
  next
    case False
    from disarm [OF ok Some False a] obtain u where "erase_task (ucast (time_wheel_heartbeat_id c)) s = Inr (True, u)"
      "heap u = heap s" "timer_busy B n (u\<lparr>heap := (heap s)(a := None)\<rparr>)" by blast
    then show ?thesis using Some False unmarked [OF ok Some] by (simp add: ws_destructor_def)
  qed
qed

text \<open>The bytes a loop around \<^verbatim>\<open>recv\<close> collects.\<close>

fun received :: "recv_result list \<Rightarrow> bytes" where
  "received (Received d # rs) = d @ received rs"
| "received (Recv_failed # rs) = received rs"
| "received rs = []"

text \<open>An application that keeps away from the timer.\<close>

locale timed_app =
  fixes cr :: crypto
    and user :: "'u \<Rightarrow> addr \<Rightarrow> ('u, 'z) websocket_process_scheme \<Rightarrow> ('u, 'z) websocket_process_scheme res"
  assumes user_timely: "timer_busy B n s \<Longrightarrow> timely (user u a s) (timer_busy B n)"
begin

lemma ws_call_timely: "timer_busy B n s \<Longrightarrow> timely (ws_call user k a s) (timer_busy B n)"
proof (cases k)
  case (User u)
  then show "timer_busy B n s \<Longrightarrow> ?thesis" by (simp add: ws_call_def user_timely)
next
  case (Recv_wrapper fn)
  then show "timer_busy B n s \<Longrightarrow> ?thesis"
    by (auto simp: ws_call_def forward_defs split: option.splits intro!: timely_deref timely_bnd [OF user_timely] modify_timely)
next
  case (Sent_wrapper fn)
  have "timely (if is_connected c = WAIT_SHAKE then bnd (modify a (\<lambda>c. c\<lparr>is_connected := CONNECTED\<rparr>) s) (\<lambda>s1.
          case wb_connected_f s1 of None \<Rightarrow> Inr s1 | Some u \<Rightarrow> user u a s1) else Inr s) (timer_busy B n)" if "timer_busy B n s" for c
    using that by (auto split: option.splits intro!: timely_bnd [OF modify_timely] user_timely)
  with Sent_wrapper show "timer_busy B n s \<Longrightarrow> ?thesis"
    by (auto simp: ws_call_def split: option.splits intro!: timely_deref timely_bnd [where P = "timer_busy B n"] user_timely)
qed

lemma call_opt_timely: "call h = ws_call user \<Longrightarrow> timer_busy B n s \<Longrightarrow> timely (call_opt h f a s) (timer_busy B n)"
  by (simp add: call_opt_def ws_call_timely split: option.splits)

lemma detached:
  "timer_busy B n s \<Longrightarrow> timer_busy B n (ctl_del fd (sys_close fd s)\<lparr>clients := (clients s)(fd := None)\<rparr>)"
proof -
  assume "timer_busy B n s"
  then have "timer_busy B n (ctl_del fd (sys_close fd s))" by simp
  from timer_busy_gone [OF this, of fd] show ?thesis by (simp add: ctl_del_def sys_close_def)
qed

lemma close_client_timely:
  assumes h: "call h = ws_call user" "destructor h = ws_destructor" and ok: "timer_busy B n s" and a: "a \<notin> pinging B"
  shows "timely (close_client h a s) (timer_busy B n)"
  unfolding close_client_def Let_def
  by (rule timely_deref, rule timely_bnd [OF call_opt_timely [OF h(1)]])
    (auto simp: ok a delete_client_def h(2) timer_busy_gone detached intro!: timely_deref ws_destructor_timely)

lemma objects_simps: "call (ws_objects user) = ws_call user" "destructor (ws_objects user) = ws_destructor"
  by (simp_all add: ws_objects_def)

lemma dispatch_timely:
  assumes ok: "timer_busy B n s" and a: "a \<notin> pinging B"
  shows "timely (dispatch_frame user a op s) (\<lambda>r. timer_busy B n (snd r))"
proof -
  have "timely (on_close_frame user a s) (timer_busy B n)"
    using ok a unmarked [OF ok]
    by (auto simp: on_close_frame_def intro!: timely_deref timely_bnd [OF close_websocket_client_timely]
        close_client_timely objects_simps)
  moreover have silent: "timely (bnd r (\<lambda>s1. Inr (False, s1))) (\<lambda>r. timer_busy B n (snd r))" if "timely r (timer_busy B n)" for r
    using that by (rule timely_bnd) simp
  moreover have "timely (bnd (if b then decode_websocket_data_frame a s else Inr (SUCCESS, s)) (\<lambda>(ret, s1).
     if ret \<noteq> SUCCESS then proto_err a ret s1
     else bnd (deref a s1) (\<lambda>c1. Inr (fin (op_bits (wb_header c1)), s1)))) (\<lambda>r. timer_busy B n (snd r))" for b
    by (rule timely_bnd [where P = "\<lambda>r. timer_busy B n (snd r)"])
      (auto simp: ok a decode_data_frame_timely intro!: timely_deref timely_mono [OF proto_err_timely])
  ultimately show ?thesis
    using ok unmarked [OF ok] silent silent [OF send_without_frame_timely [OF ok]] unfolding dispatch_frame_def
    by (intro timely_deref timely_if) simp_all
qed

lemma decode_timely:
  assumes ok: "timer_busy B n s" and n: "n < 2 ^ 32" and d: "length data \<noteq> 1" "data \<noteq> []"
    and a: "a \<notin> pinging B"
  shows "timely (ws_decode_proto_data cr user a data s) (\<lambda>r. timer_busy B (Suc n) (snd r))"
proof (cases "heap s a")
  case None
  then show ?thesis by (simp add: ws_decode_proto_data_def modify_def deref_def)
next
  case (Some c)
  let ?s1 = "s\<lparr>heap := (heap s)(a \<mapsto> c\<lparr>recv_buffer := data\<rparr>)\<rparr>"
  have ok1: "timer_busy B n ?s1" by (rule timer_busy_heap [OF ok Some]) auto
  have "timely (decode_frames user a ?s1) (\<lambda>r. timer_busy B n (snd r))"
    using ok1 d a unfolding decode_frames_def
    by (cases data; cases "tl data")
      (auto intro!: timely_tame [OF read_header_tame] timely_bnd [OF modify_timely] dispatch_timely simp del: modify_live)
  then have "timely (decode_frames user a ?s1) (\<lambda>r. timer_busy B (Suc n) (snd r))"
    by (rule timely_mono) (rule timer_busy_Suc [OF _ n])
  moreover have "is_connected c = NONE \<Longrightarrow> timely (decode_handshake cr a data ?s1) (\<lambda>r. timer_busy B (Suc n) (snd r))"
    using decode_handshake_timely [OF ok1 n, of a "c\<lparr>recv_buffer := data\<rparr>" cr data] a by (auto elim: timely_mono)
  ultimately show ?thesis using Some by (simp add: ws_decode_proto_data_def)
qed

text \<open>The event loop around them.\<close>

abbreviation hk :: "(websocket_client, 'u closure, ('u, 'z) websocket_process_scheme) hooks" where
  "hk \<equiv> ws_hooks cr user"

lemma hk_simps [simp]:
  "call hk = ws_call user" "destructor hk = ws_destructor" "decode_proto_data hk = ws_decode_proto_data cr user"
  "allocate_client hk = new_websocket_client"
  by (simp_all add: ws_hooks_def objects.extend_def hooks.fields_def ws_objects_def)

lemma closing_timely: "timer_busy B n s \<Longrightarrow> a \<notin> pinging B \<Longrightarrow> timely (close_client hk a s) (timer_busy B n)"
  by (rule close_client_timely) simp_all

lemma own_line: "timer_busy B n s \<Longrightarrow> fd \<in> at_work B \<Longrightarrow> clients s fd = Some a \<Longrightarrow> a \<notin> pinging B"
  by (simp add: timer_busy_def)

lemma recv_loop_timely:
  "timer_busy B n s \<Longrightarrow> fd \<in> at_work B \<Longrightarrow> timely (recv_loop hk fd rs m s) (\<lambda>(m', s'). timer_busy B n s' \<and> m' = m @ received rs)"
proof (induction rs arbitrary: m rule: received.induct)
  case (1 d rs)
  then show ?case using "1.IH" [of "m @ d"] by simp
qed (auto intro!: timely_second timely_bnd [OF closing_timely] dest: own_line)

lemma deliver_timely:
  "timer_busy B n s \<Longrightarrow> fd \<in> at_work B \<Longrightarrow> n < 2 ^ 32 \<Longrightarrow> length m \<noteq> 1 \<Longrightarrow> timely (deliver hk fd m s) (timer_busy B (Suc n))"
  by (auto simp: deliver_def timer_busy_Suc split: option.splits
      intro!: timely_second timely_bnd [OF decode_timely] ws_call_timely dest: own_line)

lemma on_readable_timely:
  "timer_busy B n s \<Longrightarrow> ev_fd e \<in> at_work B \<Longrightarrow> n < 2 ^ 32 \<Longrightarrow> length (received (recvs e)) \<noteq> 1 \<Longrightarrow> timely (on_readable hk e s) (timer_busy B (Suc n))"
  unfolding on_readable_def
  by (auto simp: timer_busy_Suc intro!: timely_bnd [OF recv_loop_timely] deliver_timely)

lemma send_loop_timely:
  "timer_busy B n s \<Longrightarrow> a \<notin> pinging B \<Longrightarrow> timely (send_loop hk fd a rs buf s) (\<lambda>r. timer_busy B n (snd r))"
  by (induction hk fd a rs buf s rule: send_loop.induct)
    (auto simp: Let_def intro!: timely_bnd [OF closing_timely])

lemma send_queue_timely: "timer_busy B n s \<Longrightarrow> a \<notin> pinging B \<Longrightarrow> timely (send_queue hk fd a rs s) (timer_busy B n)"
proof (induction "length rs" arbitrary: rs s rule: less_induct)
  case less
  have "timely (bnd (send_loop hk fd a rs buf t) (\<lambda>(rs', u). send_queue hk fd a rs' u)) (timer_busy B n)" if t: "timer_busy B n t" for buf t
    using send_loop_timely [OF t less.prems(2), of fd rs buf] send_loop_uses [of hk fd a rs buf t] less.hyps less.prems(2)
    by (cases "send_loop hk fd a rs buf t") auto
  with less.prems show ?case
    by (subst send_queue.simps)
      (auto simp: forward_defs simp del: modify_live split: list.splits intro!: timely_deref timely_bnd [OF modify_timely])
qed

lemma on_writable_timely:
  "timer_busy B n s \<Longrightarrow> ev_fd e \<in> at_work B \<Longrightarrow> timely (on_writable hk e s) (timer_busy B n)"
  unfolding on_writable_def
  by (auto simp: Let_def split: option.splits intro!: timely_bnd [OF send_queue_timely] timely_deref timely_second ws_call_timely dest: own_line)

lemma on_accept_timely:
  assumes ok: "timer_busy B n s" and new: "heap s (next_addr s) = None"
  shows "timely (on_accept hk e s) (timer_busy B n)"
proof -
  have "beat_of (heap s) v \<Longrightarrow> beat_of ((heap s)(next_addr s \<mapsto> c)) v" for v c
    using beat_of_other [of "heap s" v "next_addr s"] new by simp
  then have born: "timer_busy B n (s\<lparr>heap := (heap s)(next_addr s \<mapsto> (new_websocket_client r)\<lparr>sockfd := fd, ip := i, port := p\<rparr>)\<rparr>)" for r fd i p
    using ok by (auto simp: timer_busy_def tasked_def new_websocket_client_def Let_def)
  have "next_addr s \<notin> pinging B" using ok new by (auto simp: timer_busy_def)
  with born have "timer_busy B n (s\<lparr>heap := (heap s)(next_addr s \<mapsto> (new_websocket_client r)\<lparr>sockfd := fd, ip := i, port := p\<rparr>),
      clients := (clients s)(fd \<mapsto> next_addr s)\<rparr>)" for r fd i p
    by (simp add: timer_busy_def wheel_ok_def ids_ok_def keys_def nodes_def slot_known_def)
  then have "timer_busy B n (s\<lparr>open_fds := fds, heap := (heap s)(next_addr s \<mapsto> (new_websocket_client r)\<lparr>sockfd := fd, ip := i, port := p\<rparr>),
      next_addr := Suc (next_addr s), clients := (clients s)(fd \<mapsto> next_addr s)\<rparr>)" for r fd i p fds
    by (rule timer_busy_frame) simp_all
  note this [simp]
  have "timer_busy B n (s\<lparr>open_fds := fds, heap := (heap s)(next_addr s \<mapsto> (new_websocket_client r)\<lparr>sockfd := fd, ip := i, port := p\<rparr>),
      next_addr := Suc (next_addr s)\<rparr>)" for r fd i p fds
    by (rule timer_busy_frame [OF born]) simp_all
  note this [simp]
  show ?thesis
    using ok by (auto simp: on_accept_def decode_remote_client_def Let_def split: option.splits
        intro!: timely_bnd [OF call_opt_timely])
qed

lemma handle_event_timely:
  assumes "timer_busy B n s" and "ev_fd e \<in> at_work B" and "n < 2 ^ 32" and "server_ok s" and "length (received (recvs e)) \<noteq> 1"
  shows "timely (handle_event hk e s) (timer_busy B (Suc n))"
proof -
  have "heap s (next_addr s) = None" using assms(4) by (cases "heap s (next_addr s)") (auto simp: server_inv_def)
  from on_accept_timely [OF assms(1) this] on_writable_timely [OF assms(1,2)] closing_timely [OF assms(1)]
  have "timely (on_accept hk e s) (timer_busy B (Suc n))" "timely (on_writable hk e s) (timer_busy B (Suc n))"
    "a \<notin> pinging B \<Longrightarrow> timely (close_client hk a s) (timer_busy B (Suc n))" for a
    using assms(3) by (blast intro: timely_mono timer_busy_Suc)+
  with on_readable_timely [OF assms(1,2,3,5)] own_line [OF assms(1,2)] show ?thesis
    by (auto simp: handle_event_def timer_busy_Suc [OF assms(1,3)] split: option.splits)
qed

text \<open>An event on a line whose client the timer's thread leaves alone.\<close>

lemma handle_event_spared:
  assumes ok: "timer_busy B n s" "at_work B = {}" and spared: "\<And>a. clients s (ev_fd e) = Some a \<Longrightarrow> a \<notin> pinging B"
    and rest: "n < 2 ^ 32" "server_ok s" "length (received (recvs e)) \<noteq> 1"
  shows "timely (handle_event hk e s) (timer_busy B (Suc n))"
proof -
  let ?B = "B\<lparr>at_work := {ev_fd e}\<rparr>"
  have "timer_busy ?B n s" using ok spared by (simp add: timer_busy_def)
  from handle_event_timely [OF this _ rest] have "timely (handle_event hk e s) (timer_busy ?B (Suc n))" by simp
  then show ?thesis by (rule timely_mono) (use ok in \<open>simp add: timer_busy_def\<close>)
qed

end

end
