(* ===== verification/Heartbeat_Safe.thy ===== *)
theory Heartbeat_Safe
  imports Timer_Invariant Echo_Session
begin

text \<open>
  A server as the library builds it when nobody asks for anything else, with its heartbeat on: events of the
  network and wake-ups of the timer in any order, one after the other. The application is that of \<^verbatim>\<open>main.cpp\<close>.
\<close>

declare modify_put [simp del] modify_live [simp]

section \<open>The timer runs\<close>

lemma add_node_next: "add_node v s = Inr s' \<Longrightarrow> next_id s' = next_id s"
  by (auto elim: add_node_InrD)

lemma add_nodes_next: "add_nodes vs s = Inr s' \<Longrightarrow> next_id s' = next_id s"
proof (induction vs arbitrary: s)
  case Nil
  then show ?case by simp
next
  case (Cons v vs)
  then obtain s1 where "add_node v s = Inr s1" and "add_nodes vs s1 = Inr s'" by auto
  with Cons.IH [of s1] add_node_next [of v s s1] show ?case by simp
qed

lemma cascade_next: "cascade n s = Inr (b, s') \<Longrightarrow> next_id s' = next_id s"
  by (auto simp: cascade_def Let_def dest!: add_nodes_next)

lemma cascade_next_ok: "next_id s = i \<Longrightarrow> ok (cascade n s) (\<lambda>r. next_id (snd r) = i)"
  by (rule okI) (metis cascade_next prod.collapse)

lemma cascades_next: "cascades s = Inr s' \<Longrightarrow> next_id s' = next_id s"
proof -
  have "ok (cascades s) (\<lambda>s'. next_id s' = i)" if "next_id s = i" for i
    using that by (auto simp: cascades_def intro!: ok_bnd [OF cascade_next_ok [of _ i]] split: prod.splits)
  then show "cascades s = Inr s' \<Longrightarrow> next_id s' = next_id s" by (auto dest: okD)
qed

lemma take_due_next: "take_due s = Inr (temp, s') \<Longrightarrow> next_id s' = next_id s"
  using cascades_next [of s] by (auto simp: take_due_def Let_def release_def dest!: acquire_InrD)

text \<open>What running heartbeat tasks leaves alone, and the ids of the tasks that are put back.\<close>

definition serving :: "bool \<Rightarrow> 64 word \<Rightarrow> int \<Rightarrow> 'z main_process_scheme \<Rightarrow> bool" where
  "serving hb i t s \<longleftrightarrow> server_ok s \<and> echo_knows hb {} s \<and> next_id s = i \<and> clock s = t"

lemma serving_more: "serving hb i t s \<Longrightarrow> wheel.more s' = wheel.more s \<Longrightarrow> next_id s' = next_id s \<Longrightarrow> serving hb i t s'"
  using more_server_inv [of s' s "{}"] main_knows_frame [OF _ more_same_app [of s' s]] clock_more [of s' s]
  by (auto simp: serving_def)

lemma serving_ping:
  assumes s: "serving hb i t s" and c: "heap s a = Some c"
  shows "serving hb i t (put a (queued d c) (sending fd s))"
proof -
  have "same_app s (put a (queued d c) (sending fd s))"
    using same_app_trans [OF same_app_simps(3) same_app_simps(7)] by (simp add: put_def sending_def)
  then have "echo_knows hb {} (put a (queued d c) (sending fd s))" using s main_knows_frame by (auto simp: serving_def)
  moreover have "server_ok (put a (queued d c) (sending fd s))"
    using s server_inv_upd [of "{}" "sending fd s" a c "queued d c"] c
      server_inv_cong [of "{}" s "sending fd s"] by (simp add: serving_def put_def sending_def ctl_mod_def)
  ultimately show ?thesis using s by (simp add: serving_def) (simp add: put_def sending_def ctl_mod_def)
qed

lemma run_beats_serving:
  assumes "\<forall>v \<in> set vs. circle_count v = FULL_CIRCLE" and "run_nodes ws_run_task now vs s = Inr s'"
    and "ids_ok P s" and "node_id ` set vs \<subseteq> P" and "distinct (map node_id vs)" and "serving hb i t s"
  shows "ids_ok (P - node_id ` set vs) s' \<and> serving hb i t s'"
  using assms
proof (induction vs arbitrary: P s)
  case Nil
  then show ?case by simp
next
  case (Cons v vs)
  let ?v = "v\<lparr>expire := now + interval v\<rparr>"
  from Cons.prems obtain s1 s2 where s1: "add_node ?v s = Inr s1" and s2: "ws_run_task (task_fn v) False (node_id v) s1 = Inr s2"
    and r: "run_nodes ws_run_task now vs s2 = Inr s'" by (auto simp: run_node_def Let_def)
  have ids1: "ids_ok (P - {node_id v}) s1"
    using add_node_ids [OF Cons.prems(3) _ s1] Cons.prems(4) by simp
  have serv1: "serving hb i t s1" by (rule serving_more [OF Cons.prems(6) add_node_more [OF s1] add_node_next [OF s1]])
  from s2 obtain a c where a: "heap s1 a = Some c" "s2 = put a (queued generate_websocket_ping_res c) (sending (sockfd c) s1)"
    by (rule ws_run_task_InrE)
  have "ids_ok (P - {node_id v}) s2" using ids1 by (simp add: a ids_ok_def put_def sending_def ctl_mod_def)
  moreover have "serving hb i t s2" unfolding a(2) by (rule serving_ping [OF serv1 a(1)])
  moreover have "node_id ` set vs \<subseteq> P - {node_id v}" using Cons.prems(4,5) by (simp add: subset_Diff_insert)
  moreover have "distinct (map node_id vs)" "\<forall>v \<in> set vs. circle_count v = FULL_CIRCLE" using Cons.prems by simp_all
  ultimately have "ids_ok (P - {node_id v} - node_id ` set vs) s' \<and> serving hb i t s'" using r by (intro Cons.IH)
  moreover have "P - {node_id v} - node_id ` set vs = P - node_id ` set (v # vs)" by auto
  ultimately show ?case by simp
qed

text \<open>A turn of the timer.\<close>

lemma tick_serving:
  assumes ok: "timer_ok n s" and serv: "serving hb i t s" and now: "current s \<le> now" "now < 2 ^ 61"
  shows "\<exists>s'. tick ws_run_task now s = Inr s' \<and> timer_ok n s' \<and> serving hb i t s' \<and> current s' = current s + 1"
proof -
  have w: "wheel_ok s" "ids_ok {} s" "\<not> locked s" using ok by (simp_all add: timer_ok_def)
  have K: "v \<in># keys s \<Longrightarrow> beat_of (heap s) v \<and> unat (node_id v) < unat (next_id s)"
    and T: "heap s b = Some d \<Longrightarrow> tasked (keys s) b d" for v b d
    using ok by (auto simp: timer_ok_def)
  have "\<forall>v \<in># due (current s) (keys s). beats (dom (heap s)) v"
    using K by (fastforce simp: due_def beats_def beat_of_def)
  from tick_beats [OF w(1,3) now this] obtain s' where s': "tick ws_run_task now s = Inr s'" "wheel_ok s'" "\<not> locked s'"
    "current s' = current s + 1" "heap s' = pinged (\<lambda>a. pings a (due (current s) (keys s))) (heap s)"
    "keys s' = later (current s) (keys s) + image_mset (rearm now (current s + 1)) (due (current s) (keys s))" by blast
  from s'(1) obtain temp s1 where td: "take_due s = Inr (temp, s1)" and rn: "run_nodes ws_run_task now temp s1 = Inr s'"
    by (auto simp: tick_def)
  have small: "current s < 2 ^ 61" using now by simp
  have temp: "mset (map key temp) = filter_mset (\<lambda>v. expire v \<le> current s) (keys s)"
    using take_due_exact [OF w(1,3) small] td by (metis Pair_inject sum.inject(2))
  have full: "circle_count v = FULL_CIRCLE" if "v \<in> set temp" for v
  proof -
    have "key v \<in># mset (map key temp)" using that by simp
    then have "key v \<in># keys s" unfolding temp by simp
    with K [of "key v"] show ?thesis by (simp add: beat_of_def)
  qed
  have "serving hb i t s1" by (rule serving_more [OF serv take_due_more [OF td] take_due_next [OF td]])
  with run_beats_serving [OF _ rn, of "node_id ` set temp"] take_due_ids [OF w(2) td] full
  have rest: "ids_ok {} s'" "serving hb i t s'" by auto
  have keep: "\<exists>w. w \<in># keys s' \<and> node_id w = node_id v \<and> task_fn w = task_fn v" if "v \<in># keys s" for v
  proof (cases "expire v \<le> current s")
    case True
    then have "rearm now (current s + 1) v \<in># keys s'" using that by (simp add: s'(6) due_def)
    then show ?thesis by (intro exI [of _ "rearm now (current s + 1) v"]) (simp add: rearm_def)
  next
    case False
    then show ?thesis using that by (intro exI [of _ v]) (simp add: s'(6) later_def)
  qed
  have "beat_of (heap s') v \<and> unat (node_id v) < unat (next_id s')" if "v \<in># keys s'" for v
  proof -
    from that obtain w where w: "w \<in># keys s" "circle_count w = FULL_CIRCLE \<longrightarrow> circle_count v = FULL_CIRCLE" "interval v = interval w"
      "node_id v = node_id w" "task_fn v = task_fn w"
      unfolding s'(6) by (fastforce simp: due_def later_def rearm_def)
    then show ?thesis using K [OF w(1)] rest(2) serv by (auto simp: s'(5) pinged_def beat_of_def serving_def)
  qed
  moreover have "tasked (keys s') a d" if "heap s' a = Some d" for a d
    using that T [of a] keep unfolding s'(5) by (fastforce simp: pinged_def tasked_def)
  ultimately have "timer_ok n s'" using ok s'(2,3) rest serv by (simp add: timer_ok_def serving_def)
  with s'(1,4) rest(2) show ?thesis by blast
qed

lemma check_loop_serving:
  "timer_ok n s \<Longrightarrow> serving hb i t s \<Longrightarrow> now < 2 ^ 61 \<Longrightarrow> now + 1 - current s \<le> int k
   \<Longrightarrow> \<exists>s'. check_loop k ws_run_task now s = Inr s' \<and> timer_ok n s' \<and> serving hb i t s'"
proof (induction k arbitrary: s)
  case 0
  then show ?case by auto
next
  case (Suc k)
  show ?case
  proof (cases "current s \<le> now")
    case True
    from tick_serving [OF Suc.prems(1,2) True Suc.prems(3)] obtain s1 where s1: "tick ws_run_task now s = Inr s1"
      "timer_ok n s1" "serving hb i t s1" "current s1 = current s + 1" by blast
    with Suc.IH [OF s1(2,3)] Suc.prems True show ?thesis by auto
  next
    case False
    with Suc.prems show ?thesis by auto
  qed
qed

lemma check_serving:
  assumes "timer_ok n s" and "serving hb i t s"
  shows "\<exists>s'. check ws_run_task (clock s) s = Inr s' \<and> timer_ok n s' \<and> serving hb i t s'"
  unfolding check_def by (rule check_loop_serving [OF assms]) (use assms(1) in \<open>simp_all add: timer_ok_def\<close>)

section \<open>The application keeps away from the timer\<close>

lemma greet_all_timely: "timer_busy B n s \<Longrightarrow> timely (greet_all vs s) (timer_busy B n)"
  by (induction vs arbitrary: s) (auto intro!: timely_bnd [OF ws_send_timely])

interpretation beating: timed_app cr main_user for cr
proof
  fix B n u a and s :: "'z main_process_scheme"
  assume ok: "timer_busy B n s"
  have "timer_busy B n (s\<lparr>wb_clients := vs\<rparr>)" for vs by (rule timer_busy_frame [OF ok]) simp_all
  then show "timely (main_user u a s) (timer_busy B n)"
    by (cases u) (auto simp: main_user_def Let_def ok ws_send_timely greet_all_timely intro!: timely_deref simp del: greet_all.simps)
qed

section \<open>Runs\<close>

text \<open>\<^verbatim>\<open>main\<close>, but for the last argument of the constructor, which is left at its default.\<close>

definition default_setup :: "int \<Rightarrow> int \<Rightarrow> int \<Rightarrow> 'z main_process_scheme \<Rightarrow> 'z main_process_scheme res" where
  "default_setup fd bind_ret efd s =
     bnd (websocket_server_init (bytes_of ''0.0.0.0'') 8192 True fd bind_ret efd s) (\<lambda>s1.
     let s2 = s1\<lparr>wb_clients := []\<rparr>;
         s3 = ws_register_connected_callback (Some On_connected) s2;
         s4 = ws_register_recv_callback (Some On_recv) s3
     in Inr (register_disconnect_callback (Some (User On_disconnect)) s4))"

definition unused_timer :: "'z main_process_scheme \<Rightarrow> bool" where
  "unused_timer s \<longleftrightarrow> heap s = Map.empty \<and> tv s = replicate 512 [] \<and> id_map s = Map.empty \<and> \<not> init s \<and> \<not> locked s
     \<and> next_id s = 1 \<and> 0 \<le> clock s \<and> clock s < 2 ^ 61"

text \<open>\<open>n\<close> counts the events, each of which takes at most one id. Nobody sends a single byte.\<close>

inductive beat_run :: "crypto \<Rightarrow> nat \<Rightarrow> 'z main_process_scheme \<Rightarrow> bool" for cr where
  started_up: "unused_timer s0 \<Longrightarrow> default_setup fd bind_ret efd s0 = Inr s \<Longrightarrow> beat_run cr 1 s"
| event: "beat_run cr n s \<Longrightarrow> n < 2 ^ 32 \<Longrightarrow> fresh_fd e s \<Longrightarrow> length (received (recvs e)) \<noteq> 1
    \<Longrightarrow> handle_event (main_hooks cr) e s = Inr s' \<Longrightarrow> beat_run cr (Suc n) s'"
| wake_up: "beat_run cr n s \<Longrightarrow> check ws_run_task (clock s) s = Inr s' \<Longrightarrow> beat_run cr n s'"
| time_passes: "beat_run cr n s \<Longrightarrow> clock s \<le> t \<Longrightarrow> t < 2 ^ 61 \<Longrightarrow> beat_run cr n (s\<lparr>clock := t\<rparr>)"

lemma default_setup_ok:
  assumes "unused_timer s0" and "default_setup fd bind_ret efd s0 = Inr s"
  shows "timer_ok 1 s \<and> server_ok s \<and> echo_knows True {} s"
proof -
  have "heap s = Map.empty" "clients s = Map.empty" "echo_knows True {} s" "tv s = replicate 512 []" "id_map s = Map.empty"
    "\<not> locked s" "next_id s = 1" "0 \<le> clock s" "clock s < 2 ^ 61" "current s = clock s"
    using assms
    by (auto simp: unused_timer_def default_setup_def websocket_server_init_def tcp_server_init_def init_tcp_server_def
        init_epoll_def ctl_add_def Let_def ws_register_sent_callback_def ws_register_connected_callback_def
        ws_register_recv_callback_def register_sent_callback_def register_recv_callback_def init_time_wheel_def release_def
        register_disconnect_callback_def echo_knows_def split: if_splits)
  moreover from this have "keys s = {#}" "wheel_ok s" "ids_ok {} s"
    using OFFSET_less by (simp_all add: keys_def nodes_def wheel_ok_def ids_ok_def slots_ok_def)
  ultimately show ?thesis by (simp add: timer_ok_def server_inv_def)
qed

lemma main_hooks_ws: "main_hooks cr = ws_hooks cr main_user"
  by (simp add: main_hooks_def)

lemma echo_ready: "client_objects.ready (echo_knows hb) s \<longleftrightarrow> server_ok s \<and> echo_knows hb {} s"
  by (simp add: client_objects.ready_def [OF echo.ws_objects_ok])

lemma beat_run_ok: "beat_run cr n s \<Longrightarrow> timer_ok n s \<and> server_ok s \<and> echo_knows True {} s"
proof (induction rule: beat_run.induct)
  case (started_up s0 fd bind_ret efd s)
  then show ?case by (rule default_setup_ok)
next
  case (event n s e s')
  have "client_objects.ready (echo_knows True) s" using event.IH by (simp add: echo_ready)
  from echo.handle_event_inv [OF this event.hyps(3), of cr] event.hyps(5)
  have "server_ok s' \<and> echo_knows True {} s'" by (simp add: main_hooks_ws ok_def echo_ready)
  moreover from beating.handle_event_spared [of nothing n s e cr] event
  have "timer_ok (Suc n) s'" by (simp add: main_hooks_ws nothing_def)
  ultimately show ?case by simp
next
  case (wake_up n s s')
  then show ?case using check_serving [of n s True "next_id s" "clock s"] by (auto simp: serving_def)
next
  case (time_passes n s t)
  then show ?case by (simp add: timer_ok_def wheel_ok_def ids_ok_def keys_def nodes_def server_inv_def echo_knows_def)
qed

text \<open>A request that upgrades arms the heartbeat of its connection: a ping in three seconds, and so on.\<close>

lemma received_data: "received (map Received ds @ Recv_again # rs) = concat ds"
  by (induction ds) simp_all

lemma upgrade_arms:
  assumes run: "beat_run cr n s" "n < 2 ^ 32" and sizes: "openssl_sizes cr"
    and r: "reading e data" and fd: "ev_fd e \<noteq> listen_fd s" "clients s (ev_fd e) = Some a"
    and c: "heap s a = Some c" "is_connected c = NONE" "http_header c = Map.empty"
    and req: "good_request verb path version hs" "data = render_request verb path version hs @ rest" "upgrades (map_of hs) k"
  shows "\<exists>s' v. handle_event (main_hooks cr) e s = Inr s' \<and> beat_run cr (Suc n) s'
    \<and> v \<in># keys s' \<and> task_fn v = Heartbeat_task a \<and> interval v = 3000 \<and> expire v \<le> clock s + 3000 \<and> current s' = current s \<and> clock s' = clock s"
proof -
  have ok: "timer_ok n s" "server_ok s" "echo_knows True {} s" using beat_run_ok [OF run(1)] by simp_all
  let ?c1 = "c\<lparr>http_header := request_fields verb path hs, recv_buffer := data\<rparr>"
  let ?c2 = "(queued (generate_websocket_shake_hands_res (accept_value cr k)) ?c1)\<lparr>is_connected := WAIT_SHAKE\<rparr>"
  let ?s2 = "put a ?c2 (sending (sockfd c) s)"
  have parsed: "decode_http_header data (http_header c) = Inr (True, request_fields verb path hs)"
    using request_parsed [OF req(1)] by (simp add: req(2) c)
  have "websocket_shake_hands cr a (put a ?c1 s) = Inr (True, ?s2)"
    using shake_hands_upgrades [of "put a ?c1 s" a ?c1 k cr] req(3) sizes by (simp add: sending_put upgrades_request)
  with handshake_request [OF c(1,2) parsed, of cr main_user] ok(3)
  have step: "ws_decode_proto_data cr main_user a data s = bnd (add_to_time_wheel_heartbeat a ?s2) (\<lambda>s3. Inr (False, s3))"
    by (simp add: echo_knows_def)
  have "clock ?s2 = clock s" by simp
  have w: "wheel_ok ?s2" "\<not> locked ?s2" "0 \<le> clock ?s2" "clock ?s2 \<le> 2 ^ 61" using ok(1) by (simp_all add: timer_ok_def)
  from add_task_keys [OF this, of 3000 0 "Heartbeat_task a" FULL_CIRCLE False] obtain i t v where
    t: "add_task (clock ?s2) (Heartbeat_task a) 3000 FULL_CIRCLE False 0 ?s2 = Inr (i, t)" "wheel.more t = wheel.more ?s2"
      "v \<in># keys t" "task_fn v = Heartbeat_task a" "interval v = 3000"
      "expire v \<le> clock s + 3000" "current t = current s" by force
  let ?s3 = "put a (?c2\<lparr>time_wheel_heartbeat_id := i\<rparr>) t"
  have "heap t a = Some ?c2" using clock_more [OF t(2)] by simp
  then have "add_to_time_wheel_heartbeat a ?s2 = Inr ?s3" using t(1) by (simp add: add_to_time_wheel_heartbeat_def put_def)
  moreover have "data \<noteq> []" by (simp add: req(2) render_request_def)
  ultimately have h: "handle_event (main_hooks cr) e s = Inr ?s3"
    using handle_reading [OF r fd, of "main_hooks cr"] step fd by (simp add: deliver_def)
  have "length data \<noteq> 1" by (simp add: req(2) render_request_def)
  then have "length (received (recvs e)) \<noteq> 1" "fresh_fd e s" using r by (auto simp: reading_def received_data fresh_fd_def)
  from beat_run.event [OF run this(2,1) h] h t(3-7) clock_more [OF t(2)] show ?thesis by (intro exI [of _ ?s3] exI [of _ v]) simp
qed

text \<open>A process in which such a server is started, and its first connection.\<close>

definition default_started :: main_process where
  "default_started = projr (default_setup 3 0 4 main_init)"

lemma unused_main_init: "unused_timer main_init"
  by (simp add: unused_timer_def main_init_def process_init_def websocket_process.extend_def process.extend_def
      websocket_process.fields_def process.fields_def wheel.extend_def wheel_init_def)

lemma default_started:
  "default_setup 3 0 4 main_init = Inr default_started" "listen_fd default_started = 3"
  "open_fds default_started = {0, 1, 2, 3, 4}" "next_addr default_started = 0" "clock default_started = 0" "current default_started = 0"
  using unused_main_init
  by (auto simp: default_started_def default_setup_def websocket_server_init_def tcp_server_init_def init_tcp_server_def
      init_epoll_def Let_def init_time_wheel_def unused_timer_def main_init_def process_init_def websocket_process.extend_def
      process.extend_def websocket_process.fields_def process.fields_def wheel.extend_def wheel_init_def
      ws_register_sent_callback_def ws_register_connected_callback_def ws_register_recv_callback_def register_sent_callback_def
      register_recv_callback_def register_disconnect_callback_def ctl_add_def release_def)

lemma beat_run_started: "beat_run cr 1 default_started"
  by (rule beat_run.started_up [OF unused_main_init default_started(1)])

lemma sample_beating:
  "\<exists>(s :: main_process) v. beat_run sample_crypto 3 s \<and> v \<in># keys s \<and> task_fn v = Heartbeat_task 0 \<and> expire v \<le> 3000 \<and> current s = 0 \<and> clock s = 0"
proof -
  let ?s = "default_started" and ?e1 = "sample_arrival" and ?e2 = "sample_reading [sample_get]"
  have ok: "server_ok ?s" "echo_knows True {} ?s" using beat_run_ok [OF beat_run_started] by simp_all
  have arr: "arriving ?e1 7 ?s" by (simp add: arriving_def sample_arrival_def default_started)
  obtain peer rand where acc: "accepts ?e1 = Some (7, peer, rand)" by (simp add: sample_arrival_def)
  define s1 where "s1 = ctl_add 7 (EPOLLIN OR EPOLLET) (accepted (main_hooks sample_crypto) 7 peer rand ?s)"
  let ?c = "(new_websocket_client rand)\<lparr>sockfd := 7, ip := inet_ntop (sin_addr peer), port := int (ntohs (sin_port peer))\<rparr>"
  have e1: "handle_event (main_hooks sample_crypto) ?e1 ?s = Inr s1" using arrival_state [OF ok arr acc] by (simp add: s1_def)
  have s1: "heap s1 0 = Some ?c" "clients s1 7 = Some 0" "listen_fd s1 = 3"
    by (simp_all add: s1_def ctl_add_def accepted_def default_started)
  have c: "is_connected ?c = NONE" "http_header ?c = Map.empty" by (simp_all add: new_websocket_client_def Let_def)
  have "fresh_fd ?e1 ?s" "length (received (recvs ?e1)) \<noteq> 1"
    by (simp_all add: fresh_fd_def sample_arrival_def default_started)
  moreover have n: "(1 :: nat) < 2 ^ 32" "(2 :: nat) < 2 ^ 32" by simp_all
  ultimately have "beat_run sample_crypto (Suc 1) s1" using beat_run.event [OF beat_run_started n(1) _ _ e1] by blast
  then have run: "beat_run sample_crypto 2 s1" by (simp only: Suc_1)
  have get: "reading ?e2 sample_get"
    using sample_events(2) [of "[sample_get]"] by (simp del: sample_events)
  have at: "ev_fd ?e2 \<noteq> listen_fd s1" "clients s1 (ev_fd ?e2) = Some 0" using s1(2,3) by simp_all
  from upgrade_arms [OF run n(2) sample_openssl_sizes get at s1(1) c sample_request sample_get_rest sample_upgrades]
  obtain s' :: main_process and v where "beat_run sample_crypto (Suc 2) s'" "v \<in># keys s'" "task_fn v = Heartbeat_task 0"
    "expire v \<le> clock s1 + 3000" "current s' = current s1" "clock s' = clock s1" by blast
  moreover have "clock s1 = 0" "current s1 = 0" by (simp_all add: s1_def ctl_add_def accepted_def default_started)
  ultimately have "beat_run sample_crypto (Suc 2) s' \<and> v \<in># keys s' \<and> task_fn v = Heartbeat_task 0 \<and> expire v \<le> 3000 \<and> current s' = 0 \<and> clock s' = 0" by simp
  then show ?thesis by (auto simp: numeral_3_eq_3 numeral_2_eq_2)
qed

text \<open>A client has one task, so it is pinged once.\<close>

lemma single_filter:
  assumes "\<And>v. count M v \<le> 1" and "\<And>v w. v \<in># M \<Longrightarrow> w \<in># M \<Longrightarrow> P v \<Longrightarrow> P w \<Longrightarrow> v = w"
  shows "size (filter_mset P M) = (if \<exists>v. v \<in># M \<and> P v then 1 else 0)"
proof (cases "\<exists>v. v \<in># M \<and> P v")
  case True
  then obtain v where v: "v \<in># M" "P v" by blast
  have "filter_mset P M = replicate_mset (count M v) v"
    using assms(2) [OF v(1) _ v(2)] v(2) by (intro multiset_eqI) (auto simp: not_in_iff [symmetric])
  moreover have "count M v = 1" using assms(1) [of v] v(1) by (simp add: count_greater_zero_iff [symmetric] del: count_greater_zero_iff)
  ultimately show ?thesis using True by simp
next
  case False
  then have "filter_mset P M = {#}" by (intro filter_mset_none) blast
  with False show ?thesis by auto
qed

lemma distinct_concat_nth:
  assumes "\<And>i. i < length xs \<Longrightarrow> distinct (xs ! i)"
    and "\<And>i j x. i < length xs \<Longrightarrow> j < length xs \<Longrightarrow> x \<in> set (xs ! i) \<Longrightarrow> x \<in> set (xs ! j) \<Longrightarrow> i = j"
  shows "distinct (concat xs)"
  using assms
proof (induction xs)
  case (Cons x xs)
  have "distinct (concat xs)"
  proof (rule Cons.IH)
    show "distinct (xs ! i)" if "i < length xs" for i using Cons.prems(1) [of "Suc i"] that by simp
    show "i = j" if "i < length xs" "j < length xs" "y \<in> set (xs ! i)" "y \<in> set (xs ! j)" for i j y
      using Cons.prems(2) [of "Suc i" "Suc j" y] that by simp
  qed
  moreover have "y \<notin> set x" if "y \<in> set (concat xs)" for y
  proof -
    from that obtain j where "j < length xs" "y \<in> set (xs ! j)" by (metis UN_E in_set_conv_nth set_concat)
    then show ?thesis using Cons.prems(2) [of 0 "Suc j" y] by auto
  qed
  ultimately show ?case using Cons.prems(1) [of 0] by auto
qed simp

lemma single_key:
  assumes ok: "ids_ok P s"
  shows "count (keys s) v \<le> 1"
proof -
  let ?ids = "map (map node_id) (tv s)"
  have len: "length (tv s) = 512" and dist: "\<And>ix. ix < 512 \<Longrightarrow> distinct (map node_id (tv s ! ix))"
    and id: "\<And>ix v. ix < 512 \<Longrightarrow> v \<in> set (tv s ! ix) \<Longrightarrow> id_map s (node_id v) = Some ix"
    using ok by (simp_all add: ids_ok_def)
  have "distinct (concat ?ids)"
  proof (rule distinct_concat_nth)
    show "distinct (?ids ! i)" if "i < length ?ids" for i using that dist len by simp
    show "i = j" if i: "i < length ?ids" "j < length ?ids" "x \<in> set (?ids ! i)" "x \<in> set (?ids ! j)" for i j x
    proof -
      from i len obtain v w where "v \<in> set (tv s ! i)" "w \<in> set (tv s ! j)" "node_id v = x" "node_id w = x" by auto
      with id [of i v] id [of j w] i len show ?thesis by simp
    qed
  qed
  then have "distinct (map node_id (map key (nodes s)))" by (simp add: nodes_def map_concat comp_def)
  then have "distinct (map key (nodes s))" unfolding distinct_map by blast
  then show ?thesis by (simp add: keys_def distinct_count_atmost_1)
qed

lemma due_once:
  assumes ok: "timer_ok n s"
  shows "pings a (due t (keys s)) = (if \<exists>v. v \<in># keys s \<and> task_fn v = Heartbeat_task a \<and> expire v \<le> t then 1 else 0)"
proof -
  let ?P = "\<lambda>v. task_fn v = Heartbeat_task a \<and> expire v \<le> t"
  have K: "v \<in># keys s \<Longrightarrow> beat_of (heap s) v" for v using ok by (simp add: timer_ok_def)
  have "v = w" if "v \<in># keys s" "w \<in># keys s" "?P v" "?P w" for v w
    using unique_node [of "{}" s v w] that K [OF that(1)] K [OF that(2)] ok by (auto simp: beat_of_def timer_ok_def)
  moreover have "count (keys s) v \<le> 1" for v using single_key [of "{}" s v] ok by (simp add: timer_ok_def)
  ultimately have "size (filter_mset ?P (keys s)) = (if \<exists>v. v \<in># keys s \<and> ?P v then 1 else 0)" by (intro single_filter) blast+
  then show ?thesis by (simp add: pings_def due_def filter_filter_mset conj_commute)
qed

lemma pinged_client:
  "beat_run cr n s \<Longrightarrow> v \<in># keys s \<Longrightarrow> task_fn v = Heartbeat_task a \<Longrightarrow> \<exists>c. heap s a = Some c \<and> time_wheel_heartbeat_id c = node_id v"
  using beat_run_ok [of cr n s] by (auto simp: timer_ok_def beat_of_def)

section \<open>The properties\<close>





text \<open>
  In every state of such a run a wake-up of the timer comes back, and an event, however its bytes look, meets
  no deleted client, no dangling reference, no lock that stays taken and no stale iterator, if the stream does
  not end behind data, no \<^verbatim>\<open>send\<close> fails, the packet is not a single byte (which arms the closing whose
  task dangles) and fewer than \<open>2 ^ 32\<close> ids have been given out. Timer and event loop get on, as long as they
  take turns.
\<close>

lemma heartbeat_run_safe:
  assumes "beat_run cr n s" and "n < 2 ^ 32" and "fresh_fd e s" and "polite e" and "length (received (recvs e)) \<noteq> 1"
  shows "(\<exists>s'. check ws_run_task (clock s) s = Inr s')
    \<and> handle_event (main_hooks cr) e s \<notin> Inl ` {Use_after_free, Dangling_reference, Spin_forever, Bad_iterator}"
proof -
  have ok: "timer_ok n s" "server_ok s" "echo_knows True {} s" using beat_run_ok [OF assms(1)] by simp_all
  then have "\<exists>s'. check ws_run_task (clock s) s = Inr s'"
    using check_serving [of n s True "next_id s" "clock s"] by (auto simp: serving_def)
  moreover have "handle_event (main_hooks cr) e s \<notin> Inl ` {Use_after_free, Dangling_reference, Spin_forever, Bad_iterator}"
    using beating.handle_event_spared [OF ok(1) _ _ assms(2) ok(2) assms(5), of cr] echo.handle_event_safe [of True s e cr] assms(3,4) ok
    by (auto simp: timely_def safe_def main_hooks_ws echo_ready nothing_def)
  ultimately show ?thesis by blast
qed

end
