(* ===== verification/Timer_Race.thy ===== *)
theory Timer_Race
  imports Websocket_Closing
begin

declare modify_live [simp del] modify_put [simp]

text \<open>
  The timer's thread and the event loop. \<^verbatim>\<open>check\<close> moves the due tasks out of their slot under the lock and
  runs them without it; between the two the event loop can erase one of them.
\<close>

section \<open>Tasks that have been taken out\<close>

text \<open>The map still leads from the id of such a task to the slot it has left.\<close>

lemma taken_ids:
  assumes ok: "ids_ok {} s" and r: "take_due s = Inr (temp, s')" and v: "v \<in> set temp"
  shows "id_map s' (node_id v) = Some (nat (current s AND 255))"
    and "node_id v \<notin> node_id ` set (tv s' ! nat (current s AND 255))"
proof -
  let ?ix = "nat (current s AND 255)"
  have ix: "?ix < 512" by (simp add: and_255 nat_less_iff order.strict_trans2 [of _ 256])
  from r obtain s1 where cs: "cascades s = Inr s1" and temp: "temp = tv s1 ! ?ix"
    and s': "s' = s1\<lparr>current := current s1 + 1, locked := False, tv := (tv s1)[?ix := []]\<rparr>"
    by (auto simp: take_due_def Let_def release_def dest!: acquire_InrD)
  have "ids_ok {} s1" by (rule cascades_ids [OF ok cs])
  with v ix show "id_map s' (node_id v) = Some ?ix" "node_id v \<notin> node_id ` set (tv s' ! ?ix)"
    unfolding s' temp by (auto simp: ids_ok_def)
qed

lemma erase_taken:
  assumes "ids_ok {} s" and "take_due s = Inr (temp, s')" and "v \<in> set temp" and "\<not> locked s'" and "node_id v = ucast i"
  shows "erase_task i s' = Inl Bad_iterator"
  using taken_ids [OF assms(1-3)] assms(4,5) by (simp add: erase_task_def)

lemma take_due_taken:
  assumes "wheel_ok s" and "\<not> locked s" and "current s < 2 ^ 61" and "v \<in># keys s" and "expire v \<le> current s"
  obtains temp s' w where "take_due s = Inr (temp, s')" and "\<not> locked s'" and "w \<in> set temp" and "node_id w = node_id v"
proof -
  from take_due_exact [OF assms(1-3)] obtain temp s' where t: "take_due s = Inr (temp, s')" "\<not> locked s'"
    "mset (map key temp) = filter_mset (\<lambda>v. expire v \<le> current s) (keys s)" by blast
  have "v \<in># mset (map key temp)" unfolding t(3) using assms(4,5) by simp
  then obtain w where "w \<in> set temp" "v = key w" by auto
  with t show thesis by (intro that [of temp s' w]) (simp_all add: key_def)
qed

section \<open>Closing a client while its heartbeat is due\<close>

text \<open>
  When the timer's thread has taken the heartbeat task of a client and the event loop closes that client
  before the thread has come to it, the destructor erases the task from a list it is not in any more. The
  lock does not help: it is free between the two steps.
\<close>

theorem close_races_timer:
  assumes "wheel_ok s" and "\<not> locked s" and "current s < 2 ^ 61" and "ids_ok {} s"
    and c: "heap s a = Some c" "time_wheel_id c = 0" "time_wheel_heartbeat_id c \<noteq> 0"
    and small: "time_wheel_heartbeat_id c < 2 ^ 32"
    and v: "v \<in># keys s" "expire v \<le> current s" "node_id v = time_wheel_heartbeat_id c" and app: "disconnect_f s = None"
  shows "\<exists>temp s1. take_due s = Inr (temp, s1) \<and> \<not> locked s1 \<and> close_client (ws_objects user) a s1 = Inl Bad_iterator"
proof -
  from take_due_taken [OF assms(1-3) v(1,2)] obtain temp s1 w where t: "take_due s = Inr (temp, s1)" "\<not> locked s1"
    "w \<in> set temp" "node_id w = node_id v" by blast
  have more: "wheel.more s1 = wheel.more s" by (rule take_due_more [OF t(1)])
  then have s1: "heap s1 a = Some c" "disconnect_f s1 = None"
    using c(1) app more_heap [OF more] more_disconnect [OF more] by simp_all
  let ?i = "ucast (time_wheel_heartbeat_id c) :: 32 word" and ?t = "detach (sockfd c) s1"
  have "node_id w = ucast ?i" using t(4) v(3) ucast_ucast_small [OF small] by simp
  with erase_taken [OF assms(4) t(1,3,2)] have "erase_task ?i s1 = Inl Bad_iterator" by simp
  moreover have "erase_task ?i ?t = Inl Bad_iterator" if "erase_task ?i s1 = Inl Bad_iterator"
    using that t(2) by (auto simp: erase_task_def detach_def ctl_del_def sys_close_def acquire_def split: option.splits if_splits)
  ultimately have "ws_destructor a ?t = Inl Bad_iterator"
    using s1 c by (simp add: ws_destructor_def)
  then have "close_client (ws_objects user) a s1 = Inl Bad_iterator"
    using s1 by (simp add: close_client_live call_opt_def delete_client_def ws_objects_def)
  with t show ?thesis by blast
qed

text \<open>The client of the example with a heartbeat task that is due.\<close>

lemma sample_timed_ids: "ids_ok {} sample_timed" "id_map sample_timed 1 = None"
  by (auto simp: ids_ok_def sample_timed_def sample_ws_def process.extend_def one_client_def process_init_def
      wheel_init_def wheel.extend_def)

theorem close_races_timer_witness:
  "\<exists>s temp s1 :: unit websocket_process. wheel_ok s \<and> ids_ok {} s \<and> take_due s = Inr (temp, s1)
    \<and> close_client (ws_objects no_user) 0 s1 = Inl Bad_iterator"
proof -
  obtain s0 where s0: "add_task 1000 (Heartbeat_task 0) 0 FULL_CIRCLE False 0 sample_timed = Inr (1, s0)" "wheel_ok s0"
    "\<not> locked s0" "current s0 = 1000" "heap s0 = [0 \<mapsto> sample_ws_client]"
    "keys s0 = {#\<lparr>task_fn = Heartbeat_task 0, expire = 1000, interval = 0, circle_count = FULL_CIRCLE, slot = 0, node_id = 1\<rparr>#}" "disconnect_f s0 = None"
    by (rule sample_timed_task [of 0 "Heartbeat_task 0" FULL_CIRCLE]) simp_all
  have ids: "ids_ok {} s0"
    using add_task_ids [OF sample_timed_ids(1) _ s0(1)] sample_timed_ids(2) sample_timed_ok(5) by simp
  let ?c = "sample_ws_client\<lparr>time_wheel_heartbeat_id := 1\<rparr>"
  let ?s = "put 0 ?c s0"
  have "\<exists>temp s1. take_due ?s = Inr (temp, s1) \<and> \<not> locked s1 \<and> close_client (ws_objects no_user) 0 s1 = Inl Bad_iterator"
    using s0 ids by (intro close_races_timer [where c = ?c and v = "\<lparr>task_fn = Heartbeat_task 0, expire = 1000, interval = 0,
      circle_count = FULL_CIRCLE, slot = 0, node_id = 1\<rparr>"]) simp_all
  moreover have "wheel_ok ?s" "ids_ok {} ?s" using s0(2) ids by simp_all
  ultimately show ?thesis by blast
qed

end
