(* ===== verification/Two_Threads.thy ===== *)
theory Two_Threads
  imports Heartbeat_Safe Timer_Race
begin

text \<open>
  The thread that \<^verbatim>\<open>init_time_wheel\<close> starts and the event loop, step by step. The timer's thread stops between
  the regions that \<^verbatim>\<open>check\<close> puts under the lock, and between putting a task back and calling it; there the event
  loop handles events. What one step does is not divided: the moving of lists in \<^verbatim>\<open>cascade\<close>, which takes no
  lock, belongs to the step that takes the due tasks, and so does the push of a ping to the queue of a client.
\<close>

section \<open>The timer's thread in steps\<close>

datatype 'f timer_pc =
    Asleep
  | Awake int
  | Running int "'f time_node list"
  | Calling int bool "'f time_node" "'f time_node list"

text \<open>One turn of the \<^verbatim>\<open>for\<close> in \<^verbatim>\<open>check\<close>, up to the call of the task.\<close>

definition rearm_node ::
    "int \<Rightarrow> 'f time_node \<Rightarrow> ('f, 'z) wheel_scheme \<Rightarrow> (bool \<times> 'f time_node \<times> ('f, 'z) wheel_scheme) res" where
  "rearm_node now v s =
     (let v1 = (if circle_count v = FULL_CIRCLE then v else v\<lparr>circle_count := circle_count v - 1\<rparr>) in
      if circle_count v = FULL_CIRCLE \<or> circle_count v1 \<noteq> 0
      then bnd (add_node (v1\<lparr>expire := now + interval v1\<rparr>) s) (\<lambda>s1. Inr (False, v1, s1))
      else Inr (True, v1, s\<lparr>id_map := (id_map s)(node_id v1 := None)\<rparr>))"

text \<open>\<open>t\<close> is the clock, which \<^verbatim>\<open>check\<close> reads when it begins.\<close>

fun timer_step ::
    "('f \<Rightarrow> bool \<Rightarrow> 64 word \<Rightarrow> ('f, 'z) wheel_scheme \<Rightarrow> ('f, 'z) wheel_scheme res) \<Rightarrow> int
     \<Rightarrow> 'f timer_pc \<Rightarrow> ('f, 'z) wheel_scheme \<Rightarrow> ('f timer_pc \<times> ('f, 'z) wheel_scheme) res" where
  "timer_step run t Asleep s = Inr (Awake t, s)"
| "timer_step run t (Awake now) s =
     (if current s \<le> now then bnd (take_due s) (\<lambda>(temp, s1). Inr (Running now temp, s1)) else Inr (Asleep, s))"
| "timer_step run t (Running now []) s = Inr (Awake now, s)"
| "timer_step run t (Running now (v # vs)) s =
     bnd (rearm_node now v s) (\<lambda>(d, v1, s1). Inr (Calling now d v1 vs, s1))"
| "timer_step run t (Calling now d v vs) s =
     bnd (run (task_fn v) d (node_id v) s) (\<lambda>s1. Inr (Running now vs, s1))"

fun timer_steps ::
    "nat \<Rightarrow> ('f \<Rightarrow> bool \<Rightarrow> 64 word \<Rightarrow> ('f, 'z) wheel_scheme \<Rightarrow> ('f, 'z) wheel_scheme res) \<Rightarrow> int
     \<Rightarrow> 'f timer_pc \<Rightarrow> ('f, 'z) wheel_scheme \<Rightarrow> ('f timer_pc \<times> ('f, 'z) wheel_scheme) res" where
  "timer_steps 0 run t pc s = Inr (pc, s)"
| "timer_steps (Suc k) run t pc s = bnd (timer_step run t pc s) (\<lambda>(pc1, s1). timer_steps k run t pc1 s1)"

text \<open>With nothing in between, the steps are \<^verbatim>\<open>check\<close>.\<close>

lemma run_node_halves:
  "run_node run now v s = bnd (rearm_node now v s) (\<lambda>(d, v1, s1). run (task_fn v1) d (node_id v1) s1)"
  by (simp add: run_node_def rearm_node_def Let_def bnd_assoc)

lemma run_nodes_steps:
  "timer_steps (Suc (2 * length vs) + k) run t (Running now vs) s
     = bnd (run_nodes run now vs s) (\<lambda>s1. timer_steps k run t (Awake now) s1)"
proof (induction vs arbitrary: s)
  case (Cons v vs)
  show ?case
  proof (cases "rearm_node now v s")
    case (Inr r)
    obtain d v1 s1 where "r = (d, v1, s1)" by (cases r)
    with Inr Cons.IH show ?thesis
      by (cases "run (task_fn v1) d (node_id v1) s1") (simp_all add: run_node_halves)
  qed (simp add: run_node_halves)
qed simp

lemma check_loop_steps:
  "check_loop m run now s = Inr s' \<Longrightarrow> \<exists>k. timer_steps k run t (Awake now) s = Inr (Asleep, s')"
proof (induction m arbitrary: s)
  case 0
  then show ?case by (intro exI [of _ "Suc 0"]) (simp split: if_splits)
next
  case (Suc m)
  show ?case
  proof (cases "current s \<le> now")
    case True
    with Suc.prems obtain temp s1 s2 where td: "take_due s = Inr (temp, s1)" "run_nodes run now temp s1 = Inr s2"
      "check_loop m run now s2 = Inr s'" by (auto simp: tick_def)
    from Suc.IH [OF td(3)] obtain k where k: "timer_steps k run t (Awake now) s2 = Inr (Asleep, s')" by blast
    have "timer_steps (Suc (Suc (2 * length temp) + k)) run t (Awake now) s = Inr (Asleep, s')"
      using True td(1,2) k run_nodes_steps [of temp k run t now s1] by simp
    then show ?thesis by blast
  next
    case False
    with Suc.prems show ?thesis by (intro exI [of _ "Suc 0"]) simp
  qed
qed

lemma check_steps: "check run t s = Inr s' \<Longrightarrow> \<exists>k. timer_steps k run t Asleep s = Inr (Asleep, s')"
  using check_loop_steps [of _ run t s s' t] unfolding check_def by (metis timer_step.simps(1) timer_steps.simps(2) bnd_simps(2) case_prod_conv)

section \<open>Both threads\<close>

text \<open>The clients whose tasks the timer's thread has taken and not yet called.\<close>

fun targets :: "task timer_pc \<Rightarrow> addr set" where
  "targets (Running now vs) = {a. Heartbeat_task a \<in> task_fn ` set vs}"
| "targets (Calling now d v vs) = {a. Heartbeat_task a \<in> task_fn ` set (v # vs)}"
| "targets _ = {}"

fun waiting :: "'f timer_pc \<Rightarrow> 'f time_node list" where
  "waiting (Running now vs) = vs"
| "waiting (Calling now d v vs) = vs"
| "waiting _ = []"

text \<open>
  An event of the network that leaves these clients alone; events on every other line, the listening socket
  included, come at any point.
\<close>

definition spares :: "task timer_pc \<Rightarrow> event \<Rightarrow> ('u, 'z) websocket_process_scheme \<Rightarrow> bool" where
  "spares pc e s \<longleftrightarrow> (\<forall>a. clients s (ev_fd e) = Some a \<longrightarrow> a \<notin> targets pc)"

inductive interleaved :: "crypto \<Rightarrow> nat \<Rightarrow> task timer_pc \<Rightarrow> 'z main_process_scheme \<Rightarrow> bool" for cr where
  started_up: "unused_timer s0 \<Longrightarrow> default_setup fd bind_ret efd s0 = Inr s \<Longrightarrow> interleaved cr 1 Asleep s"
| event: "interleaved cr n pc s \<Longrightarrow> n < 2 ^ 32 \<Longrightarrow> fresh_fd e s \<Longrightarrow> length (received (recvs e)) \<noteq> 1 \<Longrightarrow> spares pc e s
    \<Longrightarrow> handle_event (main_hooks cr) e s = Inr s' \<Longrightarrow> interleaved cr (Suc n) pc s'"
| timer: "interleaved cr n pc s \<Longrightarrow> timer_step ws_run_task (clock s) pc s = Inr (pc', s') \<Longrightarrow> interleaved cr n pc' s'"
| time_passes: "interleaved cr n pc s \<Longrightarrow> clock s \<le> t \<Longrightarrow> t < 2 ^ 61 \<Longrightarrow> interleaved cr n pc (s\<lparr>clock := t\<rparr>)"

text \<open>What the timer's thread knows at each point is not touched by the events.\<close>

definition hands_of :: "task timer_pc \<Rightarrow> hands" where
  "hands_of pc = \<lparr>in_hand = mset (map key (waiting pc)), pinging = targets pc, at_work = {}\<rparr>"

fun now_of :: "'f timer_pc \<Rightarrow> int" where
  "now_of Asleep = 0"
| "now_of (Awake now) = now"
| "now_of (Running now vs) = now"
| "now_of (Calling now d v vs) = now"

fun called_ok :: "task timer_pc \<Rightarrow> bool" where
  "called_ok (Calling now d v vs) \<longleftrightarrow> task_fn v \<in> range Heartbeat_task"
| "called_ok _ \<longleftrightarrow> True"

definition pc_ok :: "task timer_pc \<Rightarrow> bool" where
  "pc_ok pc \<longleftrightarrow> 0 \<le> now_of pc \<and> now_of pc < 2 ^ 61 \<and> distinct (map node_id (waiting pc)) \<and> called_ok pc
     \<and> (\<forall>v \<in> set (waiting pc). 0 \<le> interval v \<and> interval v \<le> 2 ^ 60)"

definition both_ok :: "nat \<Rightarrow> task timer_pc \<Rightarrow> 'z main_process_scheme \<Rightarrow> bool" where
  "both_ok n pc s \<longleftrightarrow> timer_busy (hands_of pc) n s \<and> server_ok s \<and> echo_knows True {} s \<and> pc_ok pc"

lemma hands_asleep [simp]: "hands_of Asleep = nothing" "hands_of (Awake now) = nothing" "hands_of (Running now []) = nothing"
  by (simp_all add: hands_of_def nothing_def)

lemma hands_at_work [simp]: "at_work (hands_of pc) = {}"
  by (simp add: hands_of_def)

text \<open>Tasks move between the wheel and the hands of the thread.\<close>

definition same_task :: "task time_node \<Rightarrow> task time_node \<Rightarrow> bool" where
  "same_task v w \<longleftrightarrow> node_id v = node_id w \<and> task_fn v = task_fn w \<and> circle_count v = circle_count w
     \<and> interval v = interval w"

lemma same_task_beats: "same_task v w \<Longrightarrow> beat_of h v = beat_of h w"
  by (simp add: same_task_def beat_of_def)

lemma timer_busy_moved:
  assumes ok: "timer_busy B n s" and w: "wheel_ok s'" "\<not> locked s'" "ids_ok (node_id ` set_mset (in_hand B')) s'"
    and same: "clock s' = clock s" "heap s' = heap s" "next_id s' = next_id s"
    and olds: "\<And>v. v \<in># keys s' + in_hand B' \<Longrightarrow> \<exists>w. w \<in># keys s + in_hand B \<and> same_task v w"
    and forth: "\<And>w. w \<in># keys s + in_hand B \<Longrightarrow> \<exists>v. v \<in># keys s' + in_hand B' \<and> same_task v w"
    and hands: "\<And>v. v \<in># in_hand B' \<Longrightarrow> task_fn v \<in> Heartbeat_task ` pinging B' \<and> slot_known s' (node_id v)" "pinging B' \<subseteq> dom (heap s)" "at_work B' = {}"
  shows "timer_busy B' n s'"
proof -
  have K: "v \<in># keys s + in_hand B \<Longrightarrow> beat_of (heap s) v \<and> unat (node_id v) < unat (next_id s)"
    and T: "heap s b = Some d \<Longrightarrow> tasked (keys s + in_hand B) b d" for v b d
    using ok by (auto simp: timer_busy_def)
  have "beat_of (heap s) v \<and> unat (node_id v) < unat (next_id s)" if "v \<in># keys s' + in_hand B'" for v
  proof -
    from olds [OF that] obtain w where "w \<in># keys s + in_hand B" "same_task v w" by blast
    with K [of w] same_task_beats [of v w "heap s"] show ?thesis by (simp add: same_task_def)
  qed
  moreover have "tasked (keys s' + in_hand B') b d" if "heap s b = Some d" for b d
  proof (cases "time_wheel_heartbeat_id d = 0")
    case True
    then show ?thesis using T [OF that] by (simp add: tasked_def)
  next
    case False
    with T [OF that] obtain w where "w \<in># keys s + in_hand B" "node_id w = time_wheel_heartbeat_id d" "task_fn w = Heartbeat_task b"
      unfolding tasked_def by blast
    with forth [of w] obtain v where "v \<in># keys s' + in_hand B'" "node_id v = time_wheel_heartbeat_id d" "task_fn v = Heartbeat_task b"
      unfolding same_task_def by metis
    with T [OF that] show ?thesis unfolding tasked_def by blast
  qed
  ultimately show ?thesis
    using ok w same hands unfolding timer_busy_def by simp
qed

text \<open>The timer takes the due tasks.\<close>

lemma busy_serving: "both_ok n pc s \<longleftrightarrow> timer_busy (hands_of pc) n s \<and> serving True (next_id s) (clock s) s \<and> pc_ok pc"
  by (auto simp: both_ok_def serving_def)

lemma take_step:
  assumes ok: "both_ok n (Awake now) s" and due: "current s \<le> now"
  shows "\<exists>temp s'. take_due s = Inr (temp, s') \<and> both_ok n (Running now temp) s' \<and> clock s' = clock s \<and> heap s' = heap s
    \<and> current s' = current s + 1 \<and> mset (map key temp) = filter_mset (\<lambda>v. expire v \<le> current s) (keys s)
    \<and> keys s' = filter_mset (\<lambda>v. current s < expire v) (keys s)"
proof -
  have t: "timer_ok n s" and serv: "serving True (next_id s) (clock s) s" and now: "0 \<le> now" "now < 2 ^ 61"
    using ok by (simp_all add: busy_serving pc_ok_def)
  have w: "wheel_ok s" "ids_ok {} s" "\<not> locked s" using t by (simp_all add: timer_ok_def)
  have small: "current s < 2 ^ 61" using due now by simp
  obtain temp s' where td: "take_due s = Inr (temp, s')" and s': "wheel_ok s'" "\<not> locked s'" and cur: "current s' = current s + 1"
    and temp: "mset (map key temp) = filter_mset (\<lambda>v. expire v \<le> current s) (keys s)"
    and k: "keys s' = filter_mset (\<lambda>v. current s < expire v) (keys s)"
    by (rule take_due_exact [OF w(1,3) small]) blast
  have all: "keys s' + mset (map key temp) = keys s"
    unfolding temp k by (subst (3) multiset_partition [of _ "\<lambda>v. current s < expire v"]) (simp add: not_less)
  have ids: "ids_ok (node_id ` set temp) s'" "distinct (map node_id temp)" using take_due_ids [OF w(2) td] by simp_all
  note more = take_due_more [OF td] and next_id = take_due_next [OF td]
  have serv': "serving True (next_id s) (clock s) s'" by (rule serving_more [OF serv more next_id])
  have same: "clock s' = clock s" "heap s' = heap s" "clients s' = clients s" using clock_more [OF more] by auto
  have K: "v \<in># keys s \<Longrightarrow> beat_of (heap s) v" for v using t by (simp add: timer_ok_def)
  have mine: "beat_of (heap s) (key v)" if "v \<in> set temp" for v
  proof (rule K)
    have "key v \<in># mset (map key temp)" using that by simp
    then show "key v \<in># keys s" unfolding all [symmetric] by (simp only: union_iff simp_thms)
  qed
  let ?B = "hands_of (Running now temp)"
  have moved: "keys s' + in_hand ?B = keys s + in_hand nothing" using all by (simp add: hands_of_def nothing_def)
  have "timer_busy ?B n s'"
  proof (rule timer_busy_moved [OF t s' _ same(1,2) next_id])
    show "ids_ok (node_id ` set_mset (in_hand ?B)) s'" using ids(1) by (simp add: hands_of_def image_image)
    show "\<exists>w. w \<in># keys s + in_hand nothing \<and> same_task v w" if "v \<in># keys s' + in_hand ?B" for v
      using that unfolding moved by (auto simp: same_task_def)
    show "\<exists>w. w \<in># keys s' + in_hand ?B \<and> same_task w v" if "v \<in># keys s + in_hand nothing" for v
      using that unfolding moved by (auto simp: same_task_def)
    show "task_fn x \<in> Heartbeat_task ` pinging ?B \<and> slot_known s' (node_id x)" if "x \<in># in_hand ?B" for x
    proof -
      from that obtain v where v: "v \<in> set temp" "x = key v" by (auto simp: hands_of_def)
      have "nat (current s AND 255) < 512" by (simp add: and_255 nat_less_iff order.strict_trans2 [of _ 256])
      then have "slot_known s' (node_id v)" using taken_ids(1) [OF w(2) td v(1)] by (auto simp: slot_known_def)
      then show ?thesis using v mine [OF v(1)] by (force simp: hands_of_def beat_of_def)
    qed
    show "pinging ?B \<subseteq> dom (heap s)" using mine by (force simp: hands_of_def beat_of_def)
  qed simp
  moreover have "0 \<le> interval v \<and> interval v \<le> 2 ^ 60" if "v \<in> set temp" for v
  proof -
    have "key v \<in># mset (map key temp)" using that by simp
    then have "key v \<in># keys s" unfolding all [symmetric] by (simp only: union_iff simp_thms)
    moreover have "\<forall>v \<in># keys s. 0 \<le> interval v \<and> interval v \<le> 2 ^ 60"
      using w(1) intervals_keys [of s "\<lambda>x. 0 \<le> x \<and> x \<le> 2 ^ 60"] by (simp add: wheel_ok_def)
    ultimately show ?thesis by fastforce
  qed
  ultimately have "both_ok n (Running now temp) s'"
    using serv' now ids(2) by (simp add: both_ok_def serving_def pc_ok_def)
  with td same cur temp k show ?thesis by blast
qed

lemma in_hand_targets:
  assumes "x \<in># mset (map key vs)" and "\<And>v. v \<in> set vs \<Longrightarrow> task_fn v \<in> range Heartbeat_task" and "set vs \<subseteq> set us"
  shows "task_fn x \<in> Heartbeat_task ` {a. Heartbeat_task a \<in> task_fn ` set us}"
proof -
  from assms(1) obtain v where v: "v \<in> set vs" "x = key v" by auto
  with assms(2) obtain a where "task_fn v = Heartbeat_task a" by blast
  with v assms(3) show ?thesis by (intro image_eqI [of _ _ a]) force+
qed

lemma waiting_heartbeats: "timer_busy (hands_of pc) n s \<Longrightarrow> v \<in> set (waiting pc) \<Longrightarrow> task_fn v \<in> range Heartbeat_task"
proof -
  assume t: "timer_busy (hands_of pc) n s" and v: "v \<in> set (waiting pc)"
  have "key v \<in># in_hand (hands_of pc)" using v by (simp add: hands_of_def)
  then have "task_fn (key v) \<in> Heartbeat_task ` pinging (hands_of pc)" using t unfolding timer_busy_def by blast
  then show ?thesis by auto
qed

text \<open>It puts a task back.\<close>

lemma rearm_step:
  assumes ok: "both_ok n (Running now (v # vs)) s"
  shows "\<exists>s'. rearm_node now v s = Inr (False, v, s') \<and> both_ok n (Calling now False v vs) s' \<and> clock s' = clock s \<and> heap s' = heap s
    \<and> current s' = current s \<and> keys s \<subseteq># keys s'"
proof -
  let ?B = "hands_of (Running now (v # vs))" and ?B' = "hands_of (Calling now False v vs)" and ?P = "node_id ` set (v # vs)"
  have t: "timer_busy ?B n s" and serv: "serving True (next_id s) (clock s) s" and now: "0 \<le> now" "now < 2 ^ 61"
    and v: "0 \<le> interval v" "interval v \<le> 2 ^ 60" and d: "distinct (map node_id (v # vs))"
    and vs: "\<forall>w \<in> set vs. 0 \<le> interval w \<and> interval w \<le> 2 ^ 60"
    using ok by (simp_all add: busy_serving pc_ok_def)
  have w: "wheel_ok s" "\<not> locked s" "ids_ok ?P s"
    using t by (simp_all add: timer_busy_def hands_of_def image_image)
  have "key v \<in># keys s + in_hand ?B" by (simp add: hands_of_def)
  then have b: "beat_of (heap s) (key v)" using t by (auto simp: timer_busy_def)
  then have full: "circle_count v = FULL_CIRCLE" and fn: "task_fn v \<in> range Heartbeat_task" by (auto simp: beat_of_def)
  let ?v = "v\<lparr>expire := now + interval v\<rparr>"
  have "in_range (current s) ?v" "0 \<le> interval ?v" "interval ?v \<le> 2 ^ 60"
    using now v w(1) by (auto simp: in_range_def wheel_ok_def)
  from add_node_keys [OF w(1,2) this] obtain s' where s': "add_node ?v s = Inr s'" "wheel_ok s'" "\<not> locked s'"
    and cur: "current s' = current s" and more: "wheel.more s' = wheel.more s"
    and new_keys: "keys s' = keys s + {#key (?v\<lparr>expire := min (expire ?v) (2 ^ 32 - 1 + current s)\<rparr>)#}" by blast
  let ?u = "key (?v\<lparr>expire := min (expire ?v) (2 ^ 32 - 1 + current s)\<rparr>)"
  have same: "clock s' = clock s" "heap s' = heap s" "next_id s' = next_id s" using clock_more [OF more] add_node_next [OF s'(1)] by auto
  have ids: "ids_ok (node_id ` set vs) s'"
    using add_node_ids [OF w(3) _ s'(1)] d by (simp add: insert_Diff_if)
  have u: "same_task ?u (key v)" by (simp add: same_task_def)
  have old: "keys s + in_hand ?B = add_mset (key v) (keys s + mset (map key vs))" by (simp add: hands_of_def)
  have new: "keys s' + in_hand ?B' = add_mset ?u (keys s + mset (map key vs))" by (simp add: hands_of_def new_keys)
  have self: "same_task x x" for x by (simp add: same_task_def)
  have "timer_busy ?B' n s'"
  proof (rule timer_busy_moved [OF t s'(2,3) _ same])
    show "ids_ok (node_id ` set_mset (in_hand ?B')) s'" using ids by (simp add: hands_of_def image_image)
    show "\<exists>y. y \<in># keys s + in_hand ?B \<and> same_task x y" if "x \<in># keys s' + in_hand ?B'" for x
      using that u self [of x] unfolding old new by auto
    show "\<exists>x. x \<in># keys s' + in_hand ?B' \<and> same_task x y" if "y \<in># keys s + in_hand ?B" for y
      using that u self [of y] unfolding old new by auto
    show "task_fn x \<in> Heartbeat_task ` pinging ?B' \<and> slot_known s' (node_id x)" if x: "x \<in># in_hand ?B'" for x
    proof -
      have "slot_known s (node_id x)" using x t by (simp add: timer_busy_def hands_of_def)
      moreover have "id_map s' = (id_map s)(node_id v := id_map s' (node_id v))" using s'(1) by (auto elim: add_node_InrD)
      moreover have "node_id x \<noteq> node_id v" using x d by (auto simp: hands_of_def image_iff)
      ultimately have "slot_known s' (node_id x)" unfolding slot_known_def by (metis fun_upd_other)
      then show ?thesis
        using in_hand_targets [of x vs "v # vs"] x waiting_heartbeats [OF t] by (simp add: hands_of_def subset_insertI)
    qed
    show "pinging ?B' \<subseteq> dom (heap s)" using t by (simp add: timer_busy_def hands_of_def)
  qed simp
  moreover have "serving True (next_id s) (clock s) s'" by (rule serving_more [OF serv more same(3)])
  ultimately have "both_ok n (Calling now False v vs) s'" using now d vs fn by (simp add: both_ok_def serving_def pc_ok_def)
  moreover have "rearm_node now v s = Inr (False, v, s')" using s'(1) full by (simp add: rearm_node_def)
  moreover have "keys s \<subseteq># keys s'" by (simp add: new_keys)
  ultimately show ?thesis using same cur by blast
qed

text \<open>It pings the client.\<close>

lemma timer_busy_fewer:
  assumes "timer_busy B n s" and "in_hand B' = in_hand B" and "pinging B' \<subseteq> pinging B" and "at_work B' = {}"
    and "\<And>v. v \<in># in_hand B' \<Longrightarrow> task_fn v \<in> Heartbeat_task ` pinging B'"
  shows "timer_busy B' n s"
  using assms by (auto simp: timer_busy_def)

lemma call_step:
  assumes ok: "both_ok n (Calling now d v vs) s"
  shows "\<exists>s'. ws_run_task (task_fn v) d (node_id v) s = Inr s' \<and> both_ok n (Running now vs) s' \<and> clock s' = clock s
    \<and> current s' = current s \<and> keys s' = keys s
    \<and> (\<exists>a c. task_fn v = Heartbeat_task a \<and> heap s a = Some c \<and> heap s' = (heap s)(a \<mapsto> queued generate_websocket_ping_res c))"
proof -
  let ?B = "hands_of (Calling now d v vs)" and ?B' = "hands_of (Running now vs)"
  have t: "timer_busy ?B n s" and serv: "serving True (next_id s) (clock s) s" and pc: "pc_ok (Calling now d v vs)"
    using ok by (simp_all add: busy_serving)
  then obtain a where a: "task_fn v = Heartbeat_task a" by (auto simp: pc_ok_def)
  then have "a \<in> pinging ?B" by (simp add: hands_of_def)
  then obtain c where c: "heap s a = Some c" using t by (auto simp: timer_busy_def)
  let ?s = "put a (queued generate_websocket_ping_res c) (sending (sockfd c) s)"
  have run: "ws_run_task (task_fn v) d (node_id v) s = Inr ?s" using run_heartbeat [OF c] by (simp add: a)
  have "timer_busy ?B n ?s"
    using send_without_frame_timely [OF t, of a generate_websocket_ping_res] by (simp add: send_without_frame_put [OF c])
  then have "timer_busy ?B' n ?s"
  proof (rule timer_busy_fewer)
    show "task_fn x \<in> Heartbeat_task ` pinging ?B'" if "x \<in># in_hand ?B'" for x
      using in_hand_targets [of x vs vs] that waiting_heartbeats [OF t] by (simp add: hands_of_def)
  qed (auto simp: hands_of_def)
  moreover have "serving True (next_id s) (clock s) ?s" by (rule serving_ping [OF serv c])
  ultimately have "both_ok n (Running now vs) ?s" using pc by (simp add: both_ok_def serving_def pc_ok_def)
  moreover have "clock ?s = clock s" "current ?s = current s" "keys ?s = keys s"
    "heap ?s = (heap s)(a \<mapsto> queued generate_websocket_ping_res c)" by simp_all
  ultimately show ?thesis using run a c by blast
qed

text \<open>No step of the timer fails.\<close>

lemma timer_step_ok:
  assumes ok: "both_ok n pc s"
  shows "\<exists>pc' s'. timer_step ws_run_task (clock s) pc s = Inr (pc', s') \<and> both_ok n pc' s' \<and> clock s' = clock s"
proof (cases pc)
  case Asleep
  then have "0 \<le> clock s" "clock s < 2 ^ 61" using ok by (simp_all add: both_ok_def timer_ok_def)
  then show ?thesis using ok Asleep by (simp add: both_ok_def pc_ok_def)
next
  case (Awake now)
  show ?thesis
  proof (cases "current s \<le> now")
    case True
    with take_step [of n now s] ok Awake show ?thesis by auto
  next
    case False
    with ok Awake show ?thesis by (simp add: both_ok_def pc_ok_def)
  qed
next
  case (Running now vs)
  show ?thesis
  proof (cases vs)
    case Nil
    with ok Running show ?thesis by (simp add: both_ok_def pc_ok_def)
  next
    case (Cons v us)
    with rearm_step [of n now v us s] ok Running show ?thesis by auto
  qed
next
  case (Calling now d v vs)
  with call_step [of n now d v vs s] ok show ?thesis by auto
qed

lemma spared_pinging: "spares pc e s \<Longrightarrow> clients s (ev_fd e) = Some a \<Longrightarrow> a \<notin> pinging (hands_of pc)"
  by (simp add: spares_def hands_of_def)

lemma interleaved_ok: "interleaved cr n pc s \<Longrightarrow> both_ok n pc s"
proof (induction rule: interleaved.induct)
  case (started_up s0 fd bind_ret efd s)
  then show ?case using default_setup_ok [of s0 fd bind_ret efd s] by (simp add: both_ok_def pc_ok_def)
next
  case (event n pc s e s')
  have "client_objects.ready (echo_knows True) s" using event.IH by (simp add: echo_ready both_ok_def)
  from echo.handle_event_inv [OF this event.hyps(3), of cr] event.hyps(6)
  have "server_ok s' \<and> echo_knows True {} s'" by (simp add: main_hooks_ws ok_def echo_ready)
  moreover have b: "timer_busy (hands_of pc) n s" "server_ok s" using event.IH by (simp_all add: both_ok_def)
  have "timely (handle_event (main_hooks cr) e s) (timer_busy (hands_of pc) (Suc n))"
    unfolding main_hooks_ws
    by (rule beating.handle_event_spared [OF b(1) hands_at_work _ event.hyps(2) b(2) event.hyps(4)])
      (rule spared_pinging [OF event.hyps(5)])
  then have "timer_busy (hands_of pc) (Suc n) s'" by (simp add: event.hyps(6))
  ultimately show ?case using event.IH by (simp add: both_ok_def)
next
  case (timer n pc s pc' s')
  then show ?case using timer_step_ok [of n pc s] by auto
next
  case (time_passes n pc s t)
  then show ?case
    by (simp add: both_ok_def timer_busy_def wheel_ok_def ids_ok_def keys_def nodes_def slot_known_def server_inv_def echo_knows_def)
qed

text \<open>Taking turns is one way to interleave.\<close>

lemma steps_interleave:
  "interleaved cr n pc s \<Longrightarrow> timer_steps k ws_run_task (clock s) pc s = Inr (pc', s') \<Longrightarrow> interleaved cr n pc' s'"
proof (induction k arbitrary: pc s)
  case (Suc k)
  from timer_step_ok [OF interleaved_ok [OF Suc.prems(1)]] obtain pc1 s1 where
    s1: "timer_step ws_run_task (clock s) pc s = Inr (pc1, s1)" "clock s1 = clock s" by blast
  with Suc.IH [OF interleaved.timer [OF Suc.prems(1) s1(1)]] Suc.prems(2) show ?case by simp
qed simp

lemma beat_run_interleaved: "beat_run cr n s \<Longrightarrow> interleaved cr n Asleep s"
proof (induction rule: beat_run.induct)
  case (started_up s0 fd bind_ret efd s)
  then show ?case by (rule interleaved.started_up)
next
  case (event n s e s')
  then show ?case by (intro interleaved.event) (simp_all add: spares_def)
next
  case (wake_up n s s')
  then show ?case using check_steps steps_interleave by blast
next
  case (time_passes n s t)
  then show ?case by (intro interleaved.time_passes)
qed

section \<open>A hang-up while the timer has the client in its hands\<close>

lemma hang_up_closes:
  assumes k: "echo_knows hb {} s" and c: "clients s (ev_fd e) = Some a" "heap s a = Some c"
    and e: "ev_events e AND (EPOLLHUP OR EPOLLRDHUP OR EPOLLERR) \<noteq> 0"
  shows "handle_event (main_hooks cr) e s
    = bnd (ws_destructor a ((detach (sockfd c) s)\<lparr>wb_clients := removeAll a (wb_clients s)\<rparr>))
        (\<lambda>t. Inr (t\<lparr>heap := (heap t)(a := None)\<rparr>))"
proof -
  have "wb_clients (detach (sockfd c) s) = wb_clients s" by (simp add: detach_def ctl_del_def sys_close_def)
  moreover have "disconnect_f s = Some (User On_disconnect)" using k by (simp add: echo_knows_def)
  ultimately show ?thesis
    using c e by (simp add: handle_event_def close_client_live call_opt_def ws_call_def main_user_def delete_client_def
      main_hooks_ws)
qed

text \<open>A task that was taken is not where the map leads.\<close>

lemma erase_in_hand:
  assumes t: "timer_busy B n s" and v: "v \<in># in_hand B" and i: "node_id v = i"
  shows "erase_task (ucast i) s = Inl Bad_iterator"
proof -
  have "unat i < 2 ^ 32" using t v i by (auto simp: timer_busy_def)
  then have "i < 2 ^ 32" by (simp add: word_less_nat_alt)
  then have conv: "ucast (ucast i :: 32 word) = i" by (rule ucast_ucast_small)
  obtain ix where ix: "ix < 512" "id_map s i = Some ix" using t v i by (auto simp: timer_busy_def slot_known_def)
  have "\<forall>w \<in> set (tv s ! ix). node_id w \<notin> node_id ` set_mset (in_hand B)" using t ix(1) by (simp add: timer_busy_def ids_ok_def)
  moreover have "i \<in> node_id ` set_mset (in_hand B)" using imageI [of v "set_mset (in_hand B)" node_id] v i by simp
  ultimately have "i \<notin> node_id ` set (tv s ! ix)" by (metis imageE)
  then show ?thesis using t ix conv by (simp add: erase_task_def timer_busy_def)
qed

lemma detached_wheel:
  fixes s :: "'z main_process_scheme"
  shows "timer_busy B n s \<Longrightarrow> timer_busy B n ((detach fd s)\<lparr>wb_clients := vs\<rparr>)"
proof -
  assume "timer_busy B n s"
  from beating.detached [OF this, of fd] have "timer_busy B n (detach fd s)" by (simp add: detach_def)
  then show ?thesis by (rule timer_busy_frame) simp_all
qed

lemma hang_up_taken:
  assumes ok: "both_ok n pc s" and c: "clients s (ev_fd e) = Some a" "heap s a = Some c"
    and e: "ev_events e AND (EPOLLHUP OR EPOLLRDHUP OR EPOLLERR) \<noteq> 0"
    and v: "v \<in> set (waiting pc)" "task_fn v = Heartbeat_task a"
  shows "handle_event (main_hooks cr) e s = Inl Bad_iterator"
proof -
  let ?B = "hands_of pc" and ?t = "(detach (sockfd c) s)\<lparr>wb_clients := removeAll a (wb_clients s)\<rparr>"
  have t: "timer_busy ?B n s" and k: "echo_knows True {} s" using ok by (simp_all add: both_ok_def)
  have v': "key v \<in># in_hand ?B" using v(1) by (simp add: hands_of_def)
  then have "beat_of (heap s) (key v)" using t by (auto simp: timer_busy_def)
  then have hb: "node_id (key v) = time_wheel_heartbeat_id c" "time_wheel_heartbeat_id c \<noteq> 0"
    using v(2) c(2) by (auto simp: beat_of_def)
  have id0: "time_wheel_id c = 0" using unmarked [OF t c(2)] by simp
  have "erase_task (ucast (time_wheel_heartbeat_id c)) ?t = Inl Bad_iterator"
    by (rule erase_in_hand [OF detached_wheel [OF t] v' hb(1)])
  then have "ws_destructor a ?t = Inl Bad_iterator" using c(2) hb(2) id0 by (simp add: ws_destructor_def)
  then show ?thesis by (simp add: hang_up_closes [OF k c e])
qed

lemma hang_up_called:
  assumes ok: "both_ok n (Calling now d v vs) s" and c: "clients s (ev_fd e) = Some a" "heap s a = Some c"
    and e: "ev_events e AND (EPOLLHUP OR EPOLLRDHUP OR EPOLLERR) \<noteq> 0"
    and v: "task_fn v = Heartbeat_task a" and rest: "\<And>w. w \<in> set vs \<Longrightarrow> task_fn w \<noteq> Heartbeat_task a"
  shows "\<exists>s'. handle_event (main_hooks cr) e s = Inr s' \<and> heap s' a = None"
proof -
  let ?B = "hands_of (Running now vs)" and ?t = "(detach (sockfd c) s)\<lparr>wb_clients := removeAll a (wb_clients s)\<rparr>"
  have t: "timer_busy (hands_of (Calling now d v vs)) n s" and k: "echo_knows True {} s" using ok by (simp_all add: both_ok_def)
  have "timer_busy ?B n s"
  proof (rule timer_busy_fewer [OF t])
    show "task_fn x \<in> Heartbeat_task ` pinging ?B" if "x \<in># in_hand ?B" for x
      using in_hand_targets [of x vs vs] that waiting_heartbeats [OF t] by (simp add: hands_of_def)
  qed (auto simp: hands_of_def)
  then have t': "timer_busy ?B n ?t" by (rule detached_wheel)
  have a: "a \<notin> pinging ?B" using rest by (auto simp: hands_of_def image_iff eq_commute [of "Heartbeat_task a"])
  have ht: "heap ?t a = Some c" using c(2) by simp
  have id0: "time_wheel_id c = 0" using unmarked [OF t c(2)] by simp
  have "\<exists>u. ws_destructor a ?t = Inr u"
  proof (cases "time_wheel_heartbeat_id c = 0")
    case True
    then show ?thesis using ht id0 by (simp add: ws_destructor_def)
  next
    case False
    from disarm [OF t' ht False a] obtain u where "erase_task (ucast (time_wheel_heartbeat_id c)) ?t = Inr (True, u)" by blast
    then show ?thesis using ht id0 False by (simp add: ws_destructor_def)
  qed
  then obtain u where "ws_destructor a ?t = Inr u" by blast
  then show ?thesis by (simp add: hang_up_closes [OF k c e])
qed

section \<open>A task that is due is taken\<close>

lemma calls_keep:
  fixes s :: "'z main_process_scheme"
  shows "interleaved cr n (Running now vs) s \<Longrightarrow> v \<in># keys s
   \<Longrightarrow> \<exists>s' :: 'z main_process_scheme. interleaved cr n (Awake now) s' \<and> v \<in># keys s' \<and> current s' = current s"
proof (induction vs arbitrary: s)
  case Nil
  have "interleaved cr n (Awake now) s" by (rule interleaved.timer [OF Nil(1)]) simp
  with Nil(2) show ?case by blast
next
  case (Cons w ws)
  from rearm_step [OF interleaved_ok [OF Cons.prems(1)]] obtain s1 where
    s1: "rearm_node now w s = Inr (False, w, s1)" "current s1 = current s" "keys s \<subseteq># keys s1" by blast
  have i1: "interleaved cr n (Calling now False w ws) s1" by (rule interleaved.timer [OF Cons.prems(1)]) (simp add: s1)
  from call_step [OF interleaved_ok [OF i1]] obtain s2 where
    s2: "ws_run_task (task_fn w) False (node_id w) s1 = Inr s2" "current s2 = current s1" "keys s2 = keys s1" by blast
  have i2: "interleaved cr n (Running now ws) s2" by (rule interleaved.timer [OF i1]) (simp add: s2)
  have "v \<in># keys s2" using Cons.prems(2) s1(3) s2(3) by (auto dest: mset_subset_eqD)
  from Cons.IH [OF i2 this] s1(2) s2(2) show ?case by simp
qed

lemma due_taken:
  fixes s :: "'z main_process_scheme"
  shows "interleaved cr n (Awake now) s \<Longrightarrow> v \<in># keys s \<Longrightarrow> expire v \<le> now \<Longrightarrow> current s \<le> now
   \<Longrightarrow> \<exists>temp (s' :: 'z main_process_scheme). interleaved cr n (Running now temp) s' \<and> v \<in># mset (map key temp)"
proof (induction "nat (now + 1 - current s)" arbitrary: s rule: less_induct)
  case less
  from take_step [OF interleaved_ok [OF less.prems(1)] less.prems(4)] obtain temp s1 where
    s1: "take_due s = Inr (temp, s1)" "current s1 = current s + 1"
      "mset (map key temp) = filter_mset (\<lambda>v. expire v \<le> current s) (keys s)"
      "keys s1 = filter_mset (\<lambda>v. current s < expire v) (keys s)" by blast
  have i1: "interleaved cr n (Running now temp) s1" by (rule interleaved.timer [OF less.prems(1)]) (simp add: s1 less.prems(4))
  show ?case
  proof (cases "expire v \<le> current s")
    case True
    then have "v \<in># mset (map key temp)" unfolding s1(3) using less.prems(2) by simp
    with i1 show ?thesis by blast
  next
    case False
    then have "v \<in># keys s1" unfolding s1(4) using less.prems(2) by simp
    from calls_keep [OF i1 this] obtain s2 :: "'z main_process_scheme" where
      s2: "interleaved cr n (Awake now) s2" "v \<in># keys s2" "current s2 = current s + 1" using s1(2) by auto
    from False less.prems(3,4) s2(3) have "nat (now + 1 - current s2) < nat (now + 1 - current s)" "current s2 \<le> now" by simp_all
    from less.hyps [OF this(1) s2(1,2) less.prems(3) this(2)] show ?thesis .
  qed
qed

lemma due_in_time:
  fixes s :: "'z main_process_scheme"
  assumes i: "interleaved cr n Asleep s" and v: "v \<in># keys s" "expire v < 2 ^ 61" and cur: "current s < 2 ^ 61"
  shows "\<exists>now temp (s' :: 'z main_process_scheme). interleaved cr n (Running now temp) s' \<and> v \<in># mset (map key temp)"
proof -
  let ?t = "max (clock s) (max (expire v) (current s))" and ?P = "\<lambda>t. s\<lparr>clock := t\<rparr>"
  have "clock s < 2 ^ 61" using interleaved_ok [OF i] by (simp add: both_ok_def timer_ok_def)
  then have "interleaved cr n Asleep (?P ?t)" using v(2) cur by (intro interleaved.time_passes [OF i]) simp_all
  then have "interleaved cr n (Awake ?t) (?P ?t)" by (rule interleaved.timer) simp
  from due_taken [OF this, of v] v(1) have "\<exists>temp (s' :: 'z main_process_scheme). interleaved cr n (Running ?t temp) s' \<and> v \<in># mset (map key temp)"
    by (simp add: keys_def nodes_def)
  then show ?thesis by blast
qed

text \<open>The client of the example, when its first ping is due.\<close>

lemma unused_line: "server_ok s \<Longrightarrow> \<exists>fd. clients s fd = None"
proof -
  assume "server_ok s"
  then have "dom (clients s) \<subseteq> (\<lambda>a. sockfd (the (heap s a))) ` {..< next_addr s}"
    by (force simp: server_inv_def)
  then have "finite (dom (clients s))" by (rule finite_subset) simp
  then show ?thesis using ex_new_if_finite [OF infinite_UNIV_int, of "dom (clients s)"] by (auto simp: domIff)
qed

lemma sample_taken:
  "\<exists>now temp (s :: main_process) v c. interleaved sample_crypto 3 (Running now temp) s \<and> v \<in> set temp \<and> task_fn v = Heartbeat_task 0
    \<and> heap s 0 = Some c \<and> clients s (sockfd c) = Some 0 \<and> time_wheel_heartbeat_id c = node_id v"
proof -
  obtain s0 :: main_process and w where s0: "beat_run sample_crypto 3 s0" "w \<in># keys s0" "task_fn w = Heartbeat_task 0"
    "expire w \<le> 3000" "current s0 = 0" using sample_beating by blast
  have "expire w < 2 ^ 61" "current s0 < 2 ^ 61" using s0(4,5) by simp_all
  from due_in_time [OF beat_run_interleaved [OF s0(1)] s0(2) this] obtain now temp and s :: main_process where
    s: "interleaved sample_crypto 3 (Running now temp) s" "w \<in># mset (map key temp)" by blast
  from s(2) obtain v where v: "v \<in> set temp" "w = key v" by auto
  have ok: "timer_busy (hands_of (Running now temp)) 3 s" "server_ok s" using interleaved_ok [OF s(1)] by (simp_all add: both_ok_def)
  have "w \<in># in_hand (hands_of (Running now temp))" using s(2) by (simp add: hands_of_def)
  then have "beat_of (heap s) w" using ok(1) by (simp add: timer_busy_def)
  then obtain c where c: "heap s 0 = Some c" "time_wheel_heartbeat_id c = node_id w" using s0(3) by (auto simp: beat_of_def)
  moreover from c(1) ok(2) have "clients s (sockfd c) = Some 0" by (auto simp: server_inv_def)
  ultimately show ?thesis using s(1) v s0(3) by (intro exI [of _ now] exI [of _ temp] exI [of _ s] exI [of _ v] exI [of _ c]) simp
qed

section \<open>The thread comes to an end\<close>

lemma steps_append:
  "timer_steps k run t pc s = Inr (pc1, s1) \<Longrightarrow> timer_steps l run t pc1 s1 = r \<Longrightarrow> timer_steps (k + l) run t pc s = r"
proof (induction k arbitrary: pc s)
  case (Suc k)
  then show ?case by (cases "timer_step run t pc s") auto
qed simp

lemma calls_finish:
  fixes s :: "'z main_process_scheme"
  shows "both_ok n (Running now vs) s \<Longrightarrow> \<exists>k m (s' :: 'z main_process_scheme). timer_steps k ws_run_task t (Running now vs) s = Inr (Awake now, s')
     \<and> both_ok n (Awake now) s' \<and> current s' = current s \<and> heap s' = pinged m (heap s) \<and> (\<forall>a \<in> targets (Running now vs). 0 < m a)"
proof (induction vs arbitrary: s)
  case Nil
  then have "timer_steps 1 ws_run_task t (Running now []) s = Inr (Awake now, s) \<and> both_ok n (Awake now) s \<and> heap s = pinged (\<lambda>_. 0) (heap s)"
    by (simp add: both_ok_def pc_ok_def)
  then show ?case by (intro exI [of _ 1] exI [of _ "\<lambda>_. 0"] exI [of _ s]) simp
next
  case (Cons v vs)
  from rearm_step [OF Cons.prems] obtain s1 where s1: "rearm_node now v s = Inr (False, v, s1)"
    "both_ok n (Calling now False v vs) s1" "heap s1 = heap s" "current s1 = current s" by blast
  from call_step [OF s1(2)] obtain s2 a c where s2: "ws_run_task (task_fn v) False (node_id v) s1 = Inr s2"
    "both_ok n (Running now vs) s2" "current s2 = current s1" "task_fn v = Heartbeat_task a" "heap s1 a = Some c"
    "heap s2 = (heap s1)(a \<mapsto> queued generate_websocket_ping_res c)" by blast
  from Cons.IH [OF s2(2)] obtain k m and s' :: "'z main_process_scheme" where
    s': "timer_steps k ws_run_task t (Running now vs) s2 = Inr (Awake now, s')" "both_ok n (Awake now) s'" "current s' = current s2"
      "heap s' = pinged m (heap s2)" "\<forall>a \<in> targets (Running now vs). 0 < m a" by blast
  have "timer_steps (Suc (Suc k)) ws_run_task t (Running now (v # vs)) s = Inr (Awake now, s')" using s1(1) s2(1) s'(1) by simp
  moreover have "heap s' = pinged (m(a := Suc (m a))) (heap s)" using pinged_queued [of "heap s1" a c m] s2(5,6) s'(4) s1(3) by simp
  moreover have "\<forall>b \<in> targets (Running now (v # vs)). 0 < (m(a := Suc (m a))) b" using s'(5) s2(4) by auto
  moreover have "current s' = current s" using s'(3) s1(4) s2(3) by simp
  ultimately show ?case using s'(2) by blast
qed

lemma awake_finishes:
  fixes s :: "'z main_process_scheme"
  shows "both_ok n (Awake now) s \<Longrightarrow> \<exists>k m (s' :: 'z main_process_scheme). timer_steps k ws_run_task t (Awake now) s = Inr (Asleep, s')
     \<and> heap s' = pinged m (heap s) \<and> now < current s'"
proof (induction "nat (now + 1 - current s)" arbitrary: s rule: less_induct)
  case less
  show ?case
  proof (cases "current s \<le> now")
    case False
    then have "timer_steps 1 ws_run_task t (Awake now) s = Inr (Asleep, s)" by simp
    then show ?thesis using False by (intro exI [of _ 1] exI [of _ "\<lambda>_. 0"] exI [of _ s]) simp
  next
    case True
    from take_step [OF less.prems True] obtain temp s1 where s1: "take_due s = Inr (temp, s1)" "both_ok n (Running now temp) s1"
      "heap s1 = heap s" "current s1 = current s + 1" by blast
    from calls_finish [OF s1(2)] obtain k m and s2 :: "'z main_process_scheme" where
      s2: "timer_steps k ws_run_task t (Running now temp) s1 = Inr (Awake now, s2)" "both_ok n (Awake now) s2" "current s2 = current s1"
        "heap s2 = pinged m (heap s1)" by blast
    have "nat (now + 1 - current s2) < nat (now + 1 - current s)" using True s1(4) s2(3) by simp
    from less.hyps [OF this s2(2)] obtain l m' and s' :: "'z main_process_scheme" where
      s': "timer_steps l ws_run_task t (Awake now) s2 = Inr (Asleep, s')" "heap s' = pinged m' (heap s2)" "now < current s'" by blast
    have "timer_steps (Suc (k + l)) ws_run_task t (Awake now) s = Inr (Asleep, s')"
      using True s1(1) steps_append [OF s2(1) s'(1)] by simp
    moreover have "heap s' = pinged (\<lambda>a. m a + m' a) (heap s)" by (simp add: s'(2) s2(4) s1(3) pinged_pinged)
    ultimately show ?thesis using s'(3) by blast
  qed
qed

lemma timer_finishes:
  fixes s :: "'z main_process_scheme"
  assumes ok: "both_ok n pc s"
  shows "\<exists>k m (s' :: 'z main_process_scheme). timer_steps k ws_run_task (clock s) pc s = Inr (Asleep, s')
    \<and> heap s' = pinged m (heap s) \<and> (\<forall>a \<in> targets pc. 0 < m a)"
proof -
  have awake: ?thesis
    if "timer_steps k ws_run_task (clock s) pc s = Inr (Awake now, s1)" "both_ok n (Awake now) s1" "heap s1 = pinged m (heap s)"
      "\<forall>a \<in> targets pc. 0 < m a" for k now m and s1 :: "'z main_process_scheme"
  proof -
    from awake_finishes [OF that(2), of "clock s"] obtain l m' and s' :: "'z main_process_scheme" where
      s': "timer_steps l ws_run_task (clock s) (Awake now) s1 = Inr (Asleep, s')" "heap s' = pinged m' (heap s1)" by blast
    have "heap s' = pinged (\<lambda>a. m a + m' a) (heap s)" by (simp add: s'(2) that(3) pinged_pinged)
    with steps_append [OF that(1) s'(1)] that(4) show ?thesis
      by (intro exI [of _ "k + l"] exI [of _ "\<lambda>a. m a + m' a"] exI [of _ s']) simp
  qed
  have running: "\<exists>k m (s1 :: 'z main_process_scheme). timer_steps k ws_run_task (clock s) pc s = Inr (Awake now, s1)
      \<and> both_ok n (Awake now) s1 \<and> heap s1 = pinged m (heap s) \<and> (\<forall>a \<in> targets pc. 0 < m a)" if "pc = Calling now d v vs" for now d v vs
  proof -
    from call_step [of n now d v vs s] ok that obtain s2 a c where s2: "ws_run_task (task_fn v) d (node_id v) s = Inr s2"
      "both_ok n (Running now vs) s2" "task_fn v = Heartbeat_task a" "heap s a = Some c"
      "heap s2 = (heap s)(a \<mapsto> queued generate_websocket_ping_res c)" by blast
    from calls_finish [OF s2(2)] obtain k m and s' :: "'z main_process_scheme" where
      s': "timer_steps k ws_run_task (clock s) (Running now vs) s2 = Inr (Awake now, s')" "both_ok n (Awake now) s'"
        "heap s' = pinged m (heap s2)" "\<forall>a \<in> targets (Running now vs). 0 < m a" by blast
    have "heap s' = pinged (m(a := Suc (m a))) (heap s)" using pinged_queued [of "heap s" a c m] s2(4,5) s'(3) by simp
    moreover have "\<forall>b \<in> targets pc. 0 < (m(a := Suc (m a))) b" using s'(4) s2(3) by (auto simp: that)
    moreover have "timer_steps (Suc k) ws_run_task (clock s) pc s = Inr (Awake now, s')" using s2(1) s'(1) that by simp
    ultimately show ?thesis using s'(2) by blast
  qed
  show ?thesis
  proof (cases pc)
    case Asleep
    then show ?thesis by (intro exI [of _ 0] exI [of _ "\<lambda>_. 0"] exI [of _ s]) simp
  next
    case (Awake now)
    then show ?thesis using ok by (intro awake [of 0 now s "\<lambda>_. 0"]) simp_all
  next
    case (Running now vs)
    with calls_finish [of n now vs s "clock s"] ok awake show ?thesis by metis
  next
    case (Calling now d v vs)
    with running awake show ?thesis by metis
  qed
qed

section \<open>The properties\<close>



text \<open>
  C37: the clients in the hands of the timer's thread are exactly the ones a hang-up may not meet: if the peer
  hangs up while the thread has the client's task and has not put it back, the destructor follows a stale
  iterator, and if the thread has put it back and is about to call it, the ping goes to a deleted client.
\<close>

theorem hang_up_races_timer:
  assumes "interleaved cr n pc s" and "clients s (ev_fd e) = Some a" and "a \<in> targets pc"
    and "ev_events e AND (EPOLLHUP OR EPOLLRDHUP OR EPOLLERR) \<noteq> 0"
  shows "handle_event (main_hooks cr) e s = Inl Bad_iterator
    \<or> (\<exists>s'. handle_event (main_hooks cr) e s = Inr s' \<and> timer_step ws_run_task t pc s' = Inl Use_after_free)"
proof -
  have ok: "both_ok n pc s" by (rule interleaved_ok [OF assms(1)])
  then have "a \<in> dom (heap s)" using assms(3) by (auto simp: both_ok_def timer_busy_def hands_of_def)
  then obtain c where c: "heap s a = Some c" by blast
  show ?thesis
  proof (cases "\<exists>v \<in> set (waiting pc). task_fn v = Heartbeat_task a")
    case True
    then show ?thesis using hang_up_taken [OF ok assms(2) c assms(4)] by blast
  next
    case False
    with assms(3) obtain now d v vs where pc: "pc = Calling now d v vs" and v: "task_fn v = Heartbeat_task a"
      by (cases pc) (auto simp: image_iff)
    with hang_up_called [of n now d v vs s e a c cr] ok assms(2,4) c False
    obtain s' where "handle_event (main_hooks cr) e s = Inr s'" "heap s' a = None" by auto
    then show ?thesis
      using v by (auto simp: pc send_without_frame_def tcp_send_def server_send_buffer_def modify_def deref_def)
  qed
qed

theorem hang_up_races_timer_witness:
  "\<exists>now temp (s :: main_process) e. interleaved sample_crypto 3 (Running now temp) s \<and> ev_events e = EPOLLHUP
    \<and> (handle_event (main_hooks sample_crypto) e s = Inl Bad_iterator
      \<or> (\<exists>s'. handle_event (main_hooks sample_crypto) e s = Inr s' \<and> timer_step ws_run_task 0 (Running now temp) s' = Inl Use_after_free))"
proof -
  obtain now temp v c and s :: main_process where s: "interleaved sample_crypto 3 (Running now temp) s" "v \<in> set temp"
    "task_fn v = Heartbeat_task 0" "heap s 0 = Some c" "clients s (sockfd c) = Some 0" using sample_taken by metis
  let ?e = "\<lparr>ev_fd = sockfd c, ev_events = EPOLLHUP, accepts = None, recvs = [], sends = []\<rparr>"
  have "0 \<in> targets (Running now temp)" using s(2,3) by (auto simp: image_iff intro!: bexI [of _ v])
  then have a: "clients s (ev_fd ?e) = Some 0" "0 \<in> targets (Running now temp)" "ev_events ?e AND (EPOLLHUP OR EPOLLRDHUP OR EPOLLERR) \<noteq> 0"
    using s(5) by (simp_all add: EPOLLHUP_def EPOLLRDHUP_def EPOLLERR_def)
  from hang_up_races_timer [OF s(1) a] s(1)
  show ?thesis by (intro exI [of _ now] exI [of _ temp] exI [of _ s] exI [of _ ?e]) simp
qed



end
