(* ===== verification/Qt_Types.thy ===== *)
theory Qt_Types
  imports Qt_Correct
begin

text \<open>
  The type of a connector (\<^verbatim>\<open>type_\<close> in \<^verbatim>\<open>Connector.h\<close>) is the tag of the union \<^verbatim>\<open>socket_\<close>: every access
  selects a member by it or sits in a slot of that member alone. In the model a TCP socket is one that was
  told to connect to a host and a port and is given bytes, a WebSocket one that was told to open a URL and is
  given texts. \<open>typed\<close> says that a connector has used its socket at one of the two types only.
\<close>

section \<open>Typed connectors\<close>

fun packet_of :: "ConnectorType \<Rightarrow> packet \<Rightarrow> bool" where
  "packet_of TCP (Raw b) \<longleftrightarrow> True"
| "packet_of WEBSOCKET (Text t) \<longleftrightarrow> True"
| "packet_of _ _ \<longleftrightarrow> False"

fun endpoint_of :: "ConnectorType \<Rightarrow> endpoint \<Rightarrow> bool" where
  "endpoint_of TCP (Host h p) \<longleftrightarrow> True"
| "endpoint_of WEBSOCKET (Url u h p f) \<longleftrightarrow> u = qs ''ws''"
| "endpoint_of _ _ \<longleftrightarrow> False"

fun protocol_of :: "ConnectorType \<Rightarrow> qstring" where
  "protocol_of TCP = qs ''tcp''"
| "protocol_of WEBSOCKET = qs ''websocket''"

definition typed :: "connector \<Rightarrow> bool" where
  "typed c \<longleftrightarrow> conn_protocol c = protocol_of (conn_type c) \<and> conn_target c \<noteq> None
     \<and> endpoint_of (conn_type c) (the (conn_target c)) \<and> list_all (\<lambda>(p, _). packet_of (conn_type c) p) (conn_sent c)"

lemma typed_frame [simp]:
  "typed (c\<lparr>window_title := w\<rparr>) = typed c" "typed (c\<lparr>label_title := w\<rparr>) = typed c"
  "typed (c\<lparr>shown_lines := ls\<rparr>) = typed c" "typed (c\<lparr>data_line := w\<rparr>) = typed c"
  "typed (c\<lparr>place := p\<rparr>) = typed c" "typed (c\<lparr>visible := v\<rparr>) = typed c"
  by (simp_all add: typed_def)

lemma typed_sent [simp]:
  "typed (c\<lparr>conn_sent := conn_sent c @ [(p, ret)]\<rparr>) \<longleftrightarrow> typed c \<and> packet_of (conn_type c) p"
  by (auto simp: typed_def)

lemma typed_new: "typed (new_connector qt ip port path type)"
  by (cases type) (simp_all add: typed_def new_connector_def initTcpSocket_def initWebSocket_def)

lemma typed_opened: "typed (opened qt form g i)"
  by (simp add: opened_def typed_new)

section \<open>Typed desktops\<close>

definition all_typed :: "desktop \<Rightarrow> bool" where
  "all_typed s \<longleftrightarrow> (\<forall>a c. connectors s a = Some c \<longrightarrow> typed c)"

lemma all_typedD: "all_typed s \<Longrightarrow> connectors s a = Some c \<Longrightarrow> typed c"
  by (simp add: all_typed_def)

lemma all_typed_same: "all_typed s \<Longrightarrow> connectors s' = connectors s \<Longrightarrow> all_typed s'"
  by (simp add: all_typed_def)

lemma all_typed_put [simp]:
  "all_typed s \<Longrightarrow> typed c \<Longrightarrow> all_typed (s\<lparr>connectors := (connectors s)(a \<mapsto> c)\<rparr>)"
  by (simp add: all_typed_def)

lemma all_typed_frame [simp]:
  "all_typed (s\<lparr>boxes := bs\<rparr>) = all_typed s" "all_typed (s\<lparr>minimised := m\<rparr>) = all_typed s"
  "all_typed (s\<lparr>main_shown := b\<rparr>) = all_typed s"
  "all_typed (s\<lparr>boxes := bs, connectors := cs\<rparr>) = all_typed (s\<lparr>connectors := cs\<rparr>)"
  by (simp_all add: all_typed_def)

lemma set_conn_typed:
  "all_typed s \<Longrightarrow> set_conn a f s = Inr s' \<Longrightarrow> (\<And>c. typed c \<Longrightarrow> typed (f c)) \<Longrightarrow> all_typed s'"
  by (auto simp: all_typed_def set_conn_def conn_def split: option.splits if_splits)

lemma closed_typed [simp]: "all_typed s \<Longrightarrow> all_typed (closed A s)"
  by (auto simp: all_typed_def closed_def split: if_splits)

lemma with_new_typed: "all_typed s \<Longrightarrow> all_typed (with_new qt form g i k s)"
  by (auto simp: all_typed_def with_new_connectors typed_opened split: if_splits)

lemma delete_typed: "all_typed s \<Longrightarrow> all_typed (delete_connector a s)"
  by (auto simp: all_typed_def delete_connector_def split: if_splits)

lemma show_typed: "all_typed s \<Longrightarrow> show_connectors order s = Inr s' \<Longrightarrow> all_typed s'"
proof (induction order arbitrary: s)
  case (Cons a as)
  then obtain s1 where "set_conn a (\<lambda>c. c\<lparr>visible := True\<rparr>) s = Inr s1" "show_connectors as s1 = Inr s'"
    by (cases "set_conn a (\<lambda>c. c\<lparr>visible := True\<rparr>) s") auto
  moreover from this(1) have "all_typed s1" by (rule set_conn_typed [OF Cons.prems(1)]) simp
  ultimately show ?case by (blast intro: Cons.IH)
qed simp

lemma created_typed:
  assumes "all_typed s" and "sane_geometry g" and "createConnections qt g s = Inr s'"
  shows "all_typed s'"
proof -
  obtain r s1 where v: "paramsValidator qt s = (r, s1)" by (cases "paramsValidator qt s")
  then have "all_typed s1" using assms(1) paramsValidator_state [OF v] by (auto simp: all_typed_def)
  then have "all_typed (with_new qt form g 0 k s1)" for form k by (rule with_new_typed)
  with \<open>all_typed s1\<close> show ?thesis
    using assms(2,3) v by (cases r) (auto simp: createConnections_def create_loop_sane intro: all_typed_same)
qed

text \<open>The slots: each writes to the socket at the type that its \<^verbatim>\<open>switch\<close> or its signal stands for.\<close>

lemma slots_typed:
  assumes "all_typed s" and "connectors s a = Some c"
  shows "clickHandler qt a ret err s = Inr s' \<Longrightarrow> all_typed s'"
    "onError qt a err s = Inr s' \<Longrightarrow> all_typed s'" "onConnected qt a t s = Inr s' \<Longrightarrow> all_typed s'"
    "onDisconnected qt a s = Inr s' \<Longrightarrow> all_typed s'"
    "conn_type c = TCP \<Longrightarrow> onMessageReceived qt a data ret s = Inr s' \<Longrightarrow> all_typed s'"
    "conn_type c = WEBSOCKET \<Longrightarrow> onMessageReceivedByWebSocket qt a msg ret s = Inr s' \<Longrightarrow> all_typed s'"
proof -
  have c: "typed c" using assms by (rule all_typedD)
  let ?p = "case conn_type c of TCP \<Rightarrow> Raw (to_utf8 qt (trimmed qt (data_line c)))
    | WEBSOCKET \<Rightarrow> Text (from_utf8 qt (to_utf8 qt (trimmed qt (data_line c))))"
  have "packet_of (conn_type c) ?p" by (cases "conn_type c") simp_all
  then show "clickHandler qt a ret err s = Inr s' \<Longrightarrow> all_typed s'"
    using assms c by (auto simp: connector_ops split: if_splits)
qed (use assms all_typedD [OF assms] in \<open>auto simp: connector_ops split: if_splits\<close>)

lemma finished_typed:
  assumes "all_typed s" and "desk_ok s" and "box_finished i s = Inr s'"
  shows "all_typed s'"
proof -
  let ?s = "s\<lparr>boxes := take i (boxes s) @ drop (Suc i) (boxes s)\<rparr>"
  have "desk_ok ?s"
    using assms(2) by (auto intro!: desk_ok_dom [OF assms(2)] dest: in_set_takeD in_set_dropD)
  then show ?thesis
    using assms by (auto simp: box_finished_def Let_def closeAllErrBox_ok split: if_splits)
qed

lemma handle_typed:
  assumes "all_typed s" and "desk_ok s" and "arises e s" and "handle qt e s = Inr s'"
  shows "all_typed s'"
proof (cases e)
  case (Type_data a t)
  then show ?thesis using assms set_conn_typed [OF assms(1), of a "\<lambda>c. c\<lparr>data_line := t\<rparr>" s'] by simp
next
  case (Window_close a)
  then show ?thesis using assms by (auto simp: close_connector_live desk_ok_def domIff)
next
  case (Tray d order)
  then show ?thesis
    using assms show_typed by (auto simp: trayIconActive_def main_restore_def split: if_splits)
next
  case (Button b g)
  then show ?thesis
    using assms created_typed by (auto simp: buttonClicked_def main_close_def split: button.splits)
next
  case (Key_release k g)
  then show ?thesis
    using assms created_typed by (auto simp: keyReleaseEvent_def split: if_splits)
qed (use assms in \<open>auto simp: changeEvent_def main_close_def main_restore_def delete_typed finished_typed
    elim: all_typed_same dest: slots_typed\<close>)

lemma desk_run_typed: "desk_run qt s \<Longrightarrow> all_typed s"
proof (induction rule: desk_run.induct)
  case (desk_step s e s')
  then show ?case using handle_typed desk_run_ok by blast
qed (simp add: all_typed_def main_window_def)



end
