(* ===== verification/Ws_Layout.thy ===== *)
theory Ws_Layout
  imports Ws_Frame
begin

text \<open>
  The two declarations of the header structs. \<^verbatim>\<open>websocket_server.h\<close> declares the bit fields of \<^verbatim>\<open>opcode_bit\<close>
  and \<^verbatim>\<open>payload_mask\<close> in one order for little endian machines and in the other for big endian ones, because
  compilers allocate bit fields from the lowest bit of the byte on the former and from the highest on the
  latter. Both declarations have the layout that \<^theory_text>\<open>Ws_Frame\<close> reads and writes.
\<close>

section \<open>Allocation of bit fields\<close>

text \<open>A field is its width and its value; the fields stand in the order of their declaration.\<close>

type_synonym bit_fields = "(nat \<times> byte) list"

fun allocate_low :: "nat \<Rightarrow> bit_fields \<Rightarrow> byte" where
  "allocate_low low [] = 0"
| "allocate_low low ((width, v) # fs) = push_bit low (take_bit width v) OR allocate_low (low + width) fs"

fun allocate_high :: "nat \<Rightarrow> bit_fields \<Rightarrow> byte" where
  "allocate_high high [] = 0"
| "allocate_high high ((width, v) # fs) =
     push_bit (high - width) (take_bit width v) OR allocate_high (high - width) fs"

section \<open>The declarations\<close>

definition opcode_bit_little :: "opcode_bit \<Rightarrow> bit_fields" where
  "opcode_bit_little b =
     [(4, ucast (opcode b)), (1, of_bool (rsv3 b)), (1, of_bool (rsv2 b)), (1, of_bool (rsv1 b)), (1, of_bool (fin b))]"

definition opcode_bit_big :: "opcode_bit \<Rightarrow> bit_fields" where
  "opcode_bit_big b =
     [(1, of_bool (fin b)), (1, of_bool (rsv1 b)), (1, of_bool (rsv2 b)), (1, of_bool (rsv3 b)), (4, ucast (opcode b))]"

definition payload_mask_little :: "payload_mask \<Rightarrow> bit_fields" where
  "payload_mask_little p = [(7, ucast (payload_len p)), (1, of_bool (mask_flag p))]"

definition payload_mask_big :: "payload_mask \<Rightarrow> bit_fields" where
  "payload_mask_big p = [(1, of_bool (mask_flag p)), (7, ucast (payload_len p))]"

lemmas declaration_defs = opcode_bit_little_def opcode_bit_big_def payload_mask_little_def payload_mask_big_def

text \<open>The packed struct on either machine.\<close>

definition struct_little :: "websocket_header \<Rightarrow> bytes" where
  "struct_little h = [allocate_low 0 (opcode_bit_little (op_bits h)), allocate_low 0 (payload_mask_little (payload h))]"

definition struct_big :: "websocket_header \<Rightarrow> bytes" where
  "struct_big h = [allocate_high 8 (opcode_bit_big (op_bits h)), allocate_high 8 (payload_mask_big (payload h))]"

section \<open>One layout\<close>

text \<open>The fields fill the byte, so allocating them from below is allocating their reverse from above.\<close>

definition total_width :: "bit_fields \<Rightarrow> nat" where
  "total_width fs = sum_list (map fst fs)"

lemma allocate_high_append:
  "allocate_high n (fs @ gs) = allocate_high n fs OR allocate_high (n - total_width fs) gs"
  by (induction fs arbitrary: n) (auto simp: total_width_def or.assoc)

lemma allocate_high_rev: "allocate_high (n + total_width fs) (rev fs) = allocate_low n fs"
proof (induction fs arbitrary: n)
  case (Cons f fs)
  obtain w v where f: "f = (w, v)" by (cases f)
  have "allocate_high (n + total_width (f # fs)) (rev (f # fs))
      = allocate_high ((n + w) + total_width fs) (rev fs) OR push_bit n (take_bit w v)"
    by (simp add: f allocate_high_append total_width_def rev_map [symmetric] add.assoc)
  also have "\<dots> = allocate_low n (f # fs)"
    by (simp add: Cons.IH f or.commute)
  finally show ?case .
qed (simp add: total_width_def)

lemma declarations_mirror:
  "opcode_bit_big b = rev (opcode_bit_little b)" "payload_mask_big p = rev (payload_mask_little p)"
  "total_width (opcode_bit_little b) = 8" "total_width (payload_mask_little p) = 8"
  by (simp_all add: declaration_defs total_width_def)

lemma take_bit_of_bool: "take_bit (Suc 0) (of_bool b :: byte) = of_bool b"
  by simp

lemma take_bit_fields: "take_bit 4 (ucast (x :: 4 word) :: byte) = ucast x" "take_bit 7 (ucast (y :: 7 word) :: byte) = ucast y"
  by (rule bit_word_eqI; auto simp: bit_simps dest: bit_imp_le_length)+

lemma struct_little: "struct_little h = header_bytes h"
  by (simp add: struct_little_def header_bytes_def declaration_defs take_bit_fields or.assoc)

text \<open>
  C28: the big endian and the little endian declaration of the frame header give the same two bytes for every
  header, those that \<^verbatim>\<open>send\<close> writes and the frame loop reads, so both ends of a connection agree on the wire.
\<close>

theorem header_layouts_agree:
  "struct_big h = header_bytes h \<and> struct_little h = header_bytes h
   \<and> header_of (struct_big h ! 0) (struct_little h ! 1) = h"
proof -
  have "struct_big h = struct_little h"
    using allocate_high_rev [of 0 "opcode_bit_little (op_bits h)"] allocate_high_rev [of 0 "payload_mask_little (payload h)"]
    by (simp add: struct_big_def struct_little_def declarations_mirror)
  then show ?thesis using header_of_bytes [of h] by (simp add: struct_little)
qed

end
