(* ===== verification/Spec2Isabelle.thy ===== *)
theory Spec2Isabelle
  imports Heartbeat_Loop Single_Application Tcp_Partial Echo_Refines Two_Threads Qt_Types Ws_Layout
begin

text \<open>
  A verification library for \<^verbatim>\<open>websocket_proto\<close>: two C++ programs, a WebSocket echo server on epoll
  (\<^verbatim>\<open>src/websocket_decoder\<close>) and a Qt client that opens several connections to such a server
  (\<^verbatim>\<open>src/tcp_connector\<close>). This theory imports the library; the properties stand in the theories of the
  components they are about, numbered C1, C2, ... in the order of their importance.

  \<^bold>\<open>The server and how its parts interact.\<close> \<^verbatim>\<open>Tcp_server\<close> owns the sockets, the client objects and the
  event loop, and calls virtual functions and callbacks; \<^verbatim>\<open>Http_server\<close> parses the opening request;
  \<^verbatim>\<open>Websocket_server\<close> overrides the virtual functions with the handshake and the frame decoder, wraps the
  application's callbacks, and puts heartbeat and expiry tasks into the \<^verbatim>\<open>time_wheel\<close>, whose list and map a
  \<^verbatim>\<open>spin_lock\<close> guards; \<^verbatim>\<open>main\<close> registers three lambdas that greet and echo. The state is one record that
  grows along the classes (\<open>wheel\<close>, \<open>process\<close>, \<open>websocket_process\<close>, \<open>main_process\<close>), so every operation is a
  function from states to results; pointers are addresses into a heap of client objects, and a read through
  a pointer to a deleted object is a fault like every other way to leave the rules of C++ (\<open>fault\<close> in
  \<^theory_text>\<open>Ws_Prelude\<close>).

  \<^item> \<^theory_text>\<open>Ws_Prelude\<close>: results, bytes, byte order, bounds-checked reads and writes, the rules for \<open>safe\<close>.
  \<^item> \<^theory_text>\<open>Spin_Lock\<close>: \<^verbatim>\<open>private/spin_lock.h\<close>; threads around it as a step relation, mutual exclusion by rule
    induction.
  \<^item> \<^theory_text>\<open>Time_Wheel\<close>: \<^verbatim>\<open>private/time_wheel.h\<close>, all operations. \<^theory_text>\<open>Wheel_Slots\<close>: where nodes stand and how
    they cascade. \<^theory_text>\<open>Wheel_Tasks\<close>: the invariant and the locale \<open>wheel_tasks\<close>, the contract of the functions
    that tasks run. \<^theory_text>\<open>Wheel_Spec\<close>: the abstract timer, a multiset of tasks, which \<open>tick\<close> and \<open>check\<close> refine.
  \<^item> \<^theory_text>\<open>Tcp_Server\<close>: \<^verbatim>\<open>tcp_client\<close>, \<^verbatim>\<open>tcp_server\<close>, from \<^verbatim>\<open>socket\<close> to the event loop. \<^theory_text>\<open>Tcp_Correct\<close>: the table of
    clients and the heap agree (\<open>server_inv\<close>), every event keeps that for hooks that fulfil the locales
    \<open>client_objects\<close> and \<open>server_hooks\<close>, a write event sends the queue, and what goes wrong.
    \<^theory_text>\<open>Tcp_Partial\<close>: write events while the kernel's buffer is full at any points.
  \<^item> \<^theory_text>\<open>Http_Server\<close>, \<^theory_text>\<open>Http_Correct\<close>: \<^verbatim>\<open>http_server.cpp\<close>, with the round trip over rendered requests.
  \<^item> \<^theory_text>\<open>Utf8\<close>: \<^verbatim>\<open>validate_utf8\<close>, equivalent to a grammar. \<^theory_text>\<open>Ws_Frame\<close>: header structs, \<^verbatim>\<open>send\<close>, the frame loop
    of \<^verbatim>\<open>websocket_server.cpp\<close>. \<^theory_text>\<open>Ws_Layout\<close>: the two declarations of the header structs, for little and for big
    endian machines. \<^theory_text>\<open>Ws_Rfc\<close>: the format of RFC 6455 as a specification, and the loop on it.
  \<^item> \<^theory_text>\<open>Websocket_Server\<close>: the rest of \<^verbatim>\<open>websocket_server.cpp\<close>. \<^theory_text>\<open>Websocket_Hooks\<close>: it fulfils the contract of the
    TCP server for every application in the locale \<open>ws_app\<close>. \<^theory_text>\<open>Websocket_Handshake\<close>, \<^theory_text>\<open>Websocket_Correct\<close>,
    \<^theory_text>\<open>Websocket_Closing\<close>, \<^theory_text>\<open>Websocket_Limits\<close>, \<^theory_text>\<open>Websocket_Timer\<close>, \<^theory_text>\<open>Timer_Race\<close>: the handshake, messages and
    pings, closing frames, refused and overrunning frames, heartbeats, and a closing between two steps of
    the timer's thread. \<^theory_text>\<open>Timer_Invariant\<close>: what the tasks of the wheel and the clients know of each other
    (\<open>timer_ok\<close>, and \<open>timer_busy\<close> while the timer's thread has tasks in its hands), kept by every operation of
    the server for every application in the locale \<open>timed_app\<close>.
  \<^item> \<^theory_text>\<open>Echo_Main\<close>: \<^verbatim>\<open>main.cpp\<close> and the states the whole server reaches (\<open>main_run\<close>); it interprets \<open>ws_app\<close>, so
    every event in them is safe. \<^theory_text>\<open>Echo_Session\<close>: connections and echoes from wire to wire.
  \<^item> \<^theory_text>\<open>Chat_Spec\<close>: an abstract chat, sessions with a phase, a queue and a line each, and what it never does; a line
    that is full cuts frames short. \<^theory_text>\<open>Echo_Chat\<close>: the abstraction \<open>chat_of\<close> of the server's state and the
    act that an event stands for (\<open>offers\<close>). \<^theory_text>\<open>Echo_Refines\<close>: one simulation lemma per act, and the refinement by the whole program, for
    scripts of any length on any number of connections, from which the invariants of the chat carry over.
  \<^item> \<^theory_text>\<open>Heartbeat_Safe\<close>: the same application on a server constructed with its heartbeat on; it interprets
    \<open>timed_app\<close>. \<open>beat_run n s\<close> is a run of events and wake-ups of the timer in any order after which \<open>n\<close> bounds
    the ids that were given out; in these states a wake-up pings exactly the clients whose tasks are due, once each.
  \<^item> \<^theory_text>\<open>Two_Threads\<close>: \<^verbatim>\<open>check\<close> divided into the steps between which the event loop can work (\<open>timer_step\<close>; taken
    in a row they are \<open>check\<close>), and \<open>interleaved\<close>, the states that both threads reach together: nothing goes wrong
    while the events spare the clients whose tasks the thread has in its hands, a hang-up of one of these
    clients always goes wrong, and the thread, left alone, comes to rest.
\<close>

text \<open>
  \<^bold>\<open>The client.\<close> \<^theory_text>\<open>Qt_Connector\<close> models \<^verbatim>\<open>Connector.cpp\<close>, \<^verbatim>\<open>Mainwindow.cpp\<close> and \<^verbatim>\<open>EventBus.h\<close>: the record
  \<open>desktop\<close> holds the connector objects, the table \<^verbatim>\<open>connections_\<close>, the subscriptions to the event bus, the
  objects marked by \<^verbatim>\<open>deleteLater\<close> and what is shown; every slot is a function on it, and \<open>handle\<close> is what
  \<^verbatim>\<open>connect\<close> has attached to each event. \<^theory_text>\<open>Qt_Correct\<close>: the states the application reaches (\<open>desk_run\<close>), their
  invariant \<open>desk_ok\<close>, and what the windows do. \<^theory_text>\<open>Qt_Types\<close>: every connector uses the union of its sockets at
  the type it was made with. \<^theory_text>\<open>Single_Application\<close>: \<^verbatim>\<open>SingleApplication.h\<close> and \<^verbatim>\<open>main.cpp\<close>
  for several processes on one machine. \<^theory_text>\<open>Heartbeat_Loop\<close> puts a connector and the server on one connection.

  \<^bold>\<open>Parameters.\<close> Code outside the repository is an argument. SHA-1 and base64 are the record \<open>crypto\<close>; the
  handshake relies on the sizes OpenSSL documents (\<open>openssl_sizes\<close>). What the system calls return is part of
  the events: \<open>accept\<close>, and scripts of the results of \<^verbatim>\<open>recv\<close> and \<^verbatim>\<open>send\<close>, any of them in \<open>main_event_safe\<close>
  but those its hypothesis names. The clock is a field of the state. The functions of Qt on strings are the
  record \<open>qt\<close>; widgets, sockets, lock files and local servers behave as the comments of their definitions
  say. The bytes of the stack that the closing frame leaks are the field \<open>stack_rest\<close>.

  \<^bold>\<open>Bounds and termination.\<close> All functions are total; loops over system call results recurse on the script
  and end with \<open>Script_end\<close> when it is too short, and the theorems that promise a result say how long it is.
  Loops over buffers recurse on the bytes that are left. Integers keep their width where it matters: lengths
  of 64 bits with sign extension, \<^verbatim>\<open>int\<close> counters with a fault on overflow, ids of the timer modulo \<open>2 ^ 64\<close>
  and \<open>2 ^ 32\<close>, unsigned window offsets. Messages are below \<open>2 ^ 31\<close> bytes and the timer below tick \<open>2 ^ 61\<close>
  where a theorem says so; both follow from the types. A wake-up of the timer that is to ping each client once is
  at most 49 days late, where the wheel cuts expiry times. The runs with the heartbeat on leave out packets of a
  single byte, after which a closing frame arms the task that dangles, and stay below \<open>2 ^ 32\<close> ids, where
  \<open>erase_task\<close> begins to truncate them; the scripts of the chat consist of whole messages in one event each.

  \<^bold>\<open>Not modelled.\<close> Printing and \<^verbatim>\<open>qDebug\<close>; \<^verbatim>\<open>time_wheel::set_thread_affinity\<close>, which nothing calls; the mutex
  of \<^verbatim>\<open>main.cpp\<close>, which one thread takes; data races inside a
  step of the timer's thread or inside the handling of one event (the lists that \<^verbatim>\<open>cascade\<close> moves and the send
  queue that a ping is pushed to are touched without a lock; \<^theory_text>\<open>Two_Threads\<close> interleaves whole steps); the
  layout of the forms, icons, installer and build files; the nested event loop of \<^verbatim>\<open>QMessageBox::critical\<close>.

  \<^bold>\<open>Left out of the runs.\<close> The scripts of the chat have no \<^verbatim>\<open>send\<close> that fails and no end of a stream behind
  data, after which the program uses deleted objects (\<^theory_text>\<open>Tcp_Correct\<close>).
\<close>

end
